(* ===== verification/Js_Prelude.thy ===== *)
theory Js_Prelude
  imports "HOL-Library.Word" "HOL-Library.Code_Target_Numeral"
begin

text \<open>
  Shared vocabulary of the development: exceptions as values, JavaScript strings as
  sequences of UTF-16 code units, typed-array slices, and the lemma collections the
  component theories feed and use.

  A JavaScript function that may throw returns a value of \<open>jserr + 'a\<close>, where \<open>Inl e\<close>
  is the thrown error and \<open>Inr x\<close> the returned value; \<open>bindE\<close> runs the rest of a
  function body after a call that may throw.
\<close>

named_theorems parse_safe \<open>reads that are in range and therefore do not throw\<close>
named_theorems len_simps \<open>lengths of encoded byte strings\<close>

section \<open>Exceptions\<close>

type_synonym jsstr = "nat list"

datatype jserr = RangeError | TypeError | SyntaxError | Error jsstr

type_synonym 'a res = "jserr + 'a"

definition bindE :: "'a res \<Rightarrow> ('a \<Rightarrow> 'b res) \<Rightarrow> 'b res" where
  "bindE m f = (case m of Inl e \<Rightarrow> Inl e | Inr x \<Rightarrow> f x)"

lemma bindE_Inl [simp]: "bindE (Inl e) f = Inl e"
  by (simp add: bindE_def)

lemma bindE_Inr [simp]: "bindE (Inr x) f = f x"
  by (simp add: bindE_def)

lemma bindE_eq_Inr_iff: "bindE m f = Inr y \<longleftrightarrow> (\<exists>x. m = Inr x \<and> f x = Inr y)"
  by (cases m) auto

lemma bindE_InrE: "bindE m f = Inr y \<Longrightarrow> (\<And>x. m = Inr x \<Longrightarrow> f x = Inr y \<Longrightarrow> P) \<Longrightarrow> P"
  by (cases m) auto

lemma bindE_assoc: "bindE (bindE m f) g = bindE m (\<lambda>x. bindE (f x) g)"
  by (cases m) auto

lemma bindE_cong [fundef_cong]:
  "m = m' \<Longrightarrow> (\<And>x. m' = Inr x \<Longrightarrow> f x = f' x) \<Longrightarrow> bindE m f = bindE m' f'"
  by (cases m') auto

definition returns :: "'a res \<Rightarrow> bool" where
  "returns m \<longleftrightarrow> (case m of Inl _ \<Rightarrow> False | Inr _ \<Rightarrow> True)"

lemma returns_simps [simp]: "returns (Inr x)" "\<not> returns (Inl e)"
  by (simp_all add: returns_def)

lemma returns_iff: "returns m \<longleftrightarrow> (\<exists>x. m = Inr x)"
  by (cases m) auto

lemma returns_bindE:
  "returns m \<Longrightarrow> (\<And>x. m = Inr x \<Longrightarrow> returns (f x)) \<Longrightarrow> returns (bindE m f)"
  by (cases m) auto

text \<open>Running a function that may throw over a list, stopping at the first error.\<close>

fun mapE :: "('a \<Rightarrow> 'b res) \<Rightarrow> 'a list \<Rightarrow> 'b list res" where
  "mapE f [] = Inr []"
| "mapE f (x # xs) = bindE (f x) (\<lambda>y. bindE (mapE f xs) (\<lambda>ys. Inr (y # ys)))"

lemma mapE_Inr: "(\<And>x. x \<in> set xs \<Longrightarrow> f x = Inr (g x)) \<Longrightarrow> mapE f xs = Inr (map g xs)"
  by (induction xs) auto

section \<open>Strings\<close>

text \<open>
  A JavaScript string is the list of its UTF-16 code units. \<open>js\<close> turns an ASCII literal
  into that list.
\<close>

definition js :: "string \<Rightarrow> jsstr" where
  "js s = map of_char s"

lemma js_simps [simp]: "js [] = []" "js (c # cs) = of_char c # js cs"
  by (simp_all add: js_def)

lemma js_append [simp]: "js (s @ t) = js s @ js t"
  by (simp add: js_def)

lemma js_Nil_iff [simp]: "js s = [] \<longleftrightarrow> s = []"
  by (simp add: js_def)

lemma length_js [simp]: "length (js s) = length s"
  by (simp add: js_def)

section \<open>Slices of lists and typed arrays\<close>

text \<open>\<open>slice xs a b\<close> is \<open>xs.slice(a, b)\<close> for indices that are not negative.\<close>

definition slice :: "'a list \<Rightarrow> nat \<Rightarrow> nat \<Rightarrow> 'a list" where
  "slice xs a b = take (b - a) (drop a xs)"

lemma length_slice [simp]: "length (slice xs a b) = min (b - a) (length xs - a)"
  by (simp add: slice_def)

lemma length_slice_in_range: "b \<le> length xs \<Longrightarrow> length (slice xs a b) = b - a"
  by simp

lemma slice_0 [simp]: "slice xs 0 b = take b xs"
  by (simp add: slice_def)

lemma slice_all: "slice xs a (length xs) = drop a xs"
  by (simp add: slice_def)

lemma slice_append_left: "b \<le> length xs \<Longrightarrow> slice (xs @ ys) a b = slice xs a b"
  by (simp add: slice_def)

lemma slice_append_right:
  "length xs \<le> a \<Longrightarrow> slice (xs @ ys) a b = slice ys (a - length xs) (b - length xs)"
  by (simp add: slice_def)

lemma slice_append_exact:
  "length xs = a \<Longrightarrow> a + length ys = b \<Longrightarrow> slice (xs @ ys @ zs) a b = ys"
  by (auto simp: slice_def)

lemma nth_slice: "i < b - a \<Longrightarrow> a + i < length xs \<Longrightarrow> slice xs a b ! i = xs ! (a + i)"
  by (simp add: slice_def)

lemma drop_slice: "slice xs a b @ drop b xs = drop a xs" if "a \<le> b"
proof -
  have "slice xs a b @ drop b xs = take (b - a) (drop a xs) @ drop (b - a) (drop a xs)"
    by (simp only: slice_def drop_drop le_add_diff_inverse2 [OF that])
  also have "\<dots> = drop a xs" by (rule append_take_drop_id)
  finally show ?thesis .
qed

section \<open>Filtering maps\<close>

lemma map_filter_Cons:
  "List.map_filter f (x # xs) = (case f x of None \<Rightarrow> [] | Some y \<Rightarrow> [y]) @ List.map_filter f xs"
  by (simp add: List.map_filter_def split: option.split)

lemma set_map_filter_iff: "y \<in> set (List.map_filter f xs) \<longleftrightarrow> (\<exists>x \<in> set xs. f x = Some y)"
  by (induction xs) (auto simp: map_filter_Cons List.map_filter_simps split: option.split)

end
