(* ===== verification/Byte_View.thy ===== *)
theory Byte_View
  imports Js_Prelude
begin

text \<open>
  Uint8Array and DataView. A typed array is a list of bytes (\<open>8 word\<close>); a DataView read
  outside the array throws a RangeError, a DataView write of an \<open>n\<close>-byte field stores the
  value modulo \<open>256\<^sup>n\<close>. The laws are the round trips between a field and its bytes in
  both byte orders.
\<close>

type_synonym byte = "8 word"
type_synonym bytes = "byte list"

section \<open>Fields as bytes\<close>

primrec le_bytes :: "nat \<Rightarrow> nat \<Rightarrow> bytes" where
  "le_bytes 0 n = []"
| "le_bytes (Suc k) n = word_of_nat n # le_bytes k (n div 256)"

definition be_bytes :: "nat \<Rightarrow> nat \<Rightarrow> bytes" where
  "be_bytes k n = rev (le_bytes k n)"

primrec le_val :: "bytes \<Rightarrow> nat" where
  "le_val [] = 0"
| "le_val (b # bs) = unat b + 256 * le_val bs"

definition be_val :: "bytes \<Rightarrow> nat" where
  "be_val bs = le_val (rev bs)"

lemma length_le_bytes [simp]: "length (le_bytes k n) = k"
  by (induction k arbitrary: n) auto

lemma length_be_bytes [simp]: "length (be_bytes k n) = k"
  by (simp add: be_bytes_def)

lemma unat_byte_less [simp]: "unat (b :: byte) < 256"
  using unsigned_less [where ?'a = nat and w = b] by simp

lemma unat_word_of_nat_byte [simp]: "unat (word_of_nat n :: byte) = n mod 256"
  by (simp add: unat_of_nat)

lemma le_val_bound: "le_val bs < 256 ^ length bs"
proof (induction bs)
  case (Cons b bs)
  have "unat b + 256 * le_val bs < 256 * (le_val bs + 1)" by simp
  also have "\<dots> \<le> 256 * 256 ^ length bs" using Cons.IH by (intro mult_le_mono2) simp
  finally show ?case by simp
qed simp

lemma be_val_bound: "be_val bs < 256 ^ length bs"
  using le_val_bound [of "rev bs"] by (simp add: be_val_def)

lemma le_val_le_bytes: "le_val (le_bytes k n) = n mod 256 ^ k"
  by (induction k arbitrary: n) (simp_all add: mod_mult2_eq)

lemma be_val_be_bytes: "be_val (be_bytes k n) = n mod 256 ^ k"
  by (simp add: be_val_def be_bytes_def le_val_le_bytes)

lemma le_bytes_le_val: "length bs = k \<Longrightarrow> le_bytes k (le_val bs) = bs"
proof (induction bs arbitrary: k)
  case (Cons b bs)
  have "(word_of_nat (unat b + 256 * le_val bs) :: byte) = b"
  proof (rule unsigned_word_eqI)
    have "unat (word_of_nat (unat b + 256 * le_val bs) :: byte) = (unat b + 256 * le_val bs) mod 256"
      by (rule unat_word_of_nat_byte)
    then show "unat (word_of_nat (unat b + 256 * le_val bs) :: byte) = unat b"
      by simp
  qed
  moreover have "(unat b + 256 * le_val bs) div 256 = le_val bs" by simp
  ultimately show ?case using Cons by auto
qed simp

lemma be_bytes_be_val: "length bs = k \<Longrightarrow> be_bytes k (be_val bs) = bs"
  by (simp add: be_bytes_def be_val_def le_bytes_le_val)

lemma le_val_inject: "length xs = length ys \<Longrightarrow> le_val xs = le_val ys \<longleftrightarrow> xs = ys"
  by (metis le_bytes_le_val)

section \<open>DataView reads\<close>

definition getUint :: "nat \<Rightarrow> bytes \<Rightarrow> nat \<Rightarrow> bool \<Rightarrow> nat res" where
  "getUint k buf off littleEndian =
     (if off + k \<le> length buf
      then Inr ((if littleEndian then le_val else be_val) (slice buf off (off + k)))
      else Inl RangeError)"

abbreviation getUint16 :: "bytes \<Rightarrow> nat \<Rightarrow> bool \<Rightarrow> nat res" where
  "getUint16 \<equiv> getUint 2"

abbreviation getUint32 :: "bytes \<Rightarrow> nat \<Rightarrow> bool \<Rightarrow> nat res" where
  "getUint32 \<equiv> getUint 4"

abbreviation getBigUint64 :: "bytes \<Rightarrow> nat \<Rightarrow> bool \<Rightarrow> nat res" where
  "getBigUint64 \<equiv> getUint 8"

lemma getUint_returns [parse_safe]: "off + k \<le> length buf \<Longrightarrow> returns (getUint k buf off le)"
  by (simp add: getUint_def)

lemma getUint_bound: "getUint k buf off le = Inr v \<Longrightarrow> v < 256 ^ k"
proof -
  assume a: "getUint k buf off le = Inr v"
  then have "off + k \<le> length buf" by (auto simp: getUint_def split: if_splits)
  then have "length (slice buf off (off + k)) = k" by simp
  then show ?thesis
    using a le_val_bound [of "slice buf off (off + k)"] be_val_bound [of "slice buf off (off + k)"]
    by (auto simp: getUint_def split: if_splits)
qed

lemma getUint_le_at:
  "length xs = off \<Longrightarrow> getUint k (xs @ le_bytes k n @ ys) off True = Inr (n mod 256 ^ k)"
  by (simp add: getUint_def slice_append_exact le_val_le_bytes)

lemma getUint_be_at:
  "length xs = off \<Longrightarrow> getUint k (xs @ be_bytes k n @ ys) off False = Inr (n mod 256 ^ k)"
  by (simp add: getUint_def slice_append_exact be_val_be_bytes)

lemma getUint_append_left:
  "off + k \<le> length xs \<Longrightarrow> getUint k (xs @ ys) off le = getUint k xs off le"
  by (simp add: getUint_def slice_append_left)

lemma getUint_append_right:
  "length xs \<le> off \<Longrightarrow> getUint k (xs @ ys) off le = getUint k ys (off - length xs) le"
  by (auto simp: getUint_def slice_append_right)

section \<open>Whole arrays\<close>

definition concatBytes :: "bytes list \<Rightarrow> bytes" where
  "concatBytes chunks = fold (\<lambda>c out. out @ c) chunks []"

lemma fold_append_concat: "fold (\<lambda>c out. out @ c) chunks out = out @ concat chunks"
  by (induction chunks arbitrary: out) auto

lemma concatBytes_concat [simp]: "concatBytes chunks = concat chunks"
  by (simp add: concatBytes_def fold_append_concat)

fun bytesEqual_from :: "bytes \<Rightarrow> bytes \<Rightarrow> bool" where
  "bytesEqual_from (x # xs) (y # ys) = (if x \<noteq> y then False else bytesEqual_from xs ys)"
| "bytesEqual_from _ _ = True"

definition bytesEqual :: "bytes \<Rightarrow> bytes \<Rightarrow> bool" where
  "bytesEqual a b = (if length a \<noteq> length b then False else bytesEqual_from a b)"

lemma bytesEqual_from_iff: "length a = length b \<Longrightarrow> bytesEqual_from a b \<longleftrightarrow> a = b"
  by (induction a b rule: bytesEqual_from.induct) auto

lemma bytesEqual_iff [simp]: "bytesEqual a b \<longleftrightarrow> a = b"
  by (auto simp: bytesEqual_def bytesEqual_from_iff)

end
