(* ===== verification/Js_Number.thy ===== *)
theory Js_Number
  imports Complex_Main Js_Prelude
begin

text \<open>
  JavaScript numbers: IEEE 754 binary64 values, up to the sign of zero, as exact rationals
  with the three non-finite values beside them. \<open>rnd\<close> is the rounding every arithmetic
  operator performs (to nearest, ties to even, gradual underflow, overflow to infinity);
  \<open>to_double\<close> is its restriction to the non-negative integers, which is what
  \<open>Number(b)\<close> does to a BigInt read from the wire. The lemmas at the end say when integer
  arithmetic is exact, which is what the components need.
\<close>

section \<open>Binary logarithms and rounding to an integer\<close>

fun ilog2 :: "nat \<Rightarrow> nat" where
  "ilog2 n = (if n < 2 then 0 else Suc (ilog2 (n div 2)))"

declare ilog2.simps [simp del]

lemma ilog2_bounds: "0 < n \<Longrightarrow> 2 ^ ilog2 n \<le> n \<and> n < 2 ^ Suc (ilog2 n)"
proof (induction n rule: ilog2.induct)
  case (1 n)
  show ?case
  proof (cases "n < 2")
    case True
    with "1.prems" show ?thesis by (simp add: ilog2.simps [of n])
  next
    case False
    then have "2 ^ ilog2 (n div 2) \<le> n div 2 \<and> n div 2 < 2 ^ Suc (ilog2 (n div 2))"
      using "1.IH" by simp
    with False show ?thesis by (auto simp: ilog2.simps [of n])
  qed
qed

lemma ilog2_less: "0 < n \<Longrightarrow> n < 2 ^ k \<Longrightarrow> ilog2 n < k"
  using ilog2_bounds [of n] power_less_imp_less_exp [of "2::nat" "ilog2 n" k] by linarith

lemma ilog2_ge: "2 ^ k \<le> n \<Longrightarrow> k \<le> ilog2 n"
proof -
  assume a: "2 ^ k \<le> n"
  then have "0 < n" by (metis gr0I le_zero_eq power_not_zero zero_neq_numeral)
  then have "(2::nat) ^ k < 2 ^ Suc (ilog2 n)" using a ilog2_bounds [of n] by linarith
  then show ?thesis using power_less_imp_less_exp [of "2::nat" k "Suc (ilog2 n)"] by simp
qed

lemma ilog2_pow2 [simp]: "ilog2 (2 ^ k) = k"
proof (rule antisym)
  show "ilog2 (2 ^ k) \<le> k"
    using ilog2_less [of "2 ^ k" "Suc k"] by simp
  show "k \<le> ilog2 (2 ^ k)" by (rule ilog2_ge) simp
qed

definition clog2 :: "nat \<Rightarrow> nat" where
  "clog2 n = (if n \<le> 1 then 0 else Suc (ilog2 (n - 1)))"

definition half_even :: "rat \<Rightarrow> int" where
  "half_even q =
     (let f = \<lfloor>q\<rfloor>; d = q - of_int f
      in if d < 1 / 2 then f else if 1 / 2 < d then f + 1 else if even f then f else f + 1)"

lemma half_even_of_int [simp]: "half_even (of_int n) = n"
  by (simp add: half_even_def)

definition half_even_div :: "nat \<Rightarrow> nat \<Rightarrow> nat" where
  "half_even_div n d =
     (let q = n div d; r = n mod d
      in if 2 * r < d then q else if d < 2 * r then q + 1 else if even q then q else q + 1)"

lemma half_even_div_ge: "n div d \<le> half_even_div n d"
  by (simp add: half_even_div_def Let_def)

lemma half_even_div_le: "half_even_div n d \<le> n div d + 1"
  by (simp add: half_even_div_def Let_def)

lemma half_even_div_exact: "0 < d \<Longrightarrow> d dvd n \<Longrightarrow> half_even_div n d = n div d"
  by (auto simp: half_even_div_def Let_def)

section \<open>Number values\<close>

datatype jsnum = NaN | PosInf | NegInf | Fin rat

definition pow2 :: "int \<Rightarrow> rat" where
  "pow2 e = (if 0 \<le> e then 2 ^ nat e else 1 / 2 ^ nat (- e))"

definition binexp :: "rat \<Rightarrow> int" where
  \<comment> \<open>the exponent \<open>k\<close> with \<open>2\<^sup>k \<le> q < 2\<^sup>k\<^sup>+\<^sup>1\<close>, for positive \<open>q\<close>\<close>
  "binexp q = (if 1 \<le> q then int (ilog2 (nat \<lfloor>q\<rfloor>)) else - int (clog2 (nat \<lceil>1 / q\<rceil>)))"

definition rnd_pos :: "rat \<Rightarrow> jsnum" where
  "rnd_pos q =
     (if q = 0 then Fin 0
      else let e = max (binexp q - 52) (- 1074);
               v = of_int (half_even (q / pow2 e)) * pow2 e
           in if 2 ^ 1024 \<le> v then PosInf else Fin v)"

fun jneg :: "jsnum \<Rightarrow> jsnum" where
  "jneg NaN = NaN"
| "jneg PosInf = NegInf"
| "jneg NegInf = PosInf"
| "jneg (Fin q) = Fin (- q)"

definition rnd :: "rat \<Rightarrow> jsnum" where
  "rnd q = (if q < 0 then jneg (rnd_pos (- q)) else rnd_pos q)"

fun jadd :: "jsnum \<Rightarrow> jsnum \<Rightarrow> jsnum" where
  "jadd NaN _ = NaN"
| "jadd _ NaN = NaN"
| "jadd PosInf NegInf = NaN"
| "jadd NegInf PosInf = NaN"
| "jadd PosInf _ = PosInf"
| "jadd NegInf _ = NegInf"
| "jadd (Fin _) PosInf = PosInf"
| "jadd (Fin _) NegInf = NegInf"
| "jadd (Fin a) (Fin b) = rnd (a + b)"

definition jsub :: "jsnum \<Rightarrow> jsnum \<Rightarrow> jsnum" where
  "jsub a b = jadd a (jneg b)"

definition inf_signed :: "rat \<Rightarrow> jsnum" where
  "inf_signed s = (if 0 < s then PosInf else if s < 0 then NegInf else NaN)"

fun jmul :: "jsnum \<Rightarrow> jsnum \<Rightarrow> jsnum" where
  "jmul NaN _ = NaN"
| "jmul _ NaN = NaN"
| "jmul PosInf PosInf = PosInf"
| "jmul PosInf NegInf = NegInf"
| "jmul NegInf PosInf = NegInf"
| "jmul NegInf NegInf = PosInf"
| "jmul PosInf (Fin b) = inf_signed b"
| "jmul NegInf (Fin b) = inf_signed (- b)"
| "jmul (Fin a) PosInf = inf_signed a"
| "jmul (Fin a) NegInf = inf_signed (- a)"
| "jmul (Fin a) (Fin b) = rnd (a * b)"

text \<open>Division by a positive literal, the only division the modelled code performs.\<close>

fun jdivc :: "jsnum \<Rightarrow> rat \<Rightarrow> jsnum" where
  "jdivc (Fin a) c = rnd (a / c)"
| "jdivc x c = x"

fun jlt :: "jsnum \<Rightarrow> jsnum \<Rightarrow> bool" where
  "jlt (Fin a) (Fin b) = (a < b)"
| "jlt (Fin _) PosInf = True"
| "jlt NegInf (Fin _) = True"
| "jlt NegInf PosInf = True"
| "jlt _ _ = False"

fun jle :: "jsnum \<Rightarrow> jsnum \<Rightarrow> bool" where
  "jle NaN _ = False"
| "jle _ NaN = False"
| "jle a b = (\<not> jlt b a)"

definition jge :: "jsnum \<Rightarrow> jsnum \<Rightarrow> bool" where
  "jge a b = jle b a"

fun jmax :: "jsnum \<Rightarrow> jsnum \<Rightarrow> jsnum" where
  "jmax NaN _ = NaN"
| "jmax _ NaN = NaN"
| "jmax a b = (if jlt a b then b else a)"

fun jceil :: "jsnum \<Rightarrow> jsnum" where
  "jceil (Fin q) = Fin (of_int \<lceil>q\<rceil>)"
| "jceil x = x"

fun jfloor :: "jsnum \<Rightarrow> jsnum" where
  "jfloor (Fin q) = Fin (of_int \<lfloor>q\<rfloor>)"
| "jfloor x = x"

fun is_integer :: "jsnum \<Rightarrow> bool" where
  "is_integer (Fin q) = (of_int \<lfloor>q\<rfloor> = q)"
| "is_integer _ = False"

text \<open>Integer-valued numbers.\<close>

definition jint :: "int \<Rightarrow> jsnum" where
  "jint n = Fin (of_int n)"

section \<open>Exactness on the safe integers\<close>

lemma pow2_add_nat: "0 \<le> e \<Longrightarrow> pow2 e = 2 ^ nat e" "e < 0 \<Longrightarrow> pow2 e = 1 / 2 ^ nat (- e)"
  by (simp_all add: pow2_def)

lemma rnd_pos_of_nat_small:
  assumes "n \<le> 2 ^ 53"
  shows "rnd_pos (of_nat n) = Fin (of_nat n)"
proof (cases "n = 0")
  case False
  then have n: "0 < n" by simp
  have be: "binexp (of_nat n) = int (ilog2 n)"
    using n by (simp add: binexp_def)
  have lt: "(of_nat n :: rat) < 2 ^ 1024"
  proof -
    have "n < 2 ^ 1024"
      using assms by (rule le_less_trans) simp
    then have "(of_nat n :: rat) < of_nat (2 ^ 1024)" by (simp only: of_nat_less_iff)
    then show ?thesis by simp
  qed
  have key: "of_int (half_even (of_nat n / pow2 e)) * pow2 e = (of_nat n :: rat)"
    if e: "e = max (int (ilog2 n) - 52) (- 1074)" for e
  proof (cases "n = 2 ^ 53")
    case True
    then have "ilog2 n = 53" by (simp only: ilog2_pow2)
    then have "e = 1" using e by simp
    then have "of_nat n / pow2 e = (of_int (2 ^ 52) :: rat)"
      using True by (simp add: pow2_def)
    then have "half_even (of_nat n / pow2 e) = 2 ^ 52" by (simp only: half_even_of_int)
    with True \<open>e = 1\<close> show ?thesis by (simp add: pow2_def)
  next
    case False
    then have "ilog2 n < 53" using assms n by (intro ilog2_less) auto
    then have e0: "e \<le> 0" using e by simp
    have p: "pow2 e = 1 / 2 ^ nat (- e)" using e0 by (cases "e = 0") (auto simp: pow2_def)
    have "of_nat n / pow2 e = (of_int (int n * 2 ^ nat (- e)) :: rat)"
      by (simp add: p)
    then have "half_even (of_nat n / pow2 e) = int n * 2 ^ nat (- e)"
      by (simp only: half_even_of_int)
    then show ?thesis by (simp add: p)
  qed
  have "rnd_pos (of_nat n) = (let v = (of_nat n :: rat) in if 2 ^ 1024 \<le> v then PosInf else Fin v)"
    using n key [OF refl] by (simp add: rnd_pos_def be Let_def)
  also have "\<dots> = Fin (of_nat n)"
    using lt by (simp add: Let_def not_le)
  finally show ?thesis .
qed (simp add: rnd_pos_def)

definition safe_int :: "int \<Rightarrow> bool" where
  "safe_int n \<longleftrightarrow> \<bar>n\<bar> \<le> 2 ^ 53"

lemma rnd_of_int: "safe_int n \<Longrightarrow> rnd (of_int n) = jint n"
proof -
  assume s: "safe_int n"
  have "nat \<bar>n\<bar> \<le> 2 ^ 53" using s by (simp add: safe_int_def nat_le_iff)
  from rnd_pos_of_nat_small [OF this]
  have r: "rnd_pos (of_int \<bar>n\<bar>) = Fin (of_int \<bar>n\<bar>)"
    by (metis abs_ge_zero nat_0_le of_int_of_nat_eq)
  show ?thesis
    using r by (cases "n < 0") (simp_all add: rnd_def jint_def)
qed

lemma jneg_jint [simp]: "jneg (jint n) = jint (- n)"
  by (simp add: jint_def)

lemma jlt_jint [simp]: "jlt (jint a) (jint b) \<longleftrightarrow> a < b"
  by (simp add: jint_def)

lemma jle_jint [simp]: "jle (jint a) (jint b) \<longleftrightarrow> a \<le> b"
  by (auto simp: jint_def)

lemma jint_inject [simp]: "jint a = jint b \<longleftrightarrow> a = b"
  by (simp add: jint_def)

lemma jadd_jint: "safe_int (a + b) \<Longrightarrow> jadd (jint a) (jint b) = jint (a + b)"
  using rnd_of_int [of "a + b"] by (simp add: jint_def)

lemma jsub_jint: "safe_int (a - b) \<Longrightarrow> jsub (jint a) (jint b) = jint (a - b)"
  using jadd_jint [of a "- b"] by (simp add: jsub_def)

lemma jmul_jint: "safe_int (a * b) \<Longrightarrow> jmul (jint a) (jint b) = jint (a * b)"
  using rnd_of_int [of "a * b"] by (simp add: jint_def)

lemma jmax_jint [simp]: "jmax (jint a) (jint b) = jint (max a b)"
  by (auto simp: jint_def max_def)

lemma jceil_jint [simp]: "jceil (jint a) = jint a" and jfloor_jint [simp]: "jfloor (jint a) = jint a"
  by (simp_all add: jint_def)

lemma is_integer_jint [simp]: "is_integer (jint n)"
  by (simp add: jint_def)

lemma jlt_irrefl [simp]: "\<not> jlt a a"
  by (cases a) auto

lemma jlt_trans: "jlt a b \<Longrightarrow> jlt b c \<Longrightarrow> jlt a c"
  by (cases a; cases b; cases c) auto

section \<open>Integers beyond the safe range\<close>

definition to_double :: "nat \<Rightarrow> nat" where
  "to_double n =
     (if n < 2 ^ 53 then n else let d = 2 ^ (ilog2 n - 52) in half_even_div n d * d)"

lemma to_double_exact: "n \<le> 2 ^ 53 \<Longrightarrow> to_double n = n"
proof (cases "n = 2 ^ 53")
  case True
  then have "ilog2 n = 53" by (simp only: ilog2_pow2)
  then show ?thesis
    using True half_even_div_exact [of 2 "2 ^ 53"] by (simp add: to_double_def)
qed (simp add: to_double_def)

lemma to_double_ge: "2 ^ k \<le> n \<Longrightarrow> 2 ^ k \<le> to_double n" if "53 \<le> k"
proof -
  assume a: "2 ^ k \<le> n"
  define d where "d = (2::nat) ^ (ilog2 n - 52)"
  have k: "k \<le> ilog2 n" using a by (rule ilog2_ge)
  have n: "0 < n" using a by (metis gr0I le_zero_eq power_not_zero zero_neq_numeral)
  have "(2::nat) ^ 53 \<le> n"
    using a power_increasing [OF that, of "2::nat"] by simp
  then have eq: "to_double n = half_even_div n d * d"
    by (simp add: to_double_def d_def Let_def)
  have s: "(2::nat) ^ ilog2 n = 2 ^ 52 * d"
  proof -
    have "ilog2 n = 52 + (ilog2 n - 52)" using k that by linarith
    then show ?thesis unfolding d_def by (metis power_add)
  qed
  have "2 ^ 52 * d div d \<le> n div d"
    using ilog2_bounds [OF n] s by (intro div_le_mono) simp
  then have "2 ^ 52 \<le> half_even_div n d"
    using half_even_div_ge [of n d] by (simp add: d_def)
  then have "2 ^ 52 * d \<le> to_double n" by (simp add: eq)
  then have "2 ^ ilog2 n \<le> to_double n" using s by simp
  moreover have "(2::nat) ^ k \<le> 2 ^ ilog2 n" using k by (intro power_increasing) auto
  ultimately show ?thesis by linarith
qed

lemma to_double_ge_bound: "m \<le> 2 ^ 53 \<Longrightarrow> m \<le> n \<Longrightarrow> m \<le> to_double n"
  using to_double_exact [of n] to_double_ge [of 53 n] by (cases "n \<le> 2 ^ 53") auto

lemma to_double_le_bound_iff: "m < 2 ^ 53 \<Longrightarrow> to_double n \<le> m \<longleftrightarrow> n \<le> m"
  using to_double_exact [of n] to_double_ge [of 53 n] by (cases "n \<le> 2 ^ 53") auto

lemma to_double_less_bound_iff: "m \<le> 2 ^ 53 \<Longrightarrow> to_double n < m \<longleftrightarrow> n < m"
  using to_double_exact [of n] to_double_ge [of 53 n] by (cases "n \<le> 2 ^ 53") auto

text \<open>Addition of two non-negative integral numbers.\<close>

definition num_add :: "nat \<Rightarrow> nat \<Rightarrow> nat" where
  "num_add a b = to_double (a + b)"

lemma num_add_exact: "a + b \<le> 2 ^ 53 \<Longrightarrow> num_add a b = a + b"
  by (simp add: num_add_def to_double_exact)

lemma num_add_le_iff: "m < 2 ^ 53 \<Longrightarrow> num_add a b \<le> m \<longleftrightarrow> a + b \<le> m"
  by (simp add: num_add_def to_double_le_bound_iff)

lemma num_add_exact_of_le:
  assumes "m < 2 ^ 53" "num_add a b \<le> m"
  shows "num_add a b = a + b"
proof (rule num_add_exact)
  have "a + b \<le> m" using assms num_add_le_iff by blast
  then show "a + b \<le> 2 ^ 53" using assms(1) by linarith
qed

lemma num_add3_le:
  assumes "m < 2 ^ 53" "num_add (num_add a b) c \<le> m"
  shows "num_add a b = a + b" "a + b + c \<le> m"
proof -
  have le: "num_add a b + c \<le> m" using assms num_add_le_iff by blast
  then show e: "num_add a b = a + b" using num_add_exact_of_le [OF assms(1), of a b] by linarith
  show "a + b + c \<le> m" using le e by simp
qed

lemma num_add3_exact: "a + b + c \<le> 2 ^ 53 \<Longrightarrow> num_add (num_add a b) c = a + b + c"
  by (simp add: num_add_exact)

section \<open>Rounding of a quotient\<close>

lemma half_even_near: "\<bar>of_int (half_even x) - x\<bar> \<le> 1 / 2"
proof -
  have f: "of_int \<lfloor>x\<rfloor> \<le> x" "x < of_int \<lfloor>x\<rfloor> + 1" by linarith+
  show ?thesis
    unfolding half_even_def Let_def using f by (auto simp: abs_le_iff)
qed

lemma binexp_le: "0 < q \<Longrightarrow> q < 2 ^ k \<Longrightarrow> 0 < k \<Longrightarrow> binexp q \<le> int k - 1"
proof -
  assume q: "0 < q" "q < 2 ^ k" "0 < k"
  show ?thesis
  proof (cases "1 \<le> q")
    case True
    then have "0 < nat \<lfloor>q\<rfloor>" by simp
    moreover have "nat \<lfloor>q\<rfloor> < 2 ^ k"
    proof -
      have "\<lfloor>q\<rfloor> < 2 ^ k" using q(2) by (simp add: floor_less_iff)
      then show ?thesis by (simp add: nat_less_iff)
    qed
    ultimately have "ilog2 (nat \<lfloor>q\<rfloor>) < k" by (rule ilog2_less)
    then show ?thesis using True by (simp add: binexp_def)
  next
    case False
    then show ?thesis using q(3) by (simp add: binexp_def)
  qed
qed

lemma pow2_le: "e \<le> - 17 \<Longrightarrow> 0 < pow2 e \<and> pow2 e \<le> 1 / 2 ^ 17"
proof -
  assume e: "e \<le> - 17"
  then have "(17 :: nat) \<le> nat (- e)" by simp
  then have "(2 :: rat) ^ 17 \<le> 2 ^ nat (- e)" by (rule power_increasing) simp
  then have "1 / (2 :: rat) ^ nat (- e) \<le> 1 / 2 ^ 17" by (intro divide_left_mono) simp_all
  then show ?thesis using e by (simp add: pow2_def)
qed

lemma rnd_near:
  assumes "0 < q" "q < 2 ^ 36"
  shows "\<exists>v. rnd q = Fin v \<and> \<bar>v - q\<bar> \<le> 1 / 2 ^ 18"
proof -
  define e where "e = max (binexp q - 52) (- 1074)"
  define v where "v = of_int (half_even (q / pow2 e)) * pow2 e"
  have "binexp q \<le> 35" using binexp_le [of q 36] assms by simp
  then have "e \<le> - 17" by (simp add: e_def)
  then have p: "0 < pow2 e" "pow2 e \<le> 1 / 2 ^ 17" using pow2_le by blast+
  have "v - q = (of_int (half_even (q / pow2 e)) - q / pow2 e) * pow2 e"
    using p(1) by (simp add: v_def left_diff_distrib)
  then have "\<bar>v - q\<bar> = \<bar>of_int (half_even (q / pow2 e)) - q / pow2 e\<bar> * pow2 e"
    using p(1) by (simp add: abs_mult)
  also have "\<dots> \<le> 1 / 2 * pow2 e"
    using half_even_near [of "q / pow2 e"] p(1) by (intro mult_right_mono) auto
  also have "\<dots> \<le> 1 / 2 ^ 18" using p(2) by simp
  finally have near: "\<bar>v - q\<bar> \<le> 1 / 2 ^ 18" .
  have "v < 2 ^ 1024"
  proof -
    have "v < 2 ^ 37" using abs_le_D1 [OF near] assms(2) by simp
    also have "(2 :: rat) ^ 37 \<le> 2 ^ 1024" by (rule power_increasing) simp_all
    finally show ?thesis .
  qed
  then have "rnd q = Fin v"
    using assms(1) by (simp add: rnd_def rnd_pos_def v_def e_def Let_def not_le)
  with near show ?thesis by blast
qed

text \<open>Dividing an integer by 60,000 and rounding up is exact, in spite of the rounded quotient.\<close>

lemma ceil_minutes:
  assumes "0 < x" "x < 2 ^ 51"
  shows "jceil (jdivc (jint x) 60000) = jint \<lceil>(of_int x :: rat) / 60000\<rceil>"
proof (cases "60000 dvd x")
  case True
  then obtain y where y: "x = 60000 * y" by blast
  then have "safe_int y" using assms by (simp add: safe_int_def)
  then show ?thesis using rnd_of_int [of y] y by (simp add: jint_def)
next
  case False
  define q where "q = (of_int x :: rat) / 60000"
  define m where "m = x div 60000"
  define r where "r = x mod 60000"
  have x: "x = 60000 * m + r" by (simp add: m_def r_def)
  have r: "1 \<le> r" "r \<le> 59999"
  proof -
    have "0 \<le> r" "r < 60000" by (simp_all add: r_def)
    moreover have "r \<noteq> 0" using False by (auto simp: r_def dvd_eq_mod_eq_0)
    ultimately show "1 \<le> r" "r \<le> 59999" by linarith+
  qed
  have q: "q = of_int m + of_int r / 60000" by (simp add: q_def x add_divide_distrib)
  have rr: "1 / 60000 \<le> (of_int r :: rat) / 60000" "(of_int r :: rat) / 60000 \<le> 59999 / 60000"
    using r by (simp_all add: divide_right_mono)
  have "0 < q" using assms(1) by (simp add: q_def)
  moreover have "q < 2 ^ 36"
  proof -
    have "(of_int x :: rat) < of_int (2 ^ 51)" using assms(2) by (simp only: of_int_less_iff)
    then show ?thesis by (simp add: q_def)
  qed
  ultimately obtain v where v: "rnd q = Fin v" "\<bar>v - q\<bar> \<le> 1 / 2 ^ 18" using rnd_near by blast
  have near: "v - q \<le> 1 / 262144" "q - v \<le> 1 / 262144" 
    using abs_le_D1 [OF v(2)] abs_le_D2 [OF v(2)] by simp_all
  have "of_int m < v" "v < of_int m + 1" using near rr q by linarith+
  then have "\<lceil>v\<rceil> = m + 1" by (simp add: ceiling_eq_iff)
  moreover have "\<lceil>q\<rceil> = m + 1" using q rr by (simp add: ceiling_eq_iff)
  ultimately show ?thesis using v(1) by (simp add: jint_def q_def)
qed


section \<open>Numbers in JSON\<close>

text \<open>What is left of a number, or of \<open>null\<close>, after \<open>JSON.stringify\<close> and \<open>JSON.parse\<close>.\<close>

fun json_number :: "jsnum option \<Rightarrow> jsnum option" where
  "json_number (Some (Fin q)) = Some (Fin q)"
| "json_number _ = None"

lemma json_number_jint [simp]: "json_number (Some (jint n)) = Some (jint n)"
  by (simp add: jint_def)

end
