(* ===== verification/P2p_Varint.thy ===== *)
theory P2p_Varint
  imports Byte_View Js_Number
begin

text \<open>
  CompactSize integers of the peer-to-peer protocol (\<open>p2pVarint\<close> and \<open>p2pReadVarint\<close> of
  \<open>worker/src/protocol.js\<close>). The value of a nine-byte encoding is a BigInt converted to a
  Number, so it is rounded to a double (\<open>to_double\<close>).
\<close>

definition p2pVarint :: "nat \<Rightarrow> bytes" where
  "p2pVarint n =
     (if n < 0xfd then [of_nat n]
      else if n \<le> 0xffff then 0xfd # le_bytes 2 n
      else if n \<le> 0xffffffff then 0xfe # le_bytes 4 n
      else 0xff # le_bytes 8 n)"

text \<open>\<open>None\<close> is the \<open>null\<close> that asks for more bytes.\<close>

definition p2pReadVarint :: "bytes \<Rightarrow> nat \<Rightarrow> (nat \<times> nat) option res" where
  "p2pReadVarint buf offset =
     (if length buf \<le> offset then Inr None
      else let first = unat (buf ! offset)
      in if first < 0xfd then Inr (Some (first, offset + 1))
         else if first = 0xfd then
           (if length buf < offset + 3 then Inr None
            else bindE (getUint16 buf (offset + 1) True) (\<lambda>v. Inr (Some (v, offset + 3))))
         else if first = 0xfe then
           (if length buf < offset + 5 then Inr None
            else bindE (getUint32 buf (offset + 1) True) (\<lambda>v. Inr (Some (v, offset + 5))))
         else if length buf < offset + 9 then Inr None
         else bindE (getBigUint64 buf (offset + 1) True) (\<lambda>v. Inr (Some (to_double v, offset + 9))))"

lemma length_p2pVarint [len_simps]:
  "length (p2pVarint n) =
     (if n < 0xfd then 1 else if n \<le> 0xffff then 3 else if n \<le> 0xffffffff then 5 else 9)"
  by (simp add: p2pVarint_def)

lemma p2pReadVarint_returns [parse_safe]: "returns (p2pReadVarint buf offset)"
  unfolding p2pReadVarint_def Let_def
  by (auto intro!: returns_bindE parse_safe)

lemma p2pReadVarint_progress:
  assumes "p2pReadVarint buf offset = Inr (Some (v, offset'))"
  shows "offset < offset' \<and> offset' \<le> length buf"
  using assms unfolding p2pReadVarint_def Let_def
  by (auto simp: bindE_eq_Inr_iff split: if_splits)

lemma unat_varint_tags: "unat (0xfd :: byte) = 0xfd" "unat (0xfe :: byte) = 0xfe" "unat (0xff :: byte) = 0xff"
  by simp_all

lemma p2pReadVarint_at:
  assumes n: "n < 2 ^ 64" and off: "length xs = off"
  shows "p2pReadVarint (xs @ p2pVarint n @ ys) off = Inr (Some (to_double n, off + length (p2pVarint n)))"
proof -
  have g: "getUint k (xs @ b # le_bytes k m @ ys) (off + 1) True = Inr (m mod 256 ^ k)" for k b m
    using getUint_le_at [of "xs @ [b]" "off + 1" k m ys] off by simp
  consider "n < 0xfd" | "0xfd \<le> n" "n \<le> 0xffff" | "0xffff < n" "n \<le> 0xffffffff" | "0xffffffff < n"
    by linarith
  then show ?thesis
  proof cases
    case 1
    then have "to_double n = n" by (intro to_double_exact) simp
    moreover have "(of_nat n :: byte) = word_of_nat n" by simp
    ultimately show ?thesis
      using 1 off by (simp add: p2pReadVarint_def p2pVarint_def nth_append)
  next
    case 2
    then have "to_double n = n" by (intro to_double_exact) simp
    then show ?thesis
      using 2 off g [of 2 "0xfd" n] by (simp add: p2pReadVarint_def p2pVarint_def nth_append)
  next
    case 3
    then have "to_double n = n" by (intro to_double_exact) simp
    then show ?thesis
      using 3 off g [of 4 "0xfe" n] by (simp add: p2pReadVarint_def p2pVarint_def nth_append)
  next
    case 4
    then show ?thesis
      using n off g [of 8 "0xff" n] by (simp add: p2pReadVarint_def p2pVarint_def nth_append)
  qed
qed

text \<open>Reading a CompactSize that was written returns the number and the offset just past
  it, wherever it stands in the buffer, for every 64-bit value; up to \<open>2\<^sup>5\<^sup>3\<close> the number
  is exact.
\<close>

lemma varint_roundtrip:
  assumes "n \<le> 2 ^ 53"
  shows "p2pReadVarint (xs @ p2pVarint n @ ys) (length xs) = Inr (Some (n, length xs + length (p2pVarint n)))"
proof -
  have "n < 2 ^ 64" using assms by (rule le_less_trans) simp
  then show ?thesis
    using p2pReadVarint_at [of n xs "length xs" ys] to_double_exact [OF assms] by simp
qed

end
