(* ===== verification/Js_String.thy ===== *)
theory Js_String
  imports Js_Number
begin

text \<open>
  The string operations of the language that the modelled code calls: searching, splitting
  and joining, trimming, printing numbers in a radix, and the three conversions from text
  to numbers (\<open>Number(s)\<close>, \<open>parseInt(s, radix)\<close>, \<open>parseFloat(s)\<close>). Strings are lists of
  code units. The laws are the round trips that the address formats rely on.
\<close>

section \<open>Searching, splitting, joining\<close>

fun js_includes :: "jsstr \<Rightarrow> jsstr \<Rightarrow> bool" where
  "js_includes [] p = (p = [])"
| "js_includes (c # s) p = (take (length p) (c # s) = p \<or> js_includes s p)"

lemma js_includes_single [simp]: "js_includes s [c] \<longleftrightarrow> c \<in> set s"
  by (induction s) auto

text \<open>\<open>s.split(sep)\<close> for a separator that is not empty.\<close>

fun split_go :: "jsstr \<Rightarrow> jsstr \<Rightarrow> nat \<Rightarrow> jsstr \<Rightarrow> jsstr list" where
  "split_go sep acc k [] = [acc]"
| "split_go sep acc (Suc k) (c # s) = split_go sep acc k s"
| "split_go sep acc 0 (c # s) =
     (if take (length sep) (c # s) = sep then acc # split_go sep [] (length sep - 1) s
      else split_go sep (acc @ [c]) 0 s)"

definition js_split :: "jsstr \<Rightarrow> jsstr \<Rightarrow> jsstr list" where
  "js_split sep s = split_go sep [] 0 s"

fun js_join :: "jsstr \<Rightarrow> jsstr list \<Rightarrow> jsstr" where
  "js_join sep [] = []"
| "js_join sep [x] = x"
| "js_join sep (x # y # ys) = x @ sep @ js_join sep (y # ys)"

lemma split_go_not_Nil [simp]: "split_go sep acc k s \<noteq> []"
  by (induction sep acc k s rule: split_go.induct) auto

lemma js_split_not_Nil [simp]: "js_split sep s \<noteq> []"
  by (simp add: js_split_def)

lemma split_go_free: "c \<notin> set s \<Longrightarrow> split_go [c] acc 0 s = [acc @ s]"
  by (induction s arbitrary: acc) auto

lemma split_go_sep: "c \<notin> set x \<Longrightarrow> split_go [c] acc 0 (x @ c # s) = (acc @ x) # split_go [c] [] 0 s"
  by (induction x arbitrary: acc) auto

lemma js_split_join:
  "xs \<noteq> [] \<Longrightarrow> \<forall>x \<in> set xs. c \<notin> set x \<Longrightarrow> js_split [c] (js_join [c] xs) = xs"
  unfolding js_split_def
  by (induction "[c]" xs rule: js_join.induct) (simp_all add: split_go_free split_go_sep)

lemma js_join_in: "c \<in> set (js_join sep xs) \<Longrightarrow> c \<in> set sep \<or> (\<exists>x \<in> set xs. c \<in> set x)"
  by (induction sep xs rule: js_join.induct) auto

lemma js_join_sep_in: "1 < length xs \<Longrightarrow> set sep \<subseteq> set (js_join sep xs)"
  by (induction sep xs rule: js_join.induct) auto

text \<open>A two-unit separator \<open>cc\<close> does not occur in a join with \<open>c\<close> of non-empty parts.\<close>

fun no_pair :: "nat \<Rightarrow> jsstr \<Rightarrow> bool" where
  "no_pair c (x # y # s) = (\<not> (x = c \<and> y = c) \<and> no_pair c (y # s))"
| "no_pair c _ = True"

lemma no_pair_ConsI: "x \<noteq> c \<Longrightarrow> no_pair c s \<Longrightarrow> no_pair c (x # s)"
  by (cases s) auto

lemma no_pair_free_append: "c \<notin> set x \<Longrightarrow> no_pair c s \<Longrightarrow> no_pair c (x @ s)"
  by (induction x) (auto intro: no_pair_ConsI)

lemma no_pair_free: "c \<notin> set x \<Longrightarrow> no_pair c x"
  using no_pair_free_append [of c x "[]"] by simp

lemma no_pair_join:
  "\<forall>x \<in> set xs. c \<notin> set x \<and> x \<noteq> [] \<Longrightarrow> no_pair c (js_join [c] xs)"
proof (induction "[c]" xs rule: js_join.induct)
  case (3 x y ys)
  then have IH: "no_pair c (js_join [c] (y # ys))" by simp
  obtain a as where y: "y = a # as" "a \<noteq> c" using 3 by (cases y) auto
  have h: "\<exists>t. js_join [c] (y # ys) = a # t" using y by (cases ys) auto
  then have "no_pair c (c # js_join [c] (y # ys))" using IH y by auto
  then have "no_pair c (x @ c # js_join [c] (y # ys))"
    using 3 by (intro no_pair_free_append) auto
  then show ?case by simp
qed (auto simp: no_pair_free)

lemma no_pair_split: "no_pair c s \<Longrightarrow> split_go [c, c] acc 0 s = [acc @ s]"
proof (induction c s arbitrary: acc rule: no_pair.induct)
  case (1 c x y s)
  then show ?case by auto
qed auto

lemma split_pair_append:
  "no_pair c x \<Longrightarrow> (x = [] \<or> last x \<noteq> c) \<Longrightarrow>
   split_go [c, c] acc 0 (x @ c # c # s) = (acc @ x) # split_go [c, c] [] 0 s"
proof (induction c x arbitrary: acc rule: no_pair.induct)
  case (1 c x y t)
  then show ?case by auto
qed auto

lemma no_pair_includes: "js_includes s [c, c] \<longleftrightarrow> \<not> no_pair c s"
proof (induction c s rule: no_pair.induct)
  case (1 c x y s)
  then show ?case by auto
qed auto

section \<open>White space\<close>

definition is_space :: "nat \<Rightarrow> bool" where
  "is_space c \<longleftrightarrow>
     c = 9 \<or> c = 10 \<or> c = 11 \<or> c = 12 \<or> c = 13 \<or> c = 32 \<or> c = 160 \<or> c = 5760
     \<or> (8192 \<le> c \<and> c \<le> 8202) \<or> c = 8232 \<or> c = 8233 \<or> c = 8239 \<or> c = 8287 \<or> c = 12288
     \<or> c = 65279"

definition trim_left :: "jsstr \<Rightarrow> jsstr" where
  "trim_left s = dropWhile is_space s"

definition js_trim :: "jsstr \<Rightarrow> jsstr" where
  "js_trim s = rev (dropWhile is_space (rev (dropWhile is_space s)))"

lemma js_trim_id: "s = [] \<or> \<not> is_space (hd s) \<and> \<not> is_space (last s) \<Longrightarrow> js_trim s = s"
proof -
  assume a: "s = [] \<or> \<not> is_space (hd s) \<and> \<not> is_space (last s)"
  have "dropWhile is_space s = s" using a by (cases s) auto
  moreover have "dropWhile is_space (rev s) = rev s"
    using a by (cases s rule: rev_cases) auto
  ultimately show ?thesis by (simp add: js_trim_def)
qed

section \<open>Digits\<close>

definition digit_char :: "nat \<Rightarrow> nat" where
  "digit_char d = (if d < 10 then 48 + d else 87 + d)"

definition digit_val :: "nat \<Rightarrow> nat option" where
  "digit_val c =
     (if 48 \<le> c \<and> c \<le> 57 then Some (c - 48)
      else if 97 \<le> c \<and> c \<le> 122 then Some (c - 87)
      else if 65 \<le> c \<and> c \<le> 90 then Some (c - 55)
      else None)"

definition is_digit :: "nat \<Rightarrow> nat \<Rightarrow> bool" where
  "is_digit r c = (case digit_val c of None \<Rightarrow> False | Some d \<Rightarrow> d < r)"

definition num_val :: "nat \<Rightarrow> jsstr \<Rightarrow> nat" where
  "num_val r ds = foldl (\<lambda>a c. a * r + the (digit_val c)) 0 ds"

text \<open>\<open>n.toString(r)\<close> for a non-negative integer.\<close>

fun radix_str :: "nat \<Rightarrow> nat \<Rightarrow> jsstr" where
  "radix_str r n =
     (if n < r \<or> r < 2 then [digit_char n]
      else radix_str r (n div r) @ [digit_char (n mod r)])"

declare radix_str.simps [simp del]

lemma digit_val_char: "d < 36 \<Longrightarrow> digit_val (digit_char d) = Some d"
  by (auto simp: digit_char_def digit_val_def)

lemma is_digit_char: "d < r \<Longrightarrow> r \<le> 36 \<Longrightarrow> is_digit r (digit_char d)"
  by (simp add: is_digit_def digit_val_char)

lemma radix_str_not_Nil [simp]: "radix_str r n \<noteq> []"
  by (subst radix_str.simps) simp

lemma radix_str_digits:
  assumes "2 \<le> r" "r \<le> 36" "c \<in> set (radix_str r n)"
  shows "is_digit r c"
  using assms
proof (induction r n rule: radix_str.induct)
  case (1 r n)
  show ?case
  proof (cases "n < r")
    case True
    with "1.prems" show ?thesis by (simp add: radix_str.simps [of r n] is_digit_char)
  next
    case False
    then have "c \<in> set (radix_str r (n div r)) \<or> c = digit_char (n mod r)"
      using "1.prems" by (auto simp: radix_str.simps [of r n])
    then show ?thesis
      using False "1.IH" "1.prems"(1,2) by (auto simp: is_digit_char)
  qed
qed

lemma num_val_append: "num_val r (xs @ [c]) = num_val r xs * r + the (digit_val c)"
  by (simp add: num_val_def)

lemma num_val_radix_str: "2 \<le> r \<Longrightarrow> r \<le> 36 \<Longrightarrow> num_val r (radix_str r n) = n"
proof (induction r n rule: radix_str.induct)
  case (1 r n)
  show ?case
  proof (cases "n < r")
    case True
    with "1.prems" show ?thesis
      by (simp add: radix_str.simps [of r n] num_val_def digit_val_char)
  next
    case False
    then have "num_val r (radix_str r (n div r)) = n div r" using 1 by simp
    moreover have "digit_val (digit_char (n mod r)) = Some (n mod r)"
      using "1.prems" by (intro digit_val_char) (meson less_le_trans mod_less_divisor zero_less_numeral)
    ultimately have "num_val r (radix_str r n) = n div r * r + n mod r"
      using False "1.prems" by (simp add: radix_str.simps [of r n] num_val_append)
    then show ?thesis by simp
  qed
qed

lemma is_digit_not_space: "is_digit r c \<Longrightarrow> \<not> is_space c"
  by (auto simp: is_digit_def digit_val_def is_space_def split: if_splits)

lemma is_digit_range:
  "is_digit r c \<Longrightarrow> (48 \<le> c \<and> c \<le> 57) \<or> (97 \<le> c \<and> c \<le> 122) \<or> (65 \<le> c \<and> c \<le> 90)"
  by (auto simp: is_digit_def digit_val_def split: if_splits)

lemma is_digit_10: "is_digit 10 c \<longleftrightarrow> 48 \<le> c \<and> c \<le> 57"
  by (auto simp: is_digit_def digit_val_def split: if_splits)

lemma radix_str_no: "2 \<le> r \<Longrightarrow> r \<le> 36 \<Longrightarrow> \<not> is_digit r c \<Longrightarrow> c \<notin> set (radix_str r n)"
  using radix_str_digits by blast

lemma radix_str_trim: "2 \<le> r \<Longrightarrow> r \<le> 36 \<Longrightarrow> js_trim (radix_str r n) = radix_str r n"
proof (rule js_trim_id)
  assume r: "2 \<le> r" "r \<le> 36"
  have "is_digit r (hd (radix_str r n))" and "is_digit r (last (radix_str r n))"
    using r radix_str_digits [OF r, of _ n] by simp_all
  then show "radix_str r n = [] \<or>
      \<not> is_space (hd (radix_str r n)) \<and> \<not> is_space (last (radix_str r n))"
    by (simp add: is_digit_not_space)
qed

lemma takeWhile_all: "(\<And>c. c \<in> set s \<Longrightarrow> P c) \<Longrightarrow> takeWhile P s = s \<and> dropWhile P s = []"
  by (auto simp: takeWhile_eq_all_conv dropWhile_eq_Nil_conv)

section \<open>Text to numbers\<close>

text \<open>The sign of a numeric literal, and what follows it.\<close>

definition read_sign :: "jsstr \<Rightarrow> bool \<times> jsstr" where
  "read_sign s =
     (case s of [] \<Rightarrow> (False, [])
      | c # t \<Rightarrow> if c = 45 then (True, t) else if c = 43 then (False, t) else (False, s))"

text \<open>\<open>parseInt(s, radix)\<close> for a radix between 2 and 36; \<open>None\<close> is NaN.\<close>

definition strip_0x :: "nat \<Rightarrow> jsstr \<Rightarrow> jsstr" where
  "strip_0x r s =
     (case s of z # x # t \<Rightarrow> if r = 16 \<and> z = 48 \<and> (x = 120 \<or> x = 88) then t else s | _ \<Rightarrow> s)"

definition parseInt :: "jsstr \<Rightarrow> nat \<Rightarrow> int option" where
  "parseInt s r =
     (let (neg, t) = read_sign (trim_left s);
          ds = takeWhile (is_digit r) (strip_0x r t)
      in if ds = [] then None
         else Some ((if neg then - 1 else 1) * int (to_double (num_val r ds))))"

text \<open>The longest decimal literal at the front of a string: its exact value and the rest.\<close>

definition read_exp :: "jsstr \<Rightarrow> int \<times> jsstr" where
  "read_exp s =
     (case s of [] \<Rightarrow> (0, s)
      | e # t \<Rightarrow>
          if e = 101 \<or> e = 69 then
            (let (neg, u) = read_sign t; ds = takeWhile (is_digit 10) u
             in if ds = [] then (0, s)
                else ((if neg then - 1 else 1) * int (num_val 10 ds), dropWhile (is_digit 10) u))
          else (0, s))"

definition pow10 :: "int \<Rightarrow> rat" where
  "pow10 e = (if 0 \<le> e then 10 ^ nat e else 1 / 10 ^ nat (- e))"

definition read_decimal :: "jsstr \<Rightarrow> (rat \<times> jsstr) option" where
  "read_decimal s =
     (let ip = takeWhile (is_digit 10) s; r1 = dropWhile (is_digit 10) s;
          dot = (case r1 of c # _ \<Rightarrow> c = 46 | [] \<Rightarrow> False);
          fp = (if dot then takeWhile (is_digit 10) (tl r1) else []);
          r2 = (if dot then dropWhile (is_digit 10) (tl r1) else r1)
      in if ip = [] \<and> fp = [] then None
         else (let (e, r3) = read_exp r2
               in Some (of_nat (num_val 10 (ip @ fp)) * pow10 (e - int (length fp)), r3)))"

definition infinity_str :: jsstr where
  "infinity_str = js ''Infinity''"

text \<open>\<open>parseFloat(s)\<close>.\<close>

definition parseFloat :: "jsstr \<Rightarrow> jsnum" where
  "parseFloat s =
     (let (neg, t) = read_sign (trim_left s)
      in if take 8 t = infinity_str then (if neg then NegInf else PosInf)
         else (case read_decimal t of None \<Rightarrow> NaN
               | Some (q, _) \<Rightarrow> rnd (if neg then - q else q)))"

text \<open>\<open>Number(s)\<close>.\<close>

definition radix_prefix :: "jsstr \<Rightarrow> nat option" where
  "radix_prefix s =
     (case s of z # x # t \<Rightarrow>
        if z = 48 \<and> (x = 120 \<or> x = 88) then Some 16
        else if z = 48 \<and> (x = 111 \<or> x = 79) then Some 8
        else if z = 48 \<and> (x = 98 \<or> x = 66) then Some 2 else None
      | _ \<Rightarrow> None)"

definition Number :: "jsstr \<Rightarrow> jsnum" where
  "Number str =
     (let s = js_trim str
      in if s = [] then Fin 0
         else case radix_prefix s of
           Some r \<Rightarrow> (let ds = drop 2 s
                      in if ds \<noteq> [] \<and> list_all (is_digit r) ds then rnd (of_nat (num_val r ds)) else NaN)
         | None \<Rightarrow>
             (let (neg, t) = read_sign s
              in if t = infinity_str then (if neg then NegInf else PosInf)
                 else (case read_decimal t of None \<Rightarrow> NaN
                       | Some (q, rest) \<Rightarrow> if rest = [] then rnd (if neg then - q else q) else NaN)))"

section \<open>Round trips between numbers and text\<close>

lemma digit_head: "is_digit r c \<Longrightarrow> c \<noteq> 43 \<and> c \<noteq> 45 \<and> c \<noteq> 46"
  by (auto dest: is_digit_range)

lemma read_sign_digit: "is_digit r (hd s) \<Longrightarrow> s \<noteq> [] \<Longrightarrow> read_sign s = (False, s)"
  by (cases s) (auto simp: read_sign_def dest: digit_head)

lemma trim_left_digit: "is_digit r (hd s) \<Longrightarrow> s \<noteq> [] \<Longrightarrow> trim_left s = s"
  by (cases s) (auto simp: trim_left_def dest: is_digit_not_space)

lemma parseInt_radix_str:
  assumes "2 \<le> r" "r \<le> 33" "n \<le> 2 ^ 53"
  shows "parseInt (radix_str r n) r = Some (int n)"
proof -
  let ?s = "radix_str r n"
  have d: "\<And>c. c \<in> set ?s \<Longrightarrow> is_digit r c" using assms radix_str_digits by auto
  then have h: "is_digit r (hd ?s)" by simp
  have "strip_0x r ?s = ?s"
  proof -
    have "\<not> is_digit r 120" "\<not> is_digit r 88"
      using assms(2) by (auto simp: is_digit_def digit_val_def)
    then have "120 \<notin> set ?s" "88 \<notin> set ?s" using d by auto
    then show ?thesis
      by (auto simp: strip_0x_def split: list.splits)
  qed
  moreover have tw: "takeWhile (is_digit r) ?s = ?s" using takeWhile_all [of ?s] d by blast
  moreover have "trim_left ?s = ?s" "read_sign ?s = (False, ?s)"
    using h by (simp_all add: trim_left_digit read_sign_digit)
  ultimately show ?thesis
    using assms by (simp add: tw parseInt_def num_val_radix_str to_double_exact)
qed

lemma infinity_no_digit: "is_digit 10 (hd t) \<Longrightarrow> t \<noteq> infinity_str"
  by (auto simp: infinity_str_def is_digit_10)

lemma read_decimal_digits:
  assumes "\<And>c. c \<in> set s \<Longrightarrow> is_digit 10 c" "s \<noteq> []"
  shows "read_decimal s = Some (of_nat (num_val 10 s), [])"
proof -
  have tw: "takeWhile (is_digit 10) s = s" "dropWhile (is_digit 10) s = []"
    using takeWhile_all [of s "is_digit 10"] assms(1) by blast+
  show ?thesis
    using assms(2) by (simp add: tw read_decimal_def read_exp_def pow10_def Let_def)
qed

lemma radix_prefix_digits: "\<forall>c \<in> set s. is_digit 10 c \<Longrightarrow> radix_prefix s = None"
  by (cases s; cases "tl s") (auto simp: radix_prefix_def is_digit_10)

lemma Number_dec:
  assumes "n \<le> 2 ^ 53"
  shows "Number (radix_str 10 n) = jint (int n)"
proof -
  let ?s = "radix_str 10 n"
  have d: "\<And>c. c \<in> set ?s \<Longrightarrow> is_digit 10 c" using radix_str_digits [of 10] by auto
  then have h: "is_digit 10 (hd ?s)" by simp
  have "radix_prefix ?s = None" using d by (intro radix_prefix_digits) blast
  moreover have "rnd (of_nat n) = jint (int n)"
    using rnd_of_int [of "int n"] assms by (simp add: safe_int_def)
  moreover have "read_sign ?s = (False, ?s)" using h by (simp add: read_sign_digit)
  moreover have "read_decimal ?s = Some (of_nat n, [])"
    using read_decimal_digits [of ?s] d by (simp add: num_val_radix_str)
  ultimately show ?thesis
    using infinity_no_digit [OF h] by (simp add: Number_def radix_str_trim)
qed

end
