(* ===== verification/P2p_Ip.thy ===== *)
theory P2p_Ip
  imports Byte_View Js_String
begin

text \<open>
  Text and wire forms of IP addresses (\<open>parseIPv4\<close>, \<open>formatIPv4\<close>, \<open>parseIPv6\<close>,
  \<open>formatIPv6\<close>, \<open>p2pEncodeIp\<close>, \<open>p2pDecodeIp\<close> of \<open>worker/src/protocol.js\<close>). The wire
  form is sixteen bytes, IPv4 mapped into \<open>::ffff:0:0/96\<close>. The main result is that the
  text printed for any sixteen bytes is parsed back to the same bytes, through the
  compression of the longest run of zero groups.
\<close>

section \<open>IPv4\<close>

definition byte_of_num :: "jsnum \<Rightarrow> byte" where
  "byte_of_num n = (case n of Fin q \<Rightarrow> word_of_int \<lfloor>q\<rfloor> | _ \<Rightarrow> 0)"

fun parse_octets :: "jsstr list \<Rightarrow> bytes option" where
  "parse_octets [] = Some []"
| "parse_octets (p # ps) =
     (let n = Number p
      in if \<not> is_integer n \<or> jlt n (jint 0) \<or> jlt (jint 255) n then None
         else map_option (\<lambda>out. byte_of_num n # out) (parse_octets ps))"

definition parseIPv4 :: "jsstr \<Rightarrow> bytes option" where
  "parseIPv4 ip =
     (let parts = js_split (js ''.'') ip
      in if length parts \<noteq> 4 then None else parse_octets parts)"

definition formatIPv4 :: "bytes \<Rightarrow> jsstr" where
  "formatIPv4 bs = js_join (js ''.'') (map (\<lambda>b. radix_str 10 (unat b)) bs)"

section \<open>IPv6\<close>

definition split_part :: "jsstr \<Rightarrow> jsstr list" where
  "split_part h = (if h \<noteq> [] then js_split (js '':'') h else [])"

text \<open>The eight groups of the text, with \<open>::\<close> filled up by zeros.\<close>

definition expand_groups :: "jsstr \<Rightarrow> jsstr list option" where
  "expand_groups ip =
     (let parts = js_split (js ''::'') ip;
          (head, tail) = (if js_includes ip (js ''::'')
                          then (split_part (parts ! 0), split_part (parts ! 1))
                          else (js_split (js '':'') ip, []));
          missing = (8 :: int) - (int (length head) + int (length tail));
          groups = head @ replicate (nat missing) (js ''0'') @ tail
      in if missing < 0 then None
         else if length groups \<noteq> 8 then None
         else Some groups)"

fun parse_groups :: "jsstr list \<Rightarrow> bytes option" where
  "parse_groups [] = Some []"
| "parse_groups (g # gs) =
     (case parseInt g 16 of
        None \<Rightarrow> None
      | Some v \<Rightarrow> if v < 0 \<or> 0xffff < v then None
                  else map_option (\<lambda>out. be_bytes 2 (nat v) @ out) (parse_groups gs))"

definition parseIPv6 :: "jsstr \<Rightarrow> bytes option" where
  "parseIPv6 ip = (case expand_groups ip of None \<Rightarrow> None | Some groups \<Rightarrow> parse_groups groups)"

text \<open>The loop over the groups that finds the first longest run of zeros.\<close>

record runs =
  bestStart :: int
  bestLen :: nat
  curStart :: int
  curLen :: nat

definition run_step :: "runs \<Rightarrow> nat \<times> nat \<Rightarrow> runs" where
  "run_step r ig =
     (let (i, g) = ig
      in if g = 0 then
           (let cs = (if curStart r = -1 then int i else curStart r);
                cl = curLen r + 1
            in if bestLen r < cl then \<lparr>bestStart = cs, bestLen = cl, curStart = cs, curLen = cl\<rparr>
               else r\<lparr>curStart := cs, curLen := cl\<rparr>)
         else r\<lparr>curStart := -1, curLen := 0\<rparr>)"

definition find_runs :: "nat list \<Rightarrow> runs" where
  "find_runs groups =
     foldl run_step \<lparr>bestStart = -1, bestLen = 0, curStart = -1, curLen = 0\<rparr> (enumerate 0 groups)"

definition format_groups :: "nat list \<Rightarrow> jsstr" where
  "format_groups groups =
     (let r = find_runs groups; hex = map (radix_str 16)
      in if 1 < bestLen r then
           js_join (js '':'') (hex (take (nat (bestStart r)) groups))
           @ js ''::''
           @ js_join (js '':'') (hex (drop (nat (bestStart r) + bestLen r) groups))
         else js_join (js '':'') (hex groups))"

definition formatIPv6 :: "bytes \<Rightarrow> jsstr res" where
  "formatIPv6 bs =
     bindE (mapE (\<lambda>i. getUint16 bs (i * 2) False) [0..<8]) (\<lambda>groups. Inr (format_groups groups))"

section \<open>The wire form\<close>

definition mapped_prefix :: bytes where
  "mapped_prefix = [0, 0, 0, 0, 0, 0, 0, 0, 0, 0, 0xff, 0xff]"

definition p2pEncodeIp :: "jsstr \<Rightarrow> bytes res" where
  "p2pEncodeIp ip =
     (if js_includes ip (js '':'') then
        (case parseIPv6 ip of
           None \<Rightarrow> Inl (Error (js ''invalid IPv6 address: '' @ ip))
         | Some v6 \<Rightarrow> Inr v6)
      else case parseIPv4 ip of
        None \<Rightarrow> Inl (Error (js ''invalid IPv4 address: '' @ ip))
      | Some v4 \<Rightarrow> Inr (mapped_prefix @ v4))"

definition p2pDecodeIp :: "bytes \<Rightarrow> jsstr res" where
  "p2pDecodeIp bytes16 =
     (if take 12 bytes16 = mapped_prefix then Inr (formatIPv4 (slice bytes16 12 16))
      else formatIPv6 bytes16)"

section \<open>IPv4 round trip\<close>

lemma parse_octets_dec: "parse_octets (map (\<lambda>b. radix_str 10 (unat b)) bs) = Some bs"
proof (induction bs)
  case (Cons b bs)
  have u: "unat b \<le> 255" using unat_byte_less [of b] by linarith
  then have "Number (radix_str 10 (unat b)) = jint (int (unat b))"
    by (intro Number_dec) simp
  moreover have "byte_of_num (jint (int (unat b))) = b"
    unfolding byte_of_num_def jint_def by (simp only: jsnum.case floor_of_int) simp
  moreover have "int (unat b) \<le> 255" using u by linarith
  ultimately show ?case using Cons by (simp add: Let_def)
qed simp

lemma dec_no_dot: "x \<in> set (map (\<lambda>b. radix_str 10 (unat b)) bs) \<Longrightarrow> 46 \<notin> set x \<and> 58 \<notin> set x"
  by (auto dest!: radix_str_digits [rotated 2] simp: is_digit_10)

lemma parseIPv4_formatIPv4:
  assumes "length bs = 4"
  shows "parseIPv4 (formatIPv4 bs) = Some bs"
proof -
  let ?xs = "map (\<lambda>b. radix_str 10 (unat b)) bs"
  have "js_split [46] (js_join [46] ?xs) = ?xs"
    using assms dec_no_dot [of _ bs] by (intro js_split_join) auto
  then show ?thesis
    using assms by (simp add: parseIPv4_def formatIPv4_def parse_octets_dec)
qed

lemma formatIPv4_no_colon: "\<not> js_includes (formatIPv4 bs) (js '':'')"
proof
  assume "js_includes (formatIPv4 bs) (js '':'')"
  then have "58 \<in> set (js_join [46] (map (\<lambda>b. radix_str 10 (unat b)) bs))"
    by (simp add: formatIPv4_def)
  then obtain x where "x \<in> set (map (\<lambda>b. radix_str 10 (unat b)) bs)" "58 \<in> set x"
    by (auto dest!: js_join_in)
  then show False using dec_no_dot by blast
qed

section \<open>IPv6 round trip\<close>

lemma hex_no_colon: "x \<in> set (map (radix_str 16) gs) \<Longrightarrow> 58 \<notin> set x \<and> x \<noteq> []"
  by (auto dest!: radix_str_digits [rotated 2] simp: is_digit_def digit_val_def)

lemma parse_groups_hex:
  "\<forall>g \<in> set gs. g < 65536 \<Longrightarrow> parse_groups (map (radix_str 16) gs) = Some (concat (map (be_bytes 2) gs))"
proof (induction gs)
  case (Cons g gs)
  then have "parseInt (radix_str 16 g) 16 = Some (int g)" by (intro parseInt_radix_str) auto
  with Cons show ?case by simp
qed simp

text \<open>
  The invariant of the loop over the groups: the current run is the run of zeros at the
  end, the best run is the first among the longest.
\<close>

definition zero_run :: "nat list \<Rightarrow> nat \<Rightarrow> nat \<Rightarrow> bool" where
  "zero_run gs s n \<longleftrightarrow> s + n \<le> length gs \<and> (\<forall>j. s \<le> j \<and> j < s + n \<longrightarrow> gs ! j = 0)"

fun trailing_zeros :: "nat list \<Rightarrow> nat" where
  "trailing_zeros gs = length (takeWhile (\<lambda>g. g = 0) (rev gs))"

definition best_run :: "nat list \<Rightarrow> int \<Rightarrow> nat \<Rightarrow> bool" where
  "best_run gs s n \<longleftrightarrow>
     (0 < n \<longrightarrow> (\<exists>k. s = int k \<and> zero_run gs k n))
     \<and> (\<forall>k m. zero_run gs k m \<longrightarrow> m \<le> n)
     \<and> (\<forall>k. 0 < n \<and> zero_run gs k n \<longrightarrow> s \<le> int k)"

definition runs_inv :: "nat list \<Rightarrow> runs \<Rightarrow> bool" where
  "runs_inv gs r \<longleftrightarrow>
     curLen r = trailing_zeros gs
     \<and> curStart r = (if trailing_zeros gs = 0 then -1 else int (length gs - trailing_zeros gs))
     \<and> best_run gs (bestStart r) (bestLen r)"

lemma trailing_zeros_le: "trailing_zeros gs \<le> length gs"
  using length_takeWhile_le [of _ "rev gs"] by simp

lemma trailing_zeros_snoc: "trailing_zeros (gs @ [g]) = (if g = 0 then Suc (trailing_zeros gs) else 0)"
  by simp

lemma zero_run_0: "zero_run gs s 0 \<longleftrightarrow> s \<le> length gs"
  by (simp add: zero_run_def)

lemma zero_run_inner: "s + n \<le> length gs \<Longrightarrow> zero_run (gs @ [g]) s n \<longleftrightarrow> zero_run gs s n"
  by (auto simp: zero_run_def nth_append)

lemma zero_run_snoc:
  "zero_run (gs @ [g]) s (Suc n) \<longleftrightarrow>
     zero_run gs s (Suc n) \<or> (s + n = length gs \<and> g = 0 \<and> zero_run gs s n)"
  by (auto simp: zero_run_def nth_append less_Suc_eq)

lemma zero_run_trailing: "zero_run gs (length gs - trailing_zeros gs) (trailing_zeros gs)"
proof (induction gs rule: rev_induct)
  case (snoc g gs)
  show ?case
  proof (cases "g = 0")
    case True
    then show ?thesis
      using snoc trailing_zeros_le [of gs] by (simp add: trailing_zeros_snoc zero_run_snoc del: trailing_zeros.simps)
  next
    case False
    then show ?thesis by (simp add: trailing_zeros_snoc zero_run_0 del: trailing_zeros.simps)
  qed
qed (simp add: zero_run_0)

lemma zero_run_end: "zero_run gs s n \<Longrightarrow> s + n = length gs \<Longrightarrow> n \<le> trailing_zeros gs"
proof (induction gs arbitrary: n rule: rev_induct)
  case (snoc g gs)
  show ?case
  proof (cases n)
    case (Suc m)
    then have "\<not> zero_run gs s (Suc m)" using snoc.prems(2) by (simp add: zero_run_def)
    then have "s + m = length gs" "g = 0" "zero_run gs s m"
      using snoc.prems(1) Suc zero_run_snoc [of gs g s m] by blast+
    then show ?thesis using snoc.IH Suc by (simp add: trailing_zeros_snoc del: trailing_zeros.simps)
  qed simp
qed simp

lemma best_run_keep:
  "best_run gs s n \<Longrightarrow> g \<noteq> 0 \<Longrightarrow> best_run (gs @ [g]) s n"
  unfolding best_run_def
proof (intro conjI impI allI)
  assume a: "(0 < n \<longrightarrow> (\<exists>k. s = int k \<and> zero_run gs k n)) \<and>
      (\<forall>k m. zero_run gs k m \<longrightarrow> m \<le> n) \<and> (\<forall>k. 0 < n \<and> zero_run gs k n \<longrightarrow> s \<le> int k)"
    and g: "g \<noteq> 0"
  have old: "zero_run gs k (Suc m)" if "zero_run (gs @ [g]) k (Suc m)" for k m
    using that g by (simp add: zero_run_snoc)
  show "\<exists>k. s = int k \<and> zero_run (gs @ [g]) k n" if "0 < n"
    using a that by (cases n) (auto simp: zero_run_snoc)
  show "m \<le> n" if "zero_run (gs @ [g]) k m" for k m
    using a that old by (cases m) auto
  show "s \<le> int k" if "0 < n \<and> zero_run (gs @ [g]) k n" for k
    using a that old by (cases n) auto
qed

lemma runs_inv_step:
  assumes "runs_inv gs r"
  shows "runs_inv (gs @ [g]) (run_step r (length gs, g))"
proof (cases "g = 0")
  case False
  then show ?thesis
    using assms best_run_keep by (simp add: runs_inv_def run_step_def trailing_zeros_snoc del: trailing_zeros.simps)
next
  case True
  let ?tz = "trailing_zeros gs" and ?gs = "gs @ [0]"
  let ?k = "length gs - ?tz"
  have tz: "?tz \<le> length gs" by (rule trailing_zeros_le)
  have cs: "(if curStart r = -1 then int (length gs) else curStart r) = int ?k"
    using assms tz by (auto simp: runs_inv_def)
  have cl: "curLen r = ?tz" using assms by (simp add: runs_inv_def)
  have b: "best_run gs (bestStart r) (bestLen r)" using assms by (simp add: runs_inv_def)
  have new: "zero_run ?gs ?k (Suc ?tz)"
    using zero_run_trailing [of gs] tz by (simp add: zero_run_snoc del: trailing_zeros.simps)
  have split: "zero_run gs k m \<or> (k + m = Suc (length gs) \<and> m \<le> Suc ?tz)"
    if z: "zero_run ?gs k m" "0 < m" for k m
  proof -
    obtain m' where m: "m = Suc m'" using z(2) by (cases m) auto
    show ?thesis
      using z(1) zero_run_end [of gs k m'] unfolding m zero_run_snoc by auto
  qed
  have bb: "m \<le> bestLen r" if "zero_run gs k m" for k m
    using b that by (auto simp: best_run_def)
  have best: "best_run ?gs (bestStart r') (bestLen r')"
    if r': "r' = (if bestLen r < Suc ?tz
        then \<lparr>bestStart = int ?k, bestLen = Suc ?tz, curStart = int ?k, curLen = Suc ?tz\<rparr>
        else r\<lparr>curStart := int ?k, curLen := Suc ?tz\<rparr>)" for r'
  proof (cases "bestLen r < Suc ?tz")
    case True
    have "m \<le> Suc ?tz" if "zero_run ?gs k m" for k m
      using split [OF that] bb [of k m] True by (cases "m = 0") fastforce+
    moreover have "int ?k \<le> int k" if "zero_run ?gs k (Suc ?tz)" for k
      using split [OF that] bb [of k "Suc ?tz"] True by linarith
    ultimately show ?thesis
      using True new r' by (simp add: best_run_def del: trailing_zeros.simps)
  next
    case False
    then have pos: "0 < bestLen r" by simp
    then obtain k0 where k0: "bestStart r = int k0" "zero_run gs k0 (bestLen r)"
      using b by (auto simp: best_run_def)
    then have "zero_run ?gs k0 (bestLen r)" by (cases "bestLen r") (simp_all add: zero_run_snoc zero_run_0)
    moreover have "m \<le> bestLen r" if "zero_run ?gs k m" for k m
      using split [OF that] bb [of k m] False by (cases "m = 0") fastforce+
    moreover have "int k0 \<le> int k" if "zero_run ?gs k (bestLen r)" for k
      using split [OF that pos] b k0 pos by (auto simp: best_run_def zero_run_def)
    ultimately show ?thesis
      using False k0 r' by (simp add: best_run_def del: trailing_zeros.simps)
  qed
  show ?thesis
    using True best [OF refl] tz
    by (cases "bestLen r < Suc ?tz")
      (simp_all add: runs_inv_def run_step_def Let_def cs cl trailing_zeros_snoc of_nat_diff
        del: trailing_zeros.simps)
qed

lemma runs_inv_find_runs: "runs_inv gs (find_runs gs)"
proof (induction gs rule: rev_induct)
  case Nil
  show ?case by (auto simp: runs_inv_def find_runs_def best_run_def zero_run_def)
next
  case (snoc g gs)
  have "find_runs (gs @ [g]) = run_step (find_runs gs) (length gs, g)"
    by (simp add: find_runs_def enumerate_append_eq)
  then show ?case using runs_inv_step [OF snoc] by simp
qed

lemma find_runs_best: "best_run gs (bestStart (find_runs gs)) (bestLen (find_runs gs))"
  using runs_inv_find_runs [of gs] by (simp add: runs_inv_def)

lemma find_runs_split:
  assumes "0 < bestLen (find_runs gs)"
  shows "gs = take (nat (bestStart (find_runs gs))) gs @ replicate (bestLen (find_runs gs)) 0
            @ drop (nat (bestStart (find_runs gs)) + bestLen (find_runs gs)) gs"
proof -
  let ?n = "bestLen (find_runs gs)"
  obtain k where k: "bestStart (find_runs gs) = int k" "zero_run gs k ?n"
    using find_runs_best [of gs] assms by (auto simp: best_run_def)
  have "take ?n (drop k gs) = replicate ?n 0"
    using k(2) by (intro nth_equalityI) (auto simp: zero_run_def)
  moreover have "gs = take k gs @ take ?n (drop k gs) @ drop (k + ?n) gs"
    by (metis add.commute append_take_drop_id drop_drop)
  ultimately show ?thesis using k(1) by simp
qed

abbreviation hex_groups :: "nat list \<Rightarrow> jsstr list" where
  "hex_groups gs \<equiv> map (radix_str 16) gs"

lemma join_hex_last: "gs \<noteq> [] \<Longrightarrow> js_join [58] (hex_groups gs) \<noteq> [] \<and> last (js_join [58] (hex_groups gs)) \<noteq> 58"
proof (induction gs rule: induct_list012)
  case (2 g)
  have "last (radix_str 16 g) \<in> set (radix_str 16 g)" by simp
  moreover have "58 \<notin> set (radix_str 16 g)" using hex_no_colon [of "radix_str 16 g" "[g]"] by simp
  ultimately have "last (radix_str 16 g) \<noteq> 58" by metis
  then show ?case by simp
next
  case (3 g h gs)
  then show ?case by simp
qed simp

lemma join_hex_split: "gs \<noteq> [] \<Longrightarrow> js_split [58] (js_join [58] (hex_groups gs)) = hex_groups gs"
  using hex_no_colon [of _ gs] by (intro js_split_join) auto

lemma join_hex_no_pair: "no_pair 58 (js_join [58] (hex_groups gs))"
  using hex_no_colon [of _ gs] by (intro no_pair_join) auto

lemma has_pair: "\<not> no_pair c (x @ c # c # y)"
proof (induction x)
  case (Cons a x)
  then show ?case by (cases x) auto
qed simp

lemma radix_str_0: "radix_str 16 0 = js ''0''"
  by (simp add: radix_str.simps digit_char_def)

lemma expand_compressed:
  assumes "length A + length B \<le> 8"
  shows "expand_groups (js_join [58] (hex_groups A) @ js ''::'' @ js_join [58] (hex_groups B))
     = Some (hex_groups (A @ replicate (8 - (length A + length B)) 0 @ B))"
proof -
  let ?a = "js_join [58] (hex_groups A)" and ?b = "js_join [58] (hex_groups B)"
  let ?t = "?a @ [58, 58] @ ?b"
  have "?a = [] \<or> last ?a \<noteq> 58" using join_hex_last [of A] by (cases "A = []") auto
  then have sp: "js_split [58, 58] ?t = [?a, ?b]"
    unfolding js_split_def
    using split_pair_append [OF join_hex_no_pair [of A], of "[]" ?b] no_pair_split [OF join_hex_no_pair [of B], of "[]"]
    by simp
  have inc: "js_includes ?t [58, 58]" using has_pair [of 58 ?a ?b] by (simp add: no_pair_includes)
  have part: "split_part (js_join [58] (hex_groups G)) = hex_groups G" for G
    using join_hex_split [of G] join_hex_last [of G] by (cases "G = []") (auto simp: split_part_def)
  have "nat (8 - (int (length A) + int (length B))) = 8 - (length A + length B)" using assms by simp
  then show ?thesis
    using assms inc sp by (simp add: expand_groups_def Let_def part radix_str_0)
qed

lemma expand_plain:
  assumes "length gs = 8"
  shows "expand_groups (js_join [58] (hex_groups gs)) = Some (hex_groups gs)"
proof -
  have "\<not> js_includes (js_join [58] (hex_groups gs)) [58, 58]"
    using join_hex_no_pair [of gs] by (simp add: no_pair_includes)
  moreover have "js_split [58] (js_join [58] (hex_groups gs)) = hex_groups gs"
    using assms by (intro join_hex_split) auto
  ultimately show ?thesis using assms by (simp add: expand_groups_def Let_def)
qed

lemma expand_format_groups:
  assumes "length gs = 8"
  shows "expand_groups (format_groups gs) = Some (hex_groups gs)"
proof (cases "1 < bestLen (find_runs gs)")
  case True
  let ?s = "nat (bestStart (find_runs gs))" and ?n = "bestLen (find_runs gs)"
  let ?A = "take ?s gs" and ?B = "drop (?s + ?n) gs"
  have dec: "gs = ?A @ replicate ?n 0 @ ?B" using True by (intro find_runs_split) simp
  then have len: "length ?A + ?n + length ?B = 8" using assms
    by (metis add.assoc length_append length_replicate)
  have "format_groups gs = js_join [58] (hex_groups ?A) @ js ''::'' @ js_join [58] (hex_groups ?B)"
    using True by (simp add: format_groups_def Let_def)
  then have "expand_groups (format_groups gs) = Some (hex_groups (?A @ replicate (8 - (length ?A + length ?B)) 0 @ ?B))"
    using expand_compressed [of ?A ?B] len by simp
  moreover have "8 - (length ?A + length ?B) = ?n" using len by linarith
  ultimately show ?thesis using dec by metis
next
  case False
  then show ?thesis using expand_plain [OF assms] by (simp add: format_groups_def Let_def)
qed

definition groups_of :: "bytes \<Rightarrow> nat list" where
  "groups_of bs = map (\<lambda>i. be_val (slice bs (i * 2) (i * 2 + 2))) [0..<8]"

lemma concat_slices: "n * 2 \<le> length bs \<Longrightarrow> concat (map (\<lambda>i. slice bs (i * 2) (i * 2 + 2)) [0..<n]) = take (n * 2) bs"
proof (induction n)
  case (Suc n)
  then have "concat (map (\<lambda>i. slice bs (i * 2) (i * 2 + 2)) [0..<Suc n]) = take (n * 2) bs @ take 2 (drop (n * 2) bs)"
    by (simp add: slice_def)
  also have "\<dots> = take (n * 2 + 2) bs" by (rule take_add [symmetric])
  finally show ?case by (simp add: add.commute)
qed simp

lemma groups_of_bytes: "length bs = 16 \<Longrightarrow> concat (map (be_bytes 2) (groups_of bs)) = bs"
proof -
  assume l: "length bs = 16"
  have "map (be_bytes 2) (groups_of bs) = map (\<lambda>i. slice bs (i * 2) (i * 2 + 2)) [0..<8]"
    using l by (simp add: groups_of_def be_bytes_be_val)
  then show ?thesis using concat_slices [of 8 bs] l by simp
qed

lemma groups_of_bound: "\<forall>g \<in> set (groups_of bs). g < 65536"
proof
  fix g assume "g \<in> set (groups_of bs)"
  then obtain i where g: "g = be_val (slice bs (i * 2) (i * 2 + 2))" by (auto simp: groups_of_def)
  let ?s = "slice bs (i * 2) (i * 2 + 2)"
  have "be_val ?s < 256 ^ length ?s" by (rule be_val_bound)
  also have "\<dots> \<le> 256 ^ 2" by (rule power_increasing) simp_all
  finally show "g < 65536" using g by simp
qed

lemma formatIPv6_16: "length bs = 16 \<Longrightarrow> formatIPv6 bs = Inr (format_groups (groups_of bs))"
proof -
  assume l: "length bs = 16"
  have "mapE (\<lambda>i. getUint16 bs (i * 2) False) [0..<8] = Inr (groups_of bs)"
    unfolding groups_of_def using l by (intro mapE_Inr) (auto simp: getUint_def)
  then show ?thesis by (simp add: formatIPv6_def)
qed

lemma formatIPv6_returns [parse_safe]: "length bs = 16 \<Longrightarrow> returns (formatIPv6 bs)"
  by (simp add: formatIPv6_16)

lemma p2pDecodeIp_returns [parse_safe]: "length bs = 16 \<Longrightarrow> returns (p2pDecodeIp bs)"
  by (simp add: p2pDecodeIp_def formatIPv6_16)

lemma parse_octets_length: "parse_octets ps = Some out \<Longrightarrow> length out = length ps"
  by (induction ps arbitrary: out) (auto simp: Let_def split: if_splits)

lemma parse_groups_length: "parse_groups gs = Some out \<Longrightarrow> length out = 2 * length gs"
  by (induction gs arbitrary: out) (auto split: if_splits option.splits)

lemma p2pEncodeIp_length: "p2pEncodeIp ip = Inr bs \<Longrightarrow> length bs = 16"
  by (auto simp: p2pEncodeIp_def parseIPv6_def parseIPv4_def expand_groups_def mapped_prefix_def Let_def
      dest!: parse_groups_length parse_octets_length split: if_splits option.splits prod.splits)

lemma parseIPv6_format: "length bs = 16 \<Longrightarrow> parseIPv6 (format_groups (groups_of bs)) = Some bs"
  using expand_format_groups [of "groups_of bs"] parse_groups_hex [OF groups_of_bound [of bs]]
    groups_of_bytes [of bs]
  by (simp add: parseIPv6_def groups_of_def)

lemma format_groups_colon: "length gs = 8 \<Longrightarrow> js_includes (format_groups gs) (js '':'')"
  using js_join_sep_in [of "hex_groups gs" "[58]"] by (simp add: format_groups_def Let_def)

lemma p2pEncodeIp_decode:
  assumes "length bs = 16"
  shows "bindE (p2pDecodeIp bs) p2pEncodeIp = Inr bs"
proof (cases "take 12 bs = mapped_prefix")
  case True
  then have "mapped_prefix @ slice bs 12 16 = bs"
    using assms by (metis append_take_drop_id slice_all)
  moreover have "length (slice bs 12 16) = 4" using assms by simp
  ultimately show ?thesis
    using True formatIPv4_no_colon
    by (simp add: p2pDecodeIp_def p2pEncodeIp_def parseIPv4_formatIPv4)
next
  case False
  have "js_includes (format_groups (groups_of bs)) (js '':'')"
    by (rule format_groups_colon) (simp add: groups_of_def)
  then show ?thesis
    using False assms
    by (simp add: p2pDecodeIp_def p2pEncodeIp_def formatIPv6_16 parseIPv6_format)
qed

lemma p2pEncodeIp_text: "length bs = 16 \<Longrightarrow> p2pDecodeIp bs = Inr ip \<Longrightarrow> p2pEncodeIp ip = Inr bs"
  using p2pEncodeIp_decode [of bs] by simp

lemma p2pEncodeIp_any: "p2pEncodeIp (js ''0.0.0.0'') = Inr (mapped_prefix @ [0, 0, 0, 0])"
  by (rule p2pEncodeIp_text) (simp add: mapped_prefix_def, code_simp)

text \<open>C25. The text of an address is lossless: for every sixteen bytes of the wire,
  \<open>p2pDecodeIp\<close> prints a text that \<open>p2pEncodeIp\<close> parses back to the same sixteen bytes
  (mapped IPv4 addresses through the dotted form, the others through the compressed
  hexadecimal form).
\<close>

theorem ip_text_roundtrip:
  assumes "length bs = 16"
  shows "bindE (p2pDecodeIp bs) p2pEncodeIp = Inr bs"
  using assms by (rule p2pEncodeIp_decode)

definition loopback6 :: bytes where
  "loopback6 = replicate 15 0 @ [1]"

theorem ip_text_roundtrip_witness:
  "length loopback6 = 16 \<and> bindE (p2pDecodeIp loopback6) p2pEncodeIp = Inr loopback6"
proof -
  have h: "length loopback6 = 16" by (simp add: loopback6_def)
  show ?thesis using h ip_text_roundtrip [OF h] by simp
qed

text \<open>C26. The compressed form is the one the text conventions ask for: \<open>formatIPv6\<close> replaces
  the first of the longest runs of zero groups, and only a run of at least two groups.
\<close>

theorem formatIPv6_compresses_longest:
  assumes "length bs = 16"
  shows "\<exists>s n. best_run (groups_of bs) s n \<and>
     formatIPv6 bs =
       Inr (if 1 < n
            then js_join (js '':'') (hex_groups (take (nat s) (groups_of bs))) @ js ''::''
                 @ js_join (js '':'') (hex_groups (drop (nat s + n) (groups_of bs)))
            else js_join (js '':'') (hex_groups (groups_of bs)))"
proof (intro exI conjI)
  show "best_run (groups_of bs) (bestStart (find_runs (groups_of bs))) (bestLen (find_runs (groups_of bs)))"
    by (rule find_runs_best)
  show "formatIPv6 bs =
       Inr (if 1 < bestLen (find_runs (groups_of bs))
            then js_join (js '':'') (hex_groups (take (nat (bestStart (find_runs (groups_of bs)))) (groups_of bs)))
                 @ js ''::''
                 @ js_join (js '':'') (hex_groups (drop (nat (bestStart (find_runs (groups_of bs)))
                     + bestLen (find_runs (groups_of bs))) (groups_of bs)))
            else js_join (js '':'') (hex_groups (groups_of bs)))"
    by (simp add: formatIPv6_16 [OF assms] format_groups_def Let_def)
qed

theorem formatIPv6_compresses_longest_witness:
  "length loopback6 = 16 \<and> (\<exists>s n. best_run (groups_of loopback6) s n \<and>
     formatIPv6 loopback6 =
       Inr (if 1 < n
            then js_join (js '':'') (hex_groups (take (nat s) (groups_of loopback6))) @ js ''::''
                 @ js_join (js '':'') (hex_groups (drop (nat s + n) (groups_of loopback6)))
            else js_join (js '':'') (hex_groups (groups_of loopback6))))"
proof -
  have h: "length loopback6 = 16" by (simp add: loopback6_def)
  show ?thesis using h formatIPv6_compresses_longest [OF h] by simp
qed

lemma expand_groups_length_check_dead:
  "expand_groups ip =
     (let parts = js_split (js ''::'') ip;
          (head, tail) = (if js_includes ip (js ''::'')
                          then (split_part (parts ! 0), split_part (parts ! 1))
                          else (js_split (js '':'') ip, []))
      in if 8 < length head + length tail then None
         else Some (head @ replicate (8 - (length head + length tail)) (js ''0'') @ tail))"
  by (auto simp: expand_groups_def Let_def nat_diff_distrib' split: prod.splits)


end
