(* ===== verification/P2p_Base32.thy ===== *)
theory P2p_Base32
  imports Byte_View Js_String
begin

text \<open>
  The textual keys of peers that have no IP address (\<open>base32Encode\<close>, \<open>bytesToHex\<close> of
  \<open>worker/src/protocol.js\<close>). The base32 loop keeps its pending bits in a 32-bit
  accumulator whose upper bits are never cleared; the result is that its output is the
  radix-32 numeral of the bytes all the same, and that distinct keys stay distinct.
\<close>

unbundle bit_operations_syntax

section \<open>Keys of addresses that are not IP addresses\<close>

definition BASE32_ALPHABET :: jsstr where
  "BASE32_ALPHABET = js ''abcdefghijklmnopqrstuvwxyz234567''"

text \<open>The bit operators of the source work on 32-bit integers.\<close>

fun base32_drain :: "nat \<Rightarrow> 32 word \<Rightarrow> jsstr \<Rightarrow> nat \<times> jsstr" where
  "base32_drain bits val out =
     (if 5 \<le> bits
      then base32_drain (bits - 5) val
             (out @ [BASE32_ALPHABET ! unat (drop_bit (bits - 5) val AND 31)])
      else (bits, out))"

declare base32_drain.simps [simp del]

fun base32_loop :: "bytes \<Rightarrow> nat \<Rightarrow> 32 word \<Rightarrow> jsstr \<Rightarrow> jsstr" where
  "base32_loop [] bits val out =
     (if 0 < bits then out @ [BASE32_ALPHABET ! unat (push_bit (5 - bits) val AND 31)] else out)"
| "base32_loop (b # bs) bits val out =
     (let val' = push_bit 8 val OR ucast b;
          (bits', out') = base32_drain (bits + 8) val' out
      in base32_loop bs bits' val' out')"

definition base32Encode :: "bytes \<Rightarrow> jsstr" where
  "base32Encode bs = base32_loop bs 0 0 []"

definition padStart2 :: "jsstr \<Rightarrow> jsstr" where
  "padStart2 s = replicate (2 - length s) 48 @ s"

definition bytesToHex :: "bytes \<Rightarrow> jsstr" where
  "bytesToHex bs = concat (map (\<lambda>b. padStart2 (radix_str 16 (unat b))) bs)"

section \<open>The reference: a fixed-width numeral in radix 32\<close>

primrec radix32 :: "nat \<Rightarrow> nat \<Rightarrow> jsstr" where
  "radix32 0 n = []"
| "radix32 (Suc c) n = radix32 c (n div 32) @ [BASE32_ALPHABET ! (n mod 32)]"

lemma length_radix32 [simp]: "length (radix32 c n) = c"
  by (induction c arbitrary: n) auto

lemma be_val_snoc: "be_val (bs @ [b]) = 256 * be_val bs + unat b"
  by (simp add: be_val_def)

lemma shift_in_byte:
  "push_bit 8 (of_nat p :: 32 word) OR ucast (b :: byte) = of_nat (256 * p + unat b)"
proof -
  have "push_bit 8 (of_nat p :: 32 word) AND ucast b = 0"
    by (rule bit_word_eqI) (auto simp: bit_simps dest: bit_imp_le_length)
  then have "push_bit 8 (of_nat p :: 32 word) OR ucast b = push_bit 8 (of_nat p) + ucast b"
    by (simp add: disjunctive_add_eq_or)
  also have "\<dots> = of_nat (256 * p + unat b)"
    by (simp add: push_bit_eq_mult)
  finally show ?thesis .
qed

lemma extract_5:
  assumes "k \<le> 27"
  shows "unat (drop_bit k (of_nat p :: 32 word) AND 31) = p div 2 ^ k mod 32"
proof -
  have "drop_bit k (of_nat p :: 32 word) AND 31 = take_bit 5 (drop_bit k (of_nat p))"
    by (simp add: take_bit_eq_mask mask_eq_exp_minus_1)
  then have "unat (drop_bit k (of_nat p :: 32 word) AND 31) = take_bit 5 (drop_bit k (take_bit 32 p))"
    by (simp add: unsigned_take_bit_eq unsigned_drop_bit_eq unsigned_of_nat)
  also have "\<dots> = take_bit 5 (drop_bit k p)"
    using assms by (intro bit_eqI) (auto simp: bit_simps)
  finally show ?thesis by (simp add: take_bit_eq_mod drop_bit_eq_div)
qed

lemma extract_last:
  assumes "k \<le> 5"
  shows "unat (push_bit k (of_nat p :: 32 word) AND 31) = p * 2 ^ k mod 32"
proof -
  have "push_bit k (of_nat p :: 32 word) = of_nat (p * 2 ^ k)" by (simp add: push_bit_eq_mult)
  then show ?thesis using extract_5 [of 0 "p * 2 ^ k"] by simp
qed

lemma base32_drain_radix:
  assumes "bits < 13" "val = of_nat p" "out = radix32 c (p div 2 ^ bits)" "5 * c + bits = n"
  shows "\<exists>c' bits'. base32_drain bits val out = (bits', radix32 c' (p div 2 ^ bits'))
           \<and> bits' < 5 \<and> 5 * c' + bits' = n"
  using assms
proof (induction bits val out arbitrary: c rule: base32_drain.induct)
  case (1 bits val out)
  show ?case
  proof (cases "5 \<le> bits")
    case False
    then show ?thesis
      using "1.prems" base32_drain.simps [of bits val out] by auto
  next
    case True
    let ?out1 = "out @ [BASE32_ALPHABET ! unat (drop_bit (bits - 5) val AND 31)]"
    have "p div 2 ^ bits = p div 2 ^ (bits - 5) div 32"
    proof -
      have "(2 :: nat) ^ bits = 2 ^ (bits - 5) * 32"
        using True power_add [of "2 :: nat" "bits - 5" 5] by simp
      then show ?thesis by (simp add: div_mult2_eq)
    qed
    moreover have "unat (drop_bit (bits - 5) val AND 31) = p div 2 ^ (bits - 5) mod 32"
      using "1.prems" True by (simp add: extract_5)
    ultimately have out: "?out1 = radix32 (Suc c) (p div 2 ^ (bits - 5))"
      using "1.prems" by simp
    have "base32_drain bits val out = base32_drain (bits - 5) val ?out1"
      using True by (simp add: base32_drain.simps [of bits val out])
    moreover have "bits - 5 < 13" "5 * Suc c + (bits - 5) = n"
      using "1.prems"(1,4) True by simp_all
    ultimately show ?thesis
      using "1.IH" [OF True _ _ out] "1.prems"(2) by simp
  qed
qed

lemma base32_loop_radix:
  assumes "bits < 5" "5 * c + bits = 8 * length ps"
    "val = of_nat (be_val ps)" "out = radix32 c (be_val ps div 2 ^ bits)"
    "m = (8 * length (ps @ bs) + 4) div 5"
  shows "base32_loop bs bits val out
           = radix32 m (be_val (ps @ bs) * 2 ^ (5 * m - 8 * length (ps @ bs)))"
  using assms
proof (induction bs bits val out arbitrary: ps c rule: base32_loop.induct)
  case (1 bits val out)
  show ?case
  proof (cases "bits = 0")
    case True
    then have "m = c" using "1.prems" by auto
    with True "1.prems" show ?thesis by simp
  next
    case False
    have m: "m = Suc c" using "1.prems" False by auto
    then have d: "5 * m - 8 * length ps = 5 - bits" using "1.prems"(1,2) by linarith
    let ?p = "be_val ps"
    have "?p * 2 ^ (5 - bits) div 32 = ?p div 2 ^ bits"
    proof -
      have "(32 :: nat) = 2 ^ bits * 2 ^ (5 - bits)"
        using "1.prems"(1) by (simp add: power_add [symmetric])
      then show ?thesis by (simp only: div_mult_mult2 [OF power_not_zero])
    qed
    moreover have "unat (push_bit (5 - bits) val AND 31) = ?p * 2 ^ (5 - bits) mod 32"
      using "1.prems"(3) by (simp add: extract_last)
    ultimately show ?thesis
      using False "1.prems"(4) m d by simp
  qed
next
  case (2 b bs bits val out)
  let ?val = "push_bit 8 val OR ucast b" and ?ps = "ps @ [b]"
  have v: "?val = of_nat (be_val ?ps)"
    by (simp only: "2.prems"(3) shift_in_byte be_val_snoc)
  have "be_val ?ps div 2 ^ (bits + 8) = be_val ps div 2 ^ bits"
  proof -
    have "be_val ?ps div 2 ^ (bits + 8) = (be_val ?ps div 256) div 2 ^ bits"
      by (simp add: power_add div_mult2_eq [symmetric] mult.commute)
    also have "be_val ?ps div 256 = be_val ps" by (simp add: be_val_snoc)
    finally show ?thesis .
  qed
  then have o: "out = radix32 c (be_val ?ps div 2 ^ (bits + 8))" using "2.prems"(4) by simp
  obtain c' bits' where dr: "base32_drain (bits + 8) ?val out = (bits', radix32 c' (be_val ?ps div 2 ^ bits'))"
    and b': "bits' < 5" "5 * c' + bits' = 8 * length ?ps"
    using base32_drain_radix [OF _ v o, of "8 * length ?ps"] "2.prems"(1,2) by auto
  have "base32_loop (b # bs) bits val out = base32_loop bs bits' ?val (radix32 c' (be_val ?ps div 2 ^ bits'))"
    using dr by (simp add: Let_def)
  also have "\<dots> = radix32 m (be_val (?ps @ bs) * 2 ^ (5 * m - 8 * length (?ps @ bs)))"
    using "2.IH" [OF refl dr [symmetric] _ b' v refl] "2.prems"(5) by simp
  finally show ?case by simp
qed

lemma radix32_inj:
  "radix32 c n = radix32 c n' \<Longrightarrow> n < 32 ^ c \<Longrightarrow> n' < 32 ^ c \<Longrightarrow> n = n'"
proof (induction c arbitrary: n n')
  case (Suc c)
  have "distinct BASE32_ALPHABET" "length BASE32_ALPHABET = 32"
    by (code_simp, code_simp)
  then have "n mod 32 = n' mod 32"
    using Suc.prems(1) by (simp add: nth_eq_iff_index_eq)
  moreover have "n div 32 = n' div 32"
    using Suc by (simp add: less_mult_imp_div_less mult.commute)
  ultimately show ?case by (metis div_mult_mod_eq)
qed simp

lemma base32Encode_radix:
  "m = (8 * length bs + 4) div 5 \<Longrightarrow>
   base32Encode bs = radix32 m (be_val bs * 2 ^ (5 * m - 8 * length bs))"
  unfolding base32Encode_def
  using base32_loop_radix [of 0 0 "[]" 0 "[]" m bs] by (simp add: be_val_def)

text \<open>C28. The base32 text of a key is the radix-32 numeral of its bytes: for \<open>n\<close> bytes it
  has \<open>\<lceil>8n/5\<rceil>\<close> digits and denotes the big-endian value of the bytes padded with zero
  bits on the right; the stale upper bits of the 32-bit accumulator never reach it.\<close>

theorem base32Encode_numeral:
  "length (base32Encode bs) = (8 * length bs + 4) div 5
   \<and> base32Encode bs
       = radix32 ((8 * length bs + 4) div 5)
           (be_val bs * 2 ^ (5 * ((8 * length bs + 4) div 5) - 8 * length bs))"
  using base32Encode_radix [OF refl, of bs] by simp

lemma base32Encode_eqD:
  assumes "base32Encode bs = base32Encode cs" "length bs = length cs"
  shows "bs = cs"
proof -
  define m where "m = (8 * length bs + 4) div 5"
  define k where "k = 5 * m - 8 * length bs"
  have k: "8 * length bs + k = 5 * m" unfolding k_def m_def by linarith
  have bound: "be_val xs * 2 ^ k < 32 ^ m" if "length xs = length bs" for xs
  proof -
    have "be_val xs < 2 ^ (8 * length bs)"
      using be_val_bound [of xs] that by (simp add: power_mult)
    then have "be_val xs * 2 ^ k < 2 ^ (8 * length bs) * 2 ^ k" by simp
    also have "\<dots> = (32 :: nat) ^ m"
      using k power_mult [of "2 :: nat" 5 m] by (simp only: power_add [symmetric]) simp
    finally show ?thesis .
  qed
  have "radix32 m (be_val bs * 2 ^ k) = radix32 m (be_val cs * 2 ^ k)"
    using assms base32Encode_radix [OF refl, of bs] base32Encode_radix [OF refl, of cs]
    by (simp add: m_def k_def)
  then have "be_val bs * 2 ^ k = be_val cs * 2 ^ k"
    using bound assms(2) by (intro radix32_inj) auto
  then show ?thesis using assms(2) be_bytes_be_val by (metis mult_right_cancel power_not_zero zero_neq_numeral)
qed

text \<open>Two peers of the same network never share a key: on distinct keys of one length
  \<open>base32Encode\<close> has distinct results.\<close>

lemma base32Encode_inj:
  assumes "bs \<noteq> cs" "length bs = length cs"
  shows "base32Encode bs \<noteq> base32Encode cs"
  using assms base32Encode_eqD by blast

end
