(* ===== verification/Js_Utf8.thy ===== *)
theory Js_Utf8
  imports Byte_View
begin

text \<open>
  \<open>TextEncoder.encode\<close> and \<open>TextDecoder.decode\<close>: a JavaScript string is a list of UTF-16
  code units, encoding replaces lone surrogates by U+FFFD, decoding is the UTF-8 decoder of
  the Encoding standard (malformed input becomes U+FFFD, a leading byte order mark is
  dropped). The result is that decoding inverts encoding on every well-formed string.
\<close>

section \<open>UTF-16\<close>

definition is_high :: "nat \<Rightarrow> bool" where "is_high c \<longleftrightarrow> 55296 \<le> c \<and> c \<le> 56319"
definition is_low :: "nat \<Rightarrow> bool" where "is_low c \<longleftrightarrow> 56320 \<le> c \<and> c \<le> 57343"
definition is_scalar :: "nat \<Rightarrow> bool" where
  "is_scalar c \<longleftrightarrow> c < 55296 \<or> (57344 \<le> c \<and> c < 1114112)"

fun to_scalars :: "jsstr \<Rightarrow> nat list" where
  "to_scalars [] = []"
| "to_scalars (h # s) =
     (if is_high h then
        (case s of
           l # t \<Rightarrow> if is_low l then (65536 + (h - 55296) * 1024 + (l - 56320)) # to_scalars t
                    else 65533 # to_scalars s
         | [] \<Rightarrow> [65533])
      else if is_low h then 65533 # to_scalars s
      else h # to_scalars s)"

fun from_scalar :: "nat \<Rightarrow> jsstr" where
  "from_scalar c =
     (if c < 65536 then [c]
      else [55296 + (c - 65536) div 1024, 56320 + (c - 65536) mod 1024])"

definition from_scalars :: "nat list \<Rightarrow> jsstr" where
  "from_scalars cs = concat (map from_scalar cs)"

fun well_formed :: "jsstr \<Rightarrow> bool" where
  "well_formed [] = True"
| "well_formed (h # s) =
     (h < 65536 \<and>
      (if is_high h then (case s of l # t \<Rightarrow> is_low l \<and> well_formed t | [] \<Rightarrow> False)
       else \<not> is_low h \<and> well_formed s))"

lemma to_scalars_scalar: "well_formed s \<Longrightarrow> c \<in> set (to_scalars s) \<Longrightarrow> is_scalar c"
proof (induction s arbitrary: c rule: to_scalars.induct)
  case (2 h s)
  show ?case
  proof (cases "is_high h")
    case True
    then obtain l t where s: "s = l # t" "is_low l" "well_formed t"
      using "2.prems"(1) by (auto split: list.splits)
    then have "c = 65536 + (h - 55296) * 1024 + (l - 56320) \<or> c \<in> set (to_scalars t)"
      using True "2.prems" by auto
    then show ?thesis
      using "2.IH" True s by (auto simp: is_high_def is_low_def is_scalar_def)
  next
    case False
    then have "c = h \<and> is_scalar h \<or> c \<in> set (to_scalars s)" "well_formed s"
      using "2.prems" by (auto simp: is_high_def is_low_def is_scalar_def)
    moreover have "\<And>x. x \<in> set (to_scalars s) \<Longrightarrow> is_scalar x"
      using "2.IH" False \<open>well_formed s\<close> "2.prems"(1) by simp
    ultimately show ?thesis by blast
  qed
qed simp

lemma from_to_scalars: "well_formed s \<Longrightarrow> from_scalars (to_scalars s) = s"
proof (induction s rule: to_scalars.induct)
  case (2 h s)
  show ?case
  proof (cases "is_high h")
    case True
    then obtain l t where s: "s = l # t" "is_low l" "well_formed t"
      using "2.prems"(1) by (auto split: list.splits)
    let ?d = "(h - 55296) * 1024 + (l - 56320)"
    obtain x y where hl: "h = 55296 + x" "l = 56320 + y" "y < 1024"
      using True s(2) by (auto simp: is_high_def is_low_def le_iff_add)
    then have "from_scalar (65536 + ?d) = [h, l]" by simp
    moreover have "from_scalars (to_scalars t) = t" using "2.IH" True s by simp
    moreover have "from_scalars (to_scalars (h # s)) = from_scalar (65536 + ?d) @ from_scalars (to_scalars t)"
      using True s by (simp add: from_scalars_def add.assoc del: from_scalar.simps)
    ultimately show ?thesis unfolding s(1) by (simp only: append_Cons append_Nil)
  next
    case False
    then show ?thesis using 2 by (auto simp: from_scalars_def)
  qed
qed (simp add: from_scalars_def)

lemma from_scalars_Cons_bmp: "c < 65536 \<Longrightarrow> from_scalars (c # cs) = c # from_scalars cs"
  by (simp add: from_scalars_def)

section \<open>UTF-8\<close>

definition utf8_enc :: "nat \<Rightarrow> nat list" where
  "utf8_enc c =
     (if c < 128 then [c]
      else if c < 2048 then [192 + c div 64, 128 + c mod 64]
      else if c < 65536 then [224 + c div 4096, 128 + c div 64 mod 64, 128 + c mod 64]
      else [240 + c div 262144, 128 + c div 4096 mod 64, 128 + c div 64 mod 64, 128 + c mod 64])"

text \<open>
  What the first byte of a sequence does: emit a scalar (U+FFFD for a byte that cannot
  start a sequence), or wait for \<open>n\<close> more bytes, the next between \<open>lower\<close> and \<open>upper\<close>.
\<close>

datatype utf8_state = Emit nat | Need nat nat nat nat

definition utf8_lead :: "nat \<Rightarrow> utf8_state" where
  "utf8_lead b =
     (if b \<le> 127 then Emit b
      else if 194 \<le> b \<and> b \<le> 223 then Need 1 128 191 (b - 192)
      else if 224 \<le> b \<and> b \<le> 239 then
        Need 2 (if b = 224 then 160 else 128) (if b = 237 then 159 else 191) (b - 224)
      else if 240 \<le> b \<and> b \<le> 244 then
        Need 3 (if b = 240 then 144 else 128) (if b = 244 then 143 else 191) (b - 240)
      else Emit 65533)"

text \<open>\<open>None\<close> is the state between sequences.\<close>

fun utf8_dec :: "(nat \<times> nat \<times> nat \<times> nat) option \<Rightarrow> nat list \<Rightarrow> nat list" where
  "utf8_dec st [] = (case st of None \<Rightarrow> [] | Some _ \<Rightarrow> [65533])"
| "utf8_dec st (b # bs) =
     (let restart = (case utf8_lead b of Emit c \<Rightarrow> c # utf8_dec None bs
                     | Need n lo hi cp \<Rightarrow> utf8_dec (Some (n, lo, hi, cp)) bs)
      in case st of
           None \<Rightarrow> restart
         | Some (n, lo, hi, cp) \<Rightarrow>
             if lo \<le> b \<and> b \<le> hi then
               (let cp' = cp * 64 + b mod 64
                in if n = 1 then cp' # utf8_dec None bs
                   else utf8_dec (Some (n - 1, 128, 191, cp')) bs)
             else 65533 # restart)"

declare utf8_dec.simps(2) [simp del]

lemma utf8_dec_cont:
  "lo \<le> b \<Longrightarrow> b \<le> hi \<Longrightarrow> utf8_dec (Some (n, lo, hi, cp)) (b # bs) =
     (if n = 1 then (cp * 64 + b mod 64) # utf8_dec None bs
      else utf8_dec (Some (n - 1, 128, 191, cp * 64 + b mod 64)) bs)"
  by (simp add: utf8_dec.simps(2) Let_def)

lemma utf8_dec_lead:
  "utf8_dec None (b # bs) =
     (case utf8_lead b of Emit c \<Rightarrow> c # utf8_dec None bs
      | Need n lo hi cp \<Rightarrow> utf8_dec (Some (n, lo, hi, cp)) bs)"
  by (simp add: utf8_dec.simps(2))

lemma cont_payload [simp]: "(128 + x) mod 64 = x mod (64 :: nat)"
  using mod_mult_self3 [of 2 64 x] by simp

lemma base64_digits: "(c div 4096 * 64 + c div 64 mod 64) * 64 + c mod 64 = (c :: nat)"
proof -
  have "c div 4096 = c div 64 div 64" by (simp add: div_mult2_eq [symmetric])
  then show ?thesis by simp
qed

lemma utf8_dec_enc:
  assumes "is_scalar c"
  shows "utf8_dec None (utf8_enc c @ bs) = c # utf8_dec None bs"
proof -
  consider (1) "c < 128" | (2) "128 \<le> c" "c < 2048" | (3) "2048 \<le> c" "c < 65536"
    | (4) "65536 \<le> c" "c < 1114112"
    using assms by (fastforce simp: is_scalar_def)
  then show ?thesis
  proof cases
    case 1
    then show ?thesis by (simp add: utf8_enc_def utf8_dec_lead utf8_lead_def)
  next
    case 2
    then have l: "2 \<le> c div 64" "c div 64 < 32" by linarith+
    have "utf8_lead (192 + c div 64) = Need 1 128 191 (c div 64)"
      using l by (simp add: utf8_lead_def)
    moreover have "c div 64 * 64 + c mod 64 = c" by simp
    ultimately show ?thesis
      using 2 by (simp add: utf8_enc_def utf8_dec_lead utf8_dec_cont del: div_mult_mod_eq)
  next
    case 3
    define a b d where abd: "a = c div 4096" "b = c div 64 mod 64" "d = c mod 64"
    have sum: "(a * 64 + b) * 64 + d = c" unfolding abd by (rule base64_digits)
    have bd: "b < 64" "d < 64" by (simp_all add: abd)
    have lin: "4096 * a + 64 * b + d = c" using sum by (simp add: algebra_simps)
    have a: "a < 16" using lin 3 by linarith
    obtain lo hi where lead: "utf8_lead (224 + a) = Need 2 lo hi a"
      and lohi: "lo = (if a = 0 then 160 else 128)" "hi = (if a = 13 then 159 else 191)"
      using a by (auto simp: utf8_lead_def)
    have "32 \<le> b" if "a = 0" using lin bd 3 that by linarith
    moreover have "b < 32" if "a = 13" using lin bd assms that unfolding is_scalar_def by linarith
    ultimately have r: "lo \<le> 128 + b" "128 + b \<le> hi" using lohi bd by auto
    have "utf8_dec None (utf8_enc c @ bs) = utf8_dec (Some (2, lo, hi, a)) ((128 + b) # (128 + d) # bs)"
      using 3 lead by (simp add: utf8_enc_def utf8_dec_lead abd)
    also have "\<dots> = ((a * 64 + b) * 64 + d) # utf8_dec None bs"
      using r bd by (simp add: utf8_dec_cont)
    finally show ?thesis using sum by simp
  next
    case 4
    define a b d e where abd: "a = c div 262144" "b = c div 4096 mod 64" "d = c div 64 mod 64" "e = c mod 64"
    have "c div 262144 = c div 4096 div 64" by (simp add: div_mult2_eq [symmetric])
    then have "a * 64 + b = c div 4096" by (simp add: abd)
    then have sum: "((a * 64 + b) * 64 + d) * 64 + e = c"
      using base64_digits [of c] by (simp only: abd)
    have bd: "b < 64" "d < 64" "e < 64" by (simp_all add: abd)
    have lin: "262144 * a + 4096 * b + 64 * d + e = c" using sum by (simp add: algebra_simps)
    have a: "a < 5" using lin 4 by linarith
    obtain lo hi where lead: "utf8_lead (240 + a) = Need 3 lo hi a"
      and lohi: "lo = (if a = 0 then 144 else 128)" "hi = (if a = 4 then 143 else 191)"
      using a by (auto simp: utf8_lead_def)
    have "16 \<le> b" if "a = 0" using lin bd 4 that by linarith
    moreover have "b < 16" if "a = 4" using lin bd 4 that by linarith
    ultimately have r: "lo \<le> 128 + b" "128 + b \<le> hi" using lohi bd by auto
    have "utf8_dec None (utf8_enc c @ bs) =
        utf8_dec (Some (3, lo, hi, a)) ((128 + b) # (128 + d) # (128 + e) # bs)"
      using 4 lead by (simp add: utf8_enc_def utf8_dec_lead abd)
    also have "\<dots> = (((a * 64 + b) * 64 + d) * 64 + e) # utf8_dec None bs"
      using r bd by (simp add: utf8_dec_cont)
    finally show ?thesis using sum by simp
  qed
qed

lemma utf8_dec_enc_list:
  "\<forall>c \<in> set cs. is_scalar c \<Longrightarrow> utf8_dec None (concat (map utf8_enc cs)) = cs"
  by (induction cs) (auto simp: utf8_dec_enc)

lemma utf8_enc_byte: "is_scalar c \<Longrightarrow> b \<in> set (utf8_enc c) \<Longrightarrow> b < 256"
  by (auto simp: utf8_enc_def is_scalar_def split: if_splits)

section \<open>TextEncoder and TextDecoder\<close>

definition TextEncoder_encode :: "jsstr \<Rightarrow> bytes" where
  "TextEncoder_encode s = map word_of_nat (concat (map utf8_enc (to_scalars s)))"

definition strip_bom :: "nat list \<Rightarrow> nat list" where
  "strip_bom bs = (if take 3 bs = [239, 187, 191] then drop 3 bs else bs)"

definition TextDecoder_decode :: "bytes \<Rightarrow> jsstr" where
  "TextDecoder_decode bs = from_scalars (utf8_dec None (strip_bom (map unat bs)))"

definition starts_with_bom :: "jsstr \<Rightarrow> bool" where
  "starts_with_bom s \<longleftrightarrow> (case s of [] \<Rightarrow> False | c # _ \<Rightarrow> c = 65279)"

lemma utf8_dec_bom: "utf8_dec None (239 # 187 # 191 # bs) = 65279 # utf8_dec None bs"
  using utf8_dec_enc [of 65279 bs] by (simp add: utf8_enc_def is_scalar_def)

lemma map_unat_encode:
  assumes "well_formed s"
  shows "map unat (TextEncoder_encode s) = concat (map utf8_enc (to_scalars s))"
proof -
  have "b < 256" if "b \<in> set (concat (map utf8_enc (to_scalars s)))" for b
    using that assms utf8_enc_byte to_scalars_scalar by fastforce
  then show ?thesis
    unfolding TextEncoder_encode_def map_map by (intro map_idI) simp
qed

theorem decode_encode:
  assumes "well_formed s" "\<not> starts_with_bom s"
  shows "TextDecoder_decode (TextEncoder_encode s) = s"
proof -
  let ?bs = "concat (map utf8_enc (to_scalars s))"
  have dec: "utf8_dec None ?bs = to_scalars s"
    using assms(1) by (intro utf8_dec_enc_list) (simp add: to_scalars_scalar)
  have "take 3 ?bs \<noteq> [239, 187, 191]"
  proof
    assume "take 3 ?bs = [239, 187, 191]"
    then have "?bs = 239 # 187 # 191 # drop 3 ?bs"
      by (metis append_Cons append_Nil append_take_drop_id)
    then have "utf8_dec None ?bs = 65279 # utf8_dec None (drop 3 ?bs)"
      by (rule ssubst) (rule utf8_dec_bom)
    then have "to_scalars s = 65279 # utf8_dec None (drop 3 ?bs)"
      by (simp only: dec)
    then have "from_scalars (to_scalars s) = from_scalars (65279 # utf8_dec None (drop 3 ?bs))"
      by (rule arg_cong)
    also have "\<dots> = 65279 # from_scalars (utf8_dec None (drop 3 ?bs))"
      by (rule from_scalars_Cons_bmp) simp
    finally have "from_scalars (to_scalars s) = 65279 # from_scalars (utf8_dec None (drop 3 ?bs))" .
    then have "s = 65279 # from_scalars (utf8_dec None (drop 3 ?bs))"
      by (simp only: from_to_scalars [OF assms(1)])
    then obtain t where "s = 65279 # t" by blast
    then show False using assms(2) by (simp add: starts_with_bom_def)
  qed
  then have "strip_bom ?bs = ?bs" by (simp add: strip_bom_def)
  then show ?thesis
    using dec from_to_scalars [OF assms(1)]
    by (simp add: TextDecoder_decode_def map_unat_encode [OF assms(1)])
qed

text \<open>ASCII text is one byte per unit in both directions.\<close>

lemma ascii_well_formed: "\<forall>c \<in> set s. c < 128 \<Longrightarrow> well_formed s"
  by (induction s) (auto simp: is_high_def is_low_def split: list.splits)

lemma ascii_scalars: "\<forall>c \<in> set s. c < 128 \<Longrightarrow> to_scalars s = s"
  by (induction s) (auto simp: is_high_def is_low_def split: list.splits)

lemma encode_ascii: "\<forall>c \<in> set s. c < 128 \<Longrightarrow> TextEncoder_encode s = map word_of_nat s"
proof -
  assume a: "\<forall>c \<in> set s. c < 128"
  then have "concat (map utf8_enc s) = s" by (induction s) (auto simp: utf8_enc_def)
  with a show ?thesis by (simp add: TextEncoder_encode_def ascii_scalars)
qed

lemma decode_ascii: "\<forall>c \<in> set s. c < 128 \<Longrightarrow> TextDecoder_decode (map word_of_nat s) = s"
proof -
  assume a: "\<forall>c \<in> set s. c < 128"
  then have "\<not> starts_with_bom s" by (auto simp: starts_with_bom_def split: list.splits)
  with a show ?thesis using decode_encode [of s] by (simp add: encode_ascii ascii_well_formed)
qed

section \<open>URI components\<close>

text \<open>\<open>encodeURIComponent\<close>: all but the unreserved marks as percent-encoded UTF-8.\<close>

definition uri_unreserved :: "nat \<Rightarrow> bool" where
  "uri_unreserved c \<longleftrightarrow> (48 \<le> c \<and> c \<le> 57) \<or> (65 \<le> c \<and> c \<le> 90) \<or> (97 \<le> c \<and> c \<le> 122)
     \<or> c \<in> set [45, 95, 46, 33, 126, 42, 39, 40, 41]"

definition pct_digit :: "nat \<Rightarrow> nat" where
  "pct_digit d = (if d < 10 then 48 + d else 55 + d)"

definition pct :: "nat \<Rightarrow> jsstr" where
  "pct b = [37, pct_digit (b div 16), pct_digit (b mod 16)]"

definition uri_scalar :: "nat \<Rightarrow> jsstr" where
  "uri_scalar c = (if uri_unreserved c then [c] else concat (map pct (utf8_enc c)))"

definition encodeURIComponent :: "jsstr \<Rightarrow> jsstr res" where
  "encodeURIComponent s =
     (if well_formed s then Inr (concat (map uri_scalar (to_scalars s)))
      else Inl (Error (js ''URI malformed'')))"

lemma pct_digit_unreserved: "d < 16 \<Longrightarrow> uri_unreserved (pct_digit d)"
  by (auto simp: pct_digit_def uri_unreserved_def)

text \<open>The result cannot leave its place in a URL: it holds unreserved marks and percent signs only.\<close>

lemma encodeURIComponent_marks:
  assumes "encodeURIComponent s = Inr t" "c \<in> set t"
  shows "uri_unreserved c \<or> c = 37"
proof -
  have wf: "well_formed s" and "t = concat (map uri_scalar (to_scalars s))"
    using assms(1) by (simp_all add: encodeURIComponent_def split: if_splits)
  then obtain x where x: "x \<in> set (to_scalars s)" "c \<in> set (uri_scalar x)" using assms(2) by auto
  show ?thesis
  proof (cases "uri_unreserved x")
    case True
    then show ?thesis using x(2) by (simp add: uri_scalar_def)
  next
    case False
    then obtain b where b: "b \<in> set (utf8_enc x)" "c \<in> set (pct b)"
      using x(2) by (auto simp: uri_scalar_def)
    have "b < 256" using b(1) x(1) wf utf8_enc_byte to_scalars_scalar by fastforce
    then have "b div 16 < 16" "b mod 16 < 16" by (simp_all add: less_mult_imp_div_less)
    then show ?thesis using b(2) pct_digit_unreserved by (auto simp: pct_def)
  qed
qed

lemma encodeURIComponent_unreserved:
  "list_all (\<lambda>c. c < 128 \<and> uri_unreserved c) s \<Longrightarrow> encodeURIComponent s = Inr s"
proof -
  assume a: "list_all (\<lambda>c. c < 128 \<and> uri_unreserved c) s"
  then have "\<forall>c \<in> set s. c < 128" by (simp add: list_all_iff)
  moreover have "concat (map uri_scalar s) = s"
    using a by (induction s) (simp_all add: uri_scalar_def)
  ultimately show ?thesis by (simp add: encodeURIComponent_def ascii_well_formed ascii_scalars)
qed

end
