(* ===== verification/P2p_Payload.thy ===== *)
theory P2p_Payload
  imports P2p_Varint P2p_Ip P2p_Base32 Js_Utf8
begin

text \<open>
  Message payloads of the peer-to-peer protocol (\<open>worker/src/protocol.js\<close>): the network
  address, the \<open>version\<close> payload in both directions, the \<open>addr\<close> payload, the BIP155
  \<open>addrv2\<close> payload with its base32 and hex keys, and \<open>inferNetwork\<close>.

  A payload is at most \<open>2\<^sup>5\<^sup>3 - 1\<close> bytes long, the limit of a typed array (\<open>array_len\<close>);
  sums of lengths read from the wire are double additions (\<open>num_add\<close>). The results: no
  payload makes a parser throw, the number of entries is bounded by the bytes received, and
  each of the three formats survives a round trip.
\<close>

definition array_len :: "bytes \<Rightarrow> bool" where
  "array_len bs \<longleftrightarrow> length bs < 2 ^ 53"

section \<open>Addresses\<close>

definition P2P_PROTOCOL_VERSION :: nat where
  "P2P_PROTOCOL_VERSION = 70017"

definition packUint64 :: "nat \<Rightarrow> bytes" where
  "packUint64 n = le_bytes 8 n"

definition readUint64 :: "bytes \<Rightarrow> nat \<Rightarrow> nat res" where
  "readUint64 buf offset = bindE (getBigUint64 buf offset True) (\<lambda>v. Inr (to_double v))"

definition p2pEncodeAddr :: "jsstr \<Rightarrow> nat \<Rightarrow> nat \<Rightarrow> nat option \<Rightarrow> bytes res" where
  "p2pEncodeAddr ip port services time =
     bindE (p2pEncodeIp ip) (\<lambda>ipb. Inr (concatBytes
       ((case time of None \<Rightarrow> [] | Some t \<Rightarrow> [le_bytes 4 t])
        @ [packUint64 services, ipb, be_bytes 2 port])))"

section \<open>The version payload\<close>

text \<open>The random nonce and the clock (in milliseconds) are arguments.\<close>

definition p2pBuildVersionPayload :: "jsstr \<Rightarrow> nat \<Rightarrow> jsstr \<Rightarrow> bytes \<Rightarrow> nat \<Rightarrow> bytes res" where
  "p2pBuildVersionPayload theirIp theirPort userAgent nonce now_ms =
     (let ua = TextEncoder_encode userAgent;
          version = le_bytes 4 P2P_PROTOCOL_VERSION;
          services = packUint64 0;
          timestamp = packUint64 (now_ms div 1000)
      in bindE (p2pEncodeAddr theirIp theirPort 0 None) (\<lambda>addrRecv.
         bindE (p2pEncodeAddr (js ''0.0.0.0'') 0 0 None) (\<lambda>addrFrom.
         let uaLen = p2pVarint (length ua);
             startHeight = replicate 4 0;
             relay = [0]
         in Inr (concatBytes [version, services, timestamp, addrRecv, addrFrom, nonce, uaLen, ua,
                              startHeight, relay]))))"

record version_info =
  v_version :: nat
  v_services :: nat
  v_subver :: jsstr
  v_startHeight :: nat

text \<open>The optional fixed-size fields between the timestamp and the user agent.\<close>

definition skip_field :: "nat \<Rightarrow> nat \<Rightarrow> nat \<Rightarrow> nat" where
  "skip_field len n offset = (if offset + n \<le> len then offset + n else offset)"

definition read_subver :: "bytes \<Rightarrow> nat \<Rightarrow> (jsstr \<times> nat) res" where
  "read_subver payload offset =
     (let len = length payload
      in if offset < len then
           bindE (p2pReadVarint payload offset) (\<lambda>vi.
             case vi of None \<Rightarrow> Inr ([], offset)
             | Some (strLen, newOffset) \<Rightarrow>
                 if num_add newOffset strLen \<le> len
                 then Inr (TextDecoder_decode (slice payload newOffset (num_add newOffset strLen)),
                           num_add newOffset strLen)
                 else Inr ([], offset))
         else Inr ([], offset))"

definition p2pParseVersionPayload :: "bytes \<Rightarrow> version_info res" where
  "p2pParseVersionPayload payload =
     (let len = length payload
      in if len < 4 then Inr \<lparr>v_version = 0, v_services = 0, v_subver = [], v_startHeight = 0\<rparr>
         else
           bindE (getUint32 payload 0 True) (\<lambda>version.
           bindE (if 4 + 8 \<le> len then readUint64 payload 4 else Inr 0) (\<lambda>services.
           let o1 = skip_field len 26 (4 + 8 + 8);
               o2 = skip_field len 26 o1;
               o3 = skip_field len 8 o2
           in bindE (read_subver payload o3) (\<lambda>(subver, o4).
              bindE (if o4 + 4 \<le> len then getUint32 payload o4 True else Inr 0) (\<lambda>startHeight.
              Inr \<lparr>v_version = version, v_services = services, v_subver = subver,
                   v_startHeight = startHeight\<rparr>)))))"

section \<open>The addr payload\<close>

record addr =
  a_ip :: jsstr
  a_port :: nat
  a_time :: nat
  a_services :: nat

definition parse_addr_entry :: "bytes \<Rightarrow> nat \<Rightarrow> addr res" where
  "parse_addr_entry payload offset =
     bindE (getUint32 payload offset True) (\<lambda>time.
     bindE (readUint64 payload (offset + 4)) (\<lambda>services.
     bindE (p2pDecodeIp (slice payload (offset + 12) (offset + 28))) (\<lambda>ip.
     bindE (getUint16 payload (offset + 28) False) (\<lambda>port.
     Inr \<lparr>a_ip = ip, a_port = port, a_time = time, a_services = services\<rparr>))))"

function parse_addr_loop :: "bytes \<Rightarrow> nat \<Rightarrow> nat \<Rightarrow> nat \<Rightarrow> addr list \<Rightarrow> addr list res" where
  "parse_addr_loop payload i count offset out =
     (if \<not> i < count then Inr out
      else if length payload < offset + 30 then Inr out
      else bindE (parse_addr_entry payload offset) (\<lambda>a.
           parse_addr_loop payload (i + 1) count (offset + 30) (out @ [a])))"
  by pat_completeness auto
termination
  by (relation "measure (\<lambda>(payload, i, count, offset, out). count - i)") auto

declare parse_addr_loop.simps [simp del]

definition p2pParseAddrPayload :: "bytes \<Rightarrow> addr list res" where
  "p2pParseAddrPayload payload =
     bindE (p2pReadVarint payload 0) (\<lambda>vi.
       case vi of None \<Rightarrow> Inr []
       | Some (count, offset) \<Rightarrow> parse_addr_loop payload 0 count offset [])"

section \<open>The addrv2 payload\<close>

record addr2 =
  d_network :: jsstr
  d_ip :: "jsstr option"
  d_key :: jsstr
  d_port :: nat
  d_time :: nat
  d_services :: nat

definition ADDRV2_NETWORK_NAMES :: "nat \<Rightarrow> jsstr option" where
  "ADDRV2_NETWORK_NAMES networkId =
     (if networkId = 1 then Some (js ''ipv4'')
      else if networkId = 2 then Some (js ''ipv6'')
      else if networkId = 3 then Some (js ''tor'')
      else if networkId = 4 then Some (js ''tor'')
      else if networkId = 5 then Some (js ''i2p'')
      else if networkId = 6 then Some (js ''cjdns'')
      else None)"

definition ADDRV2_NETWORK_LENGTHS :: "nat \<Rightarrow> nat option" where
  "ADDRV2_NETWORK_LENGTHS networkId =
     (if networkId = 1 then Some 4
      else if networkId = 2 then Some 16
      else if networkId = 3 then Some 10
      else if networkId = 4 then Some 32
      else if networkId = 5 then Some 32
      else if networkId = 6 then Some 16
      else None)"

definition addrv2_names :: "jsstr \<Rightarrow> bytes \<Rightarrow> (jsstr option \<times> jsstr) res" where
  \<comment> \<open>the fields \<open>ip\<close> and \<open>key\<close>\<close>
  "addrv2_names network addrBytes =
     (if network = js ''ipv4'' then (let ip = formatIPv4 addrBytes in Inr (Some ip, ip))
      else if network = js ''ipv6'' \<or> network = js ''cjdns'' then
        bindE (formatIPv6 addrBytes) (\<lambda>ip. Inr (Some ip, ip))
      else if network = js ''i2p'' then Inr (None, base32Encode addrBytes @ js ''.b32.i2p'')
      else Inr (None, bytesToHex addrBytes))"

text \<open>
  One pass through the loop body: \<open>None\<close> is \<open>break\<close>, otherwise the offset the next pass
  starts from and the entry pushed, if any (\<open>continue\<close> pushes none). The part after the
  length of the address is read stands apart.
\<close>

definition parse_addrv2_rest ::
    "bytes \<Rightarrow> nat \<Rightarrow> nat \<Rightarrow> nat \<Rightarrow> nat \<Rightarrow> nat \<Rightarrow> (addr2 option \<times> nat) option res" where
  "parse_addrv2_rest payload time services networkId addrLen offset =
     (if length payload < num_add (num_add offset addrLen) 2 then Inr None
      else let o3 = num_add offset addrLen; addrBytes = slice payload offset o3 in
           bindE (getUint16 payload o3 False) (\<lambda>port.
           case ADDRV2_NETWORK_NAMES networkId of
             None \<Rightarrow> Inr (Some (None, o3 + 2))
           | Some network \<Rightarrow>
               if Some addrLen \<noteq> ADDRV2_NETWORK_LENGTHS networkId
               then Inr (Some (None, o3 + 2))
               else bindE (addrv2_names network addrBytes) (\<lambda>(ip, key).
                    Inr (Some (Some \<lparr>d_network = network, d_ip = ip, d_key = key, d_port = port,
                                     d_time = time, d_services = services\<rparr>, o3 + 2)))))"

definition parse_addrv2_entry :: "bytes \<Rightarrow> nat \<Rightarrow> (addr2 option \<times> nat) option res" where
  "parse_addrv2_entry payload offset =
     (if length payload < offset + 4 then Inr None
      else bindE (getUint32 payload offset True) (\<lambda>time.
           bindE (p2pReadVarint payload (offset + 4)) (\<lambda>svi.
           case svi of None \<Rightarrow> Inr None
           | Some (services, o1) \<Rightarrow>
               if length payload < o1 + 1 then Inr None
               else let networkId = unat (payload ! o1) in
               bindE (p2pReadVarint payload (o1 + 1)) (\<lambda>lvi.
               case lvi of None \<Rightarrow> Inr None
               | Some (addrLen, o2) \<Rightarrow>
                   parse_addrv2_rest payload time services networkId addrLen o2))))"

function parse_addrv2_loop :: "bytes \<Rightarrow> nat \<Rightarrow> nat \<Rightarrow> nat \<Rightarrow> addr2 list \<Rightarrow> addr2 list res" where
  "parse_addrv2_loop payload i count offset out =
     (if \<not> i < count then Inr out
      else bindE (parse_addrv2_entry payload offset) (\<lambda>r.
           case r of None \<Rightarrow> Inr out
           | Some (x, offset') \<Rightarrow>
               parse_addrv2_loop payload (i + 1) count offset'
                 (case x of None \<Rightarrow> out | Some a \<Rightarrow> out @ [a])))"
  by pat_completeness auto
termination
  by (relation "measure (\<lambda>(payload, i, count, offset, out). count - i)") auto

declare parse_addrv2_loop.simps [simp del]

definition p2pParseAddrV2Payload :: "bytes \<Rightarrow> addr2 list res" where
  "p2pParseAddrV2Payload payload =
     bindE (p2pReadVarint payload 0) (\<lambda>vi.
       case vi of None \<Rightarrow> Inr []
       | Some (count, offset) \<Rightarrow> parse_addrv2_loop payload 0 count offset [])"

section \<open>Network of a stored peer\<close>

text \<open>
  \<open>network\<close> and \<open>ip\<close> are the optional fields of the stored record; an empty network name is
  falsy and counts as missing.
\<close>

definition inferNetwork :: "jsstr \<Rightarrow> jsstr option \<Rightarrow> jsstr option \<Rightarrow> jsstr" where
  "inferNetwork key network ip =
     (case network of
        Some n \<Rightarrow> if n \<noteq> [] then n
                  else if js_includes (case ip of Some a \<Rightarrow> a | None \<Rightarrow> key) (js '':'')
                  then js ''ipv6'' else js ''ipv4''
      | None \<Rightarrow> if js_includes (case ip of Some a \<Rightarrow> a | None \<Rightarrow> key) (js '':'')
                then js ''ipv6'' else js ''ipv4'')"

section \<open>The parsers never throw\<close>

lemma readUint64_returns [parse_safe]: "offset + 8 \<le> length buf \<Longrightarrow> returns (readUint64 buf offset)"
  unfolding readUint64_def by (intro returns_bindE getUint_returns) auto

lemma read_subver_returns [parse_safe]: "returns (read_subver payload offset)"
  unfolding read_subver_def Let_def
  by (auto intro!: returns_bindE p2pReadVarint_returns split: option.split)

lemma p2pParseVersionPayload_returns: "returns (p2pParseVersionPayload payload)"
  unfolding p2pParseVersionPayload_def Let_def
  by (auto intro!: returns_bindE parse_safe)

lemma parse_addr_entry_returns [parse_safe]:
  "offset + 30 \<le> length payload \<Longrightarrow> returns (parse_addr_entry payload offset)"
  unfolding parse_addr_entry_def
  by (auto intro!: returns_bindE getUint_returns readUint64_returns p2pDecodeIp_returns)

lemma parse_addr_loop_returns: "returns (parse_addr_loop payload i count offset out)"
  by (induction payload i count offset out rule: parse_addr_loop.induct)
    (subst parse_addr_loop.simps, auto intro!: returns_bindE parse_addr_entry_returns)

lemma p2pParseAddrPayload_returns: "returns (p2pParseAddrPayload payload)"
  unfolding p2pParseAddrPayload_def
  by (auto intro!: returns_bindE p2pReadVarint_returns parse_addr_loop_returns split: option.split)

lemma addrv2_names_returns:
  "ADDRV2_NETWORK_NAMES n = Some network \<Longrightarrow> ADDRV2_NETWORK_LENGTHS n = Some (length bs) \<Longrightarrow>
   returns (addrv2_names network bs)"
  unfolding addrv2_names_def ADDRV2_NETWORK_NAMES_def ADDRV2_NETWORK_LENGTHS_def
  by (auto simp: Let_def intro!: returns_bindE formatIPv6_returns split: if_splits)


lemma parse_addrv2_rest_returns:
  assumes "array_len payload"
  shows "returns (parse_addrv2_rest payload time services networkId addrLen offset)"
proof (cases "num_add (num_add offset addrLen) 2 \<le> length payload")
  case True
  have m: "length payload < 2 ^ 53" using assms by (simp add: array_len_def)
  note r = num_add3_le [OF m True]
  then have "length (slice payload offset (num_add offset addrLen)) = addrLen" by simp
  then show ?thesis
    using r by (auto simp: parse_addrv2_rest_def Let_def
        intro!: returns_bindE getUint_returns addrv2_names_returns split: option.split)
qed (simp add: parse_addrv2_rest_def)

lemma parse_addrv2_entry_returns:
  "array_len payload \<Longrightarrow> returns (parse_addrv2_entry payload offset)"
  unfolding parse_addrv2_entry_def Let_def
  by (auto intro!: returns_bindE getUint_returns p2pReadVarint_returns parse_addrv2_rest_returns
      split: option.split)

lemma parse_addrv2_rest_progress:
  assumes "array_len payload"
    "parse_addrv2_rest payload time services networkId addrLen offset = Inr (Some (x, offset'))"
  shows "offset' = offset + addrLen + 2 \<and> offset' \<le> length payload \<and> (x \<noteq> None \<longrightarrow> 4 \<le> addrLen)"
proof -
  have m: "length payload < 2 ^ 53" using assms(1) by (simp add: array_len_def)
  have le: "num_add (num_add offset addrLen) 2 \<le> length payload"
    using assms(2) by (auto simp: parse_addrv2_rest_def split: if_splits)
  have "x \<noteq> None \<Longrightarrow> Some addrLen = ADDRV2_NETWORK_LENGTHS networkId"
    using assms(2) by (auto simp: parse_addrv2_rest_def Let_def bindE_eq_Inr_iff
        split: if_splits option.splits)
  then have "x \<noteq> None \<longrightarrow> 4 \<le> addrLen"
    by (auto simp: ADDRV2_NETWORK_LENGTHS_def split: if_splits)
  then show ?thesis
    using assms(2) num_add3_le [OF m le]
    by (auto simp: parse_addrv2_rest_def Let_def bindE_eq_Inr_iff split: if_splits option.splits)
qed

lemma parse_addrv2_entry_progress:
  assumes "array_len payload" "parse_addrv2_entry payload offset = Inr (Some (x, offset'))"
  shows "offset + 9 \<le> offset' \<and> offset' \<le> length payload \<and> (x \<noteq> None \<longrightarrow> offset + 13 \<le> offset')"
proof -
  obtain time services o1 addrLen o2 where
    v: "p2pReadVarint payload (offset + 4) = Inr (Some (services, o1))"
       "p2pReadVarint payload (o1 + 1) = Inr (Some (addrLen, o2))"
    and r: "parse_addrv2_rest payload time services (unat (payload ! o1)) addrLen o2
              = Inr (Some (x, offset'))"
    using assms(2) unfolding parse_addrv2_entry_def Let_def
    by (auto elim!: bindE_InrE split: if_splits option.splits)
  show ?thesis
    using p2pReadVarint_progress [OF v(1)] p2pReadVarint_progress [OF v(2)]
      parse_addrv2_rest_progress [OF assms(1) r] by auto
qed

lemma parse_addrv2_loop_returns:
  "array_len payload \<Longrightarrow> returns (parse_addrv2_loop payload i count offset out)"
  by (induction payload i count offset out rule: parse_addrv2_loop.induct)
    (subst parse_addrv2_loop.simps,
     auto intro!: returns_bindE parse_addrv2_entry_returns split: option.split)

lemma p2pParseAddrV2Payload_returns: "array_len payload \<Longrightarrow> returns (p2pParseAddrV2Payload payload)"
  unfolding p2pParseAddrV2Payload_def
  by (auto intro!: returns_bindE p2pReadVarint_returns parse_addrv2_loop_returns split: option.split)


section \<open>A payload yields no more entries than it has bytes for\<close>

lemma parse_addr_loop_bound:
  "parse_addr_loop payload i count offset out = Inr as \<Longrightarrow> offset \<le> length payload \<Longrightarrow>
   30 * length as \<le> 30 * length out + (length payload - offset)"
proof (induction payload i count offset out rule: parse_addr_loop.induct)
  case (1 payload i count offset out)
  show ?case
  proof (cases "i < count \<and> offset + 30 \<le> length payload")
    case False
    then show ?thesis using "1.prems" by (auto simp: parse_addr_loop.simps [of payload i] split: if_splits)
  next
    case True
    then obtain a where a: "parse_addr_entry payload offset = Inr a"
      and r: "parse_addr_loop payload (i + 1) count (offset + 30) (out @ [a]) = Inr as"
      using "1.prems" by (auto simp: parse_addr_loop.simps [of payload i] elim!: bindE_InrE split: if_splits)
    have "30 * length as \<le> 30 * length (out @ [a]) + (length payload - (offset + 30))"
      using "1.IH" [OF _ _ a r] True by simp
    then show ?thesis using True by simp
  qed
qed

lemma parse_addrv2_loop_bound:
  "array_len payload \<Longrightarrow> parse_addrv2_loop payload i count offset out = Inr as \<Longrightarrow>
   offset \<le> length payload \<Longrightarrow> 13 * length as \<le> 13 * length out + (length payload - offset)"
proof (induction payload i count offset out rule: parse_addrv2_loop.induct)
  case (1 payload i count offset out)
  show ?case
  proof (cases "i < count \<and> parse_addrv2_entry payload offset \<noteq> Inr None")
    case False
    then show ?thesis using "1.prems" by (auto simp: parse_addrv2_loop.simps [of payload i] split: if_splits)
  next
    case True
    then obtain x offset' where e: "parse_addrv2_entry payload offset = Inr (Some (x, offset'))"
      and r: "parse_addrv2_loop payload (i + 1) count offset'
                (case x of None \<Rightarrow> out | Some a \<Rightarrow> out @ [a]) = Inr as"
      using "1.prems"
      by (auto simp: parse_addrv2_loop.simps [of payload i] elim!: bindE_InrE
          split: if_splits option.splits)
    note p = parse_addrv2_entry_progress [OF "1.prems"(1) e]
    have "13 * length as \<le> 13 * length (case x of None \<Rightarrow> out | Some a \<Rightarrow> out @ [a])
            + (length payload - offset')"
      using "1.IH" [OF _ e refl refl "1.prems"(1) r] True p by simp
    then show ?thesis using p by (cases x) auto
  qed
qed


section \<open>Round trips\<close>

text \<open>An \<open>addr\<close> entry as the node writes it, and the entries that survive the trip.\<close>

definition addr_wire :: "addr \<Rightarrow> bytes res" where
  "addr_wire a = p2pEncodeAddr (a_ip a) (a_port a) (a_services a) (Some (a_time a))"

definition wf_addr :: "addr \<Rightarrow> bool" where
  "wf_addr a \<longleftrightarrow> a_port a < 2 ^ 16 \<and> a_time a < 2 ^ 32 \<and> a_services a \<le> 2 ^ 53
     \<and> bindE (p2pEncodeIp (a_ip a)) p2pDecodeIp = Inr (a_ip a)"

lemma readUint64_at:
  assumes "length xs = off" "n \<le> 2 ^ 53"
  shows "readUint64 (xs @ packUint64 n @ ys) off = Inr n"
proof -
  have "n < 2 ^ 64" using assms(2) by (rule le_less_trans) simp
  then show ?thesis
    using assms getUint_le_at [OF assms(1), of 8 n ys]
    by (simp add: readUint64_def packUint64_def to_double_exact)
qed

lemma parse_addr_entry_at:
  assumes w: "wf_addr a" "addr_wire a = Inr w" and off: "length xs = off"
  shows "length w = 30 \<and> parse_addr_entry (xs @ w @ ys) off = Inr a"
proof -
  obtain ipb where ip: "p2pEncodeIp (a_ip a) = Inr ipb" "p2pDecodeIp ipb = Inr (a_ip a)"
    using w(1) by (auto simp: wf_addr_def elim!: bindE_InrE)
  have l: "length ipb = 16" using ip(1) by (rule p2pEncodeIp_length)
  let ?t = "le_bytes 4 (a_time a)" and ?s = "packUint64 (a_services a)" and ?p = "be_bytes 2 (a_port a)"
  have w': "w = ?t @ ?s @ ipb @ ?p"
    using w(2) ip(1) by (simp add: addr_wire_def p2pEncodeAddr_def)
  have ls: "length ?s = 8" by (simp add: packUint64_def)
  have "getUint32 (xs @ w @ ys) off True = Inr (a_time a)"
    using getUint_le_at [OF off, of 4 "a_time a"] w(1) by (simp add: w' wf_addr_def)
  moreover have "readUint64 (xs @ w @ ys) (off + 4) = Inr (a_services a)"
    using readUint64_at [of "xs @ ?t" "off + 4" "a_services a" "ipb @ ?p @ ys"] off w(1)
    by (simp add: w' wf_addr_def)
  moreover have "slice (xs @ w @ ys) (off + 12) (off + 28) = ipb"
    using slice_append_exact [of "xs @ ?t @ ?s" "off + 12" ipb "off + 28" "?p @ ys"] off l ls
    by (simp add: w')
  moreover have "getUint16 (xs @ w @ ys) (off + 28) False = Inr (a_port a)"
    using getUint_be_at [of "xs @ ?t @ ?s @ ipb" "off + 28" 2 "a_port a" ys] off l ls w(1)
    by (simp add: w' wf_addr_def)
  ultimately show ?thesis
    using ip(2) ls l by (simp add: parse_addr_entry_def w')
qed

lemma parse_addr_loop_at:
  assumes "list_all wf_addr as" "mapE addr_wire as = Inr ws" "length xs = off" "count - i = length as"
  shows "parse_addr_loop (xs @ concat ws) i count off out = Inr (out @ as)"
  using assms
proof (induction as arbitrary: ws xs off i out)
  case Nil
  then show ?case by (subst parse_addr_loop.simps) auto
next
  case (Cons a as)
  obtain w ws' where ws: "ws = w # ws'" "addr_wire a = Inr w" "mapE addr_wire as = Inr ws'"
    using Cons.prems(2) by (auto elim!: bindE_InrE)
  have e: "length w = 30" "parse_addr_entry (xs @ concat ws) off = Inr a"
    using parse_addr_entry_at [OF _ ws(2) Cons.prems(3), of "concat ws'"] Cons.prems(1) ws(1) by auto
  have "parse_addr_loop (xs @ concat ws) (i + 1) count (off + 30) (out @ [a]) = Inr ((out @ [a]) @ as)"
    using Cons.IH [of ws' "xs @ w" "off + 30" "i + 1" "out @ [a]"] Cons.prems ws e(1) by simp
  moreover have "i < count" "off + 30 \<le> length (xs @ concat ws)"
    using Cons.prems(3,4) ws(1) e(1) by simp_all
  ultimately show ?case
    using e(2) by (subst parse_addr_loop.simps) simp
qed


lemma p2pVarint_count_at:
  assumes "n \<le> 2 ^ 53"
  shows "p2pReadVarint (p2pVarint n @ ys) 0 = Inr (Some (n, length (p2pVarint n)))"
proof -
  have "n < 2 ^ 64" using assms by (rule le_less_trans) simp
  then show ?thesis using p2pReadVarint_at [of n "[]" 0 ys] to_double_exact [OF assms] by simp
qed

lemma addr_payload_parse:
  assumes "list_all wf_addr as" "mapE addr_wire as = Inr ws" "length as \<le> 2 ^ 53"
  shows "p2pParseAddrPayload (p2pVarint (length as) @ concat ws) = Inr as"
  using parse_addr_loop_at [OF assms(1,2), of "p2pVarint (length as)" _ "length as" 0 "[]"]
    p2pVarint_count_at [OF assms(3)]
  by (simp add: p2pParseAddrPayload_def)

text \<open>
  An \<open>addrv2\<close> entry as BIP155 lays it out on the wire, and what the crawler keeps of it:
  nothing of an unknown network or of an address with the wrong length.
\<close>

record raw2 =
  r_time :: nat
  r_services :: nat
  r_network :: byte
  r_addr :: bytes
  r_port :: nat

definition addrv2_wire :: "raw2 \<Rightarrow> bytes" where
  "addrv2_wire r = le_bytes 4 (r_time r) @ p2pVarint (r_services r) @ [r_network r]
     @ p2pVarint (length (r_addr r)) @ r_addr r @ be_bytes 2 (r_port r)"

definition wf_raw2 :: "raw2 \<Rightarrow> bool" where
  "wf_raw2 r \<longleftrightarrow> r_time r < 2 ^ 32 \<and> r_services r \<le> 2 ^ 53 \<and> r_port r < 2 ^ 16"

definition addrv2_view :: "raw2 \<Rightarrow> addr2 option" where
  "addrv2_view r =
     (case ADDRV2_NETWORK_NAMES (unat (r_network r)) of
        None \<Rightarrow> None
      | Some network \<Rightarrow>
          if ADDRV2_NETWORK_LENGTHS (unat (r_network r)) \<noteq> Some (length (r_addr r)) then None
          else (case addrv2_names network (r_addr r) of
                  Inl _ \<Rightarrow> None
                | Inr (ip, key) \<Rightarrow>
                    Some \<lparr>d_network = network, d_ip = ip, d_key = key, d_port = r_port r,
                          d_time = r_time r, d_services = r_services r\<rparr>))"

lemma parse_addrv2_rest_at:
  assumes len: "length xs + length (r_addr r) + 2 \<le> 2 ^ 53" and port: "r_port r < 2 ^ 16"
    and off: "length xs = off"
  shows "parse_addrv2_rest (xs @ r_addr r @ be_bytes 2 (r_port r) @ ys) (r_time r) (r_services r)
           (unat (r_network r)) (length (r_addr r)) off
         = Inr (Some (addrv2_view r, off + length (r_addr r) + 2))"
proof -
  let ?p = "xs @ r_addr r @ be_bytes 2 (r_port r) @ ys"
  have n: "num_add off (length (r_addr r)) = off + length (r_addr r)"
    "num_add (num_add off (length (r_addr r))) 2 = off + length (r_addr r) + 2"
    using len off by (simp_all add: num_add_exact)
  have sl: "slice ?p off (off + length (r_addr r)) = r_addr r"
    using off by (intro slice_append_exact) simp_all
  have po: "getUint16 ?p (off + length (r_addr r)) False = Inr (r_port r)"
    using getUint_be_at [of "xs @ r_addr r" "off + length (r_addr r)" 2 "r_port r" ys] off port by simp
  have nm: "returns (addrv2_names network (r_addr r))"
    if "ADDRV2_NETWORK_NAMES (unat (r_network r)) = Some network"
      "ADDRV2_NETWORK_LENGTHS (unat (r_network r)) = Some (length (r_addr r))" for network
    using that by (rule addrv2_names_returns)
  have ge: "\<not> length ?p < num_add (num_add off (length (r_addr r))) 2"
    using off by (simp only: n(2)) simp
  show ?thesis
  proof (cases "ADDRV2_NETWORK_NAMES (unat (r_network r))")
    case None
    then show ?thesis using ge by (simp add: parse_addrv2_rest_def n sl po addrv2_view_def)
  next
    case (Some network)
    then show ?thesis
      using ge nm [of network]
      by (auto simp: parse_addrv2_rest_def n sl po addrv2_view_def returns_iff split: if_splits)
  qed
qed


lemma parse_addrv2_entry_at:
  assumes al: "array_len (xs @ addrv2_wire r @ ys)" and wf: "wf_raw2 r" and off: "length xs = off"
  shows "parse_addrv2_entry (xs @ addrv2_wire r @ ys) off
         = Inr (Some (addrv2_view r, off + length (addrv2_wire r)))"
proof -
  let ?p = "xs @ addrv2_wire r @ ys" and ?t = "le_bytes 4 (r_time r)"
  let ?s = "p2pVarint (r_services r)" and ?l = "p2pVarint (length (r_addr r))"
  let ?a = "r_addr r @ be_bytes 2 (r_port r) @ ys"
  let ?o1 = "off + 4 + length ?s" and ?o2 = "off + 4 + length ?s + 1 + length ?l"
  have al': "off + length (addrv2_wire r) < 2 ^ 53" using al off by (simp add: array_len_def)
  have sv: "r_services r < 2 ^ 64"
    by (rule le_less_trans [of _ "2 ^ 53"]) (use wf in \<open>simp_all add: wf_raw2_def\<close>)
  have le: "length (r_addr r) \<le> 2 ^ 53" using al' by (simp add: addrv2_wire_def)
  have lv: "length (r_addr r) < 2 ^ 64" using le by (rule le_less_trans) simp
  have "getUint32 ?p off True = Inr (r_time r)"
    using getUint_le_at [OF off, of 4 "r_time r"] wf by (simp add: addrv2_wire_def wf_raw2_def)
  moreover have "p2pReadVarint ?p (off + 4) = Inr (Some (r_services r, ?o1))"
    using p2pReadVarint_at [OF sv, of "xs @ ?t" "off + 4" "[r_network r] @ ?l @ ?a"] off wf
    by (simp add: addrv2_wire_def to_double_exact wf_raw2_def)
  moreover have "p2pReadVarint ?p (?o1 + 1) = Inr (Some (length (r_addr r), ?o2))"
    using p2pReadVarint_at [OF lv, of "xs @ ?t @ ?s @ [r_network r]" "?o1 + 1" ?a] off
    by (simp add: addrv2_wire_def to_double_exact [OF le])
  moreover have "?p ! ?o1 = r_network r"
    using nth_append_length [of "xs @ ?t @ ?s" "r_network r" "?l @ ?a"] off
    by (simp add: addrv2_wire_def add.assoc)
  moreover have "parse_addrv2_rest ?p (r_time r) (r_services r) (unat (r_network r)) (length (r_addr r)) ?o2
      = Inr (Some (addrv2_view r, ?o2 + length (r_addr r) + 2))"
    using parse_addrv2_rest_at [of "xs @ ?t @ ?s @ [r_network r] @ ?l" r ?o2 ys] al' off wf
    by (simp add: addrv2_wire_def wf_raw2_def)
  ultimately show ?thesis
    using off by (simp add: parse_addrv2_entry_def addrv2_wire_def)
qed


lemma parse_addrv2_loop_at:
  assumes "array_len (xs @ concat (map addrv2_wire rs))" "list_all wf_raw2 rs" "length xs = off"
    "count - i = length rs"
  shows "parse_addrv2_loop (xs @ concat (map addrv2_wire rs)) i count off out
         = Inr (out @ List.map_filter addrv2_view rs)"
  using assms
proof (induction rs arbitrary: xs off i out)
  case Nil
  then show ?case by (subst parse_addrv2_loop.simps) (auto simp: List.map_filter_def)
next
  case (Cons r rs)
  let ?w = "addrv2_wire r" and ?out = "case addrv2_view r of None \<Rightarrow> out | Some a \<Rightarrow> out @ [a]"
  have e: "parse_addrv2_entry (xs @ ?w @ concat (map addrv2_wire rs)) off
      = Inr (Some (addrv2_view r, off + length ?w))"
    using Cons.prems by (intro parse_addrv2_entry_at) simp_all
  have "parse_addrv2_loop ((xs @ ?w) @ concat (map addrv2_wire rs)) (i + 1) count (off + length ?w) ?out
      = Inr (?out @ List.map_filter addrv2_view rs)"
    using Cons.prems by (intro Cons.IH) auto
  moreover have "i < count" using Cons.prems(4) by simp
  ultimately show ?case
    using e by (subst parse_addrv2_loop.simps) (simp add: map_filter_Cons split: option.split)
qed

lemma length_concat_wire: "length rs \<le> length (concat (map addrv2_wire rs))"
  by (induction rs) (auto simp: addrv2_wire_def)

lemma addrv2_payload_parse:
  assumes "array_len (p2pVarint (length rs) @ concat (map addrv2_wire rs))" "list_all wf_raw2 rs"
  shows "p2pParseAddrV2Payload (p2pVarint (length rs) @ concat (map addrv2_wire rs))
         = Inr (List.map_filter addrv2_view rs)"
proof -
  have "length rs \<le> 2 ^ 53"
    using assms(1) length_concat_wire [of rs] by (simp add: array_len_def)
  then show ?thesis
    using parse_addrv2_loop_at [OF assms, of _ "length rs" 0 "[]"] p2pVarint_count_at
    by (simp add: p2pParseAddrV2Payload_def)
qed

section \<open>The version payload there and back\<close>

lemma p2pEncodeAddr_length:
  "p2pEncodeAddr ip port services None = Inr bs \<Longrightarrow> length bs = 26"
  by (auto simp: p2pEncodeAddr_def packUint64_def elim!: bindE_InrE dest: p2pEncodeIp_length)

lemma le_bytes_4_0: "replicate 4 0 = le_bytes 4 0"
  by code_simp

lemma version_payload_parse:
  assumes b: "p2pBuildVersionPayload ip port ua nonce now = Inr p" and "length nonce = 8"
    and al: "array_len p" and ua: "well_formed ua" "\<not> starts_with_bom ua"
  shows "p2pParseVersionPayload p
         = Inr \<lparr>v_version = P2P_PROTOCOL_VERSION, v_services = 0, v_subver = ua, v_startHeight = 0\<rparr>"
proof -
  let ?v = "le_bytes 4 P2P_PROTOCOL_VERSION" and ?t = "packUint64 (now div 1000)"
  let ?u = "TextEncoder_encode ua"
  obtain r f where rf: "p2pEncodeAddr ip port 0 None = Inr r"
      "p2pEncodeAddr (js ''0.0.0.0'') 0 0 None = Inr f"
    and p: "p = ?v @ packUint64 0 @ ?t @ r @ f @ nonce @ p2pVarint (length ?u) @ ?u @ replicate 4 0 @ [0]"
    using b by (auto simp: p2pBuildVersionPayload_def Let_def elim!: bindE_InrE)
  define hd where "hd = ?v @ packUint64 0 @ ?t @ r @ f @ nonce"
  have l: "length r = 26" "length f = 26" using rf p2pEncodeAddr_length by auto
  have lh: "length hd = 80" using l assms(2) by (simp add: hd_def packUint64_def)
  have ph: "p = hd @ p2pVarint (length ?u) @ ?u @ le_bytes 4 0 @ [0]"
    using le_bytes_4_0 by (simp add: p hd_def)
  have lu: "80 + length (p2pVarint (length ?u)) + length ?u < 2 ^ 53"
    using al lh by (simp add: array_len_def ph)
  have le: "length ?u \<le> 2 ^ 53" using lu by linarith
  then have lt: "length ?u < 2 ^ 64" by (rule le_less_trans) simp
  let ?o = "80 + length (p2pVarint (length ?u))"
  have "p2pReadVarint p 80 = Inr (Some (length ?u, ?o))"
    unfolding ph using p2pReadVarint_at [OF lt lh] to_double_exact [OF le] by simp
  moreover have "slice p ?o (?o + length ?u) = ?u"
    unfolding ph using slice_append_exact [of "hd @ p2pVarint (length ?u)" ?o ?u] lh by simp
  moreover have "getUint32 p (?o + length ?u) True = Inr 0"
    unfolding ph using getUint_le_at [of "hd @ p2pVarint (length ?u) @ ?u" "?o + length ?u" 4 0 "[0]"] lh by simp
  moreover have "getUint32 p 0 True = Inr P2P_PROTOCOL_VERSION"
    unfolding p using getUint_le_at [of "[]" 0 4 P2P_PROTOCOL_VERSION] by (simp add: P2P_PROTOCOL_VERSION_def)
  moreover have "readUint64 p 4 = Inr 0"
    unfolding p using readUint64_at [of ?v 4 0] by simp
  moreover have "length p = ?o + length ?u + 5" "num_add ?o (length ?u) = ?o + length ?u"
    using lh lu by (simp_all add: ph num_add_exact)
  ultimately show ?thesis
    using decode_encode [OF ua]
    by (simp add: p2pParseVersionPayload_def read_subver_def skip_field_def Let_def)
qed

text \<open>The \<open>addr\<close> payload of any list of addresses, each encoded with \<open>p2pEncodeAddr\<close> (time,
  services, canonical IP text, port) behind the CompactSize of their number, is parsed back to
  that list.\<close>

lemma addr_payload_roundtrip:
  assumes "list_all wf_addr as" "mapE addr_wire as = Inr ws" "length as \<le> 2 ^ 53"
  shows "p2pParseAddrPayload (p2pVarint (length as) @ concat ws) = Inr as"
  using assms by (rule addr_payload_parse)

section \<open>Types of the entries\<close>

text \<open>What \<open>addrv2\<close> entries promise to the crawler, network by network.\<close>

definition typed_addr2 :: "addr2 \<Rightarrow> bool" where
  "typed_addr2 a \<longleftrightarrow> d_port a < 65536 \<and> d_time a < 2 ^ 32 \<and>
     (d_network a = js ''ipv4'' \<and> (\<exists>b. length b = 4 \<and> d_ip a = Some (formatIPv4 b) \<and> d_key a = formatIPv4 b)
      \<or> d_network a \<in> {js ''ipv6'', js ''cjdns''}
          \<and> (\<exists>b ip. length b = 16 \<and> formatIPv6 b = Inr ip \<and> d_ip a = Some ip \<and> d_key a = ip)
      \<or> d_network a = js ''i2p'' \<and> (\<exists>b. length b = 32 \<and> d_ip a = None \<and> d_key a = base32Encode b @ js ''.b32.i2p'')
      \<or> d_network a = js ''tor'' \<and> (\<exists>b. length b \<in> {10, 32} \<and> d_ip a = None \<and> d_key a = bytesToHex b))"

lemma addrv2_names_typed:
  assumes "addrv2_names network b = Inr (ip, key)" "ADDRV2_NETWORK_NAMES i = Some network"
    "ADDRV2_NETWORK_LENGTHS i = Some (length b)" "port < 65536" "time < 2 ^ 32"
  shows "typed_addr2 \<lparr>d_network = network, d_ip = ip, d_key = key, d_port = port, d_time = time, d_services = s\<rparr>"
  using assms
  by (auto simp: typed_addr2_def addrv2_names_def ADDRV2_NETWORK_NAMES_def ADDRV2_NETWORK_LENGTHS_def Let_def
      bindE_eq_Inr_iff split: if_splits)

lemma parse_addrv2_rest_typed:
  assumes "array_len payload" "time < 2 ^ 32"
    "parse_addrv2_rest payload time services networkId addrLen offset = Inr (Some (Some a, offset'))"
  shows "typed_addr2 a"
proof -
  let ?o = "num_add offset addrLen"
  obtain port network ip key where r: "getUint16 payload ?o False = Inr port"
      "ADDRV2_NETWORK_NAMES networkId = Some network" "ADDRV2_NETWORK_LENGTHS networkId = Some addrLen"
      "addrv2_names network (slice payload offset ?o) = Inr (ip, key)"
      "a = \<lparr>d_network = network, d_ip = ip, d_key = key, d_port = port, d_time = time, d_services = services\<rparr>"
    and le: "num_add ?o 2 \<le> length payload"
    using assms(3) by (auto simp: parse_addrv2_rest_def Let_def not_less elim!: bindE_InrE split: if_splits option.splits)
  have "length payload < 2 ^ 53" using assms(1) by (simp add: array_len_def)
  from num_add3_le [OF this le] have "length (slice payload offset ?o) = addrLen" by simp
  then show ?thesis
    using addrv2_names_typed [OF r(4,2)] r(3,5) getUint_bound [OF r(1)] assms(2) by simp
qed

lemma parse_addrv2_entry_typed:
  assumes "array_len payload" "parse_addrv2_entry payload offset = Inr (Some (Some a, offset'))"
  shows "typed_addr2 a"
proof -
  obtain time services o1 addrLen o2 where t: "getUint32 payload offset True = Inr time"
    and r: "parse_addrv2_rest payload time services (unat (payload ! o1)) addrLen o2
              = Inr (Some (Some a, offset'))"
    using assms(2) unfolding parse_addrv2_entry_def Let_def
    by (auto elim!: bindE_InrE split: if_splits option.splits)
  have "time < 2 ^ 32" using getUint_bound [OF t] by simp
  from parse_addrv2_rest_typed [OF assms(1) this r] show ?thesis .
qed

lemma parse_addrv2_loop_typed:
  "array_len payload \<Longrightarrow> parse_addrv2_loop payload i count offset out = Inr as \<Longrightarrow> list_all typed_addr2 out \<Longrightarrow>
     list_all typed_addr2 as"
proof (induction payload i count offset out rule: parse_addrv2_loop.induct)
  case (1 payload i count offset out)
  show ?case
  proof (cases "i < count")
    case False
    then show ?thesis using 1(3,4) by (simp add: parse_addrv2_loop.simps [of payload i])
  next
    case True
    then obtain r where r: "parse_addrv2_entry payload offset = Inr r"
      and l: "(case r of None \<Rightarrow> Inr out
           | Some (x, offset') \<Rightarrow> parse_addrv2_loop payload (Suc i) count offset'
                 (case x of None \<Rightarrow> out | Some a \<Rightarrow> out @ [a])) = Inr as"
      using 1(3) [unfolded parse_addrv2_loop.simps [of payload i count offset out]] True by (auto elim!: bindE_InrE)
    show ?thesis
    proof (cases r)
      case None
      then show ?thesis using l 1(4) by simp
    next
      case (Some xo)
      obtain x offset' where xo: "xo = (x, offset')" by (cases xo)
      have "list_all typed_addr2 (case x of None \<Rightarrow> out | Some a \<Rightarrow> out @ [a])"
        using 1(2,4) r Some xo parse_addrv2_entry_typed by (auto split: option.split)
      moreover have "parse_addrv2_loop payload (i + 1) count offset' (case x of None \<Rightarrow> out | Some a \<Rightarrow> out @ [a]) = Inr as"
        using l Some xo by simp
      ultimately show ?thesis by (intro 1(1) [OF _ r Some xo [symmetric] 1(2)]) (use True in simp_all)
    qed
  qed
qed

section \<open>Properties\<close>

text \<open>C11. No payload makes a parser throw: \<open>p2pParseVersionPayload\<close>, \<open>p2pParseAddrPayload\<close> and
  \<open>p2pParseAddrV2Payload\<close> return on every byte sequence a peer may send, however it is
  truncated and whatever counts and lengths it claims.\<close>

theorem parsers_never_throw:
  assumes "array_len payload"
  shows "returns (p2pParseVersionPayload payload) \<and> returns (p2pParseAddrPayload payload)
     \<and> returns (p2pParseAddrV2Payload payload)"
  using p2pParseVersionPayload_returns p2pParseAddrPayload_returns
    p2pParseAddrV2Payload_returns [OF assms] by blast

theorem parsers_never_throw_witness:
  "array_len [253, 255, 255, 7] \<and> returns (p2pParseAddrV2Payload [253, 255, 255, 7])"
  using parsers_never_throw [of "[253, 255, 255, 7]"] by (simp add: array_len_def)

text \<open>C29. A payload cannot inflate the crawl: whatever count it announces, an \<open>addr\<close> payload
  yields at most one entry per 30 bytes and an \<open>addrv2\<close> payload at most one per 13 bytes.\<close>

theorem payload_entry_bound:
  assumes "array_len payload"
    and "p2pParseAddrPayload payload = Inr as" and "p2pParseAddrV2Payload payload = Inr bs"
  shows "30 * length as \<le> length payload \<and> 13 * length bs \<le> length payload"
proof -
  have "30 * length as \<le> length payload"
    using assms(2) by (auto simp: p2pParseAddrPayload_def elim!: bindE_InrE split: option.splits
        dest!: parse_addr_loop_bound p2pReadVarint_progress)
  moreover have "13 * length bs \<le> length payload"
    using assms(3) by (auto simp: p2pParseAddrV2Payload_def elim!: bindE_InrE split: option.splits
        dest!: parse_addrv2_loop_bound [OF assms(1)] p2pReadVarint_progress)
  ultimately show ?thesis ..
qed

theorem payload_entry_bound_witness:
  "\<exists>as bs. p2pParseAddrPayload [255, 1] = Inr as \<and> p2pParseAddrV2Payload [255, 1] = Inr bs
     \<and> 30 * length as \<le> length [255 :: byte, 1] \<and> 13 * length bs \<le> length [255 :: byte, 1]"
proof -
  have "array_len [255, 1]" "p2pParseAddrPayload [255, 1] = Inr []" "p2pParseAddrV2Payload [255, 1] = Inr []"
    by (simp add: array_len_def, code_simp, code_simp)
  then show ?thesis using payload_entry_bound [of "[255, 1]" "[]" "[]"] by blast
qed

lemma sample_ips:
  "p2pEncodeIp (js ''1.2.3.4'') = Inr (mapped_prefix @ [1, 2, 3, 4])"
  "p2pDecodeIp (mapped_prefix @ [1, 2, 3, 4]) = Inr (js ''1.2.3.4'')"
  "p2pEncodeIp (js ''2001:db8::1'') = Inr (32 # 1 # 13 # 184 # replicate 11 0 @ [1])"
  "p2pDecodeIp (32 # 1 # 13 # 184 # replicate 11 0 @ [1]) = Inr (js ''2001:db8::1'')"
proof -
  show d: "p2pDecodeIp (mapped_prefix @ [1, 2, 3, 4]) = Inr (js ''1.2.3.4'')"
    "p2pDecodeIp (32 # 1 # 13 # 184 # replicate 11 0 @ [1]) = Inr (js ''2001:db8::1'')"
    by (code_simp, code_simp)
  show "p2pEncodeIp (js ''1.2.3.4'') = Inr (mapped_prefix @ [1, 2, 3, 4])"
    "p2pEncodeIp (js ''2001:db8::1'') = Inr (32 # 1 # 13 # 184 # replicate 11 0 @ [1])"
    by (rule p2pEncodeIp_text [OF _ d(1)], simp add: mapped_prefix_def,
        rule p2pEncodeIp_text [OF _ d(2)], simp)
qed

definition sample_raw2 :: "raw2 list" where
  "sample_raw2 = [\<lparr>r_time = 5, r_services = 1033, r_network = 1, r_addr = [1, 2, 3, 4], r_port = 5333\<rparr>,
     \<lparr>r_time = 6, r_services = 0, r_network = 9, r_addr = [1, 2], r_port = 1\<rparr>]"

text \<open>C20. The \<open>addrv2\<close> payload of any list of BIP155 entries is parsed to exactly the entries of
  a known network with the length that network prescribes, in order; entries of other networks
  or lengths are skipped without losing the ones behind them.\<close>

theorem addrv2_payload_roundtrip:
  assumes "array_len (p2pVarint (length rs) @ concat (map addrv2_wire rs))" "list_all wf_raw2 rs"
  shows "p2pParseAddrV2Payload (p2pVarint (length rs) @ concat (map addrv2_wire rs))
         = Inr (List.map_filter addrv2_view rs)"
  using assms by (rule addrv2_payload_parse)

theorem addrv2_payload_roundtrip_witness:
  "p2pParseAddrV2Payload (p2pVarint 2 @ concat (map addrv2_wire sample_raw2))
     = Inr [\<lparr>d_network = js ''ipv4'', d_ip = Some (js ''1.2.3.4''), d_key = js ''1.2.3.4'',
             d_port = 5333, d_time = 5, d_services = 1033\<rparr>]"
proof -
  have "array_len (p2pVarint (length sample_raw2) @ concat (map addrv2_wire sample_raw2))"
    "list_all wf_raw2 sample_raw2" by (code_simp, code_simp)
  moreover have "length sample_raw2 = 2" by (simp add: sample_raw2_def)
  moreover have "List.map_filter addrv2_view sample_raw2
     = [\<lparr>d_network = js ''ipv4'', d_ip = Some (js ''1.2.3.4''), d_key = js ''1.2.3.4'',
             d_port = 5333, d_time = 5, d_services = 1033\<rparr>]" by code_simp
  ultimately show ?thesis using addrv2_payload_roundtrip [of sample_raw2] by simp
qed

text \<open>C22. Whatever bytes a peer sends, every entry of a parsed \<open>addrv2\<close> payload is well typed: the
  port and time have their width, the network is one of the five the map knows, an entry has an
  IP exactly for IPv4, IPv6 and CJDNS, and the key is the text of an address of the length the
  network prescribes, in the form of that network.\<close>

theorem addrv2_entries_typed:
  assumes "array_len payload" "p2pParseAddrV2Payload payload = Inr as" "a \<in> set as"
  shows "typed_addr2 a"
proof -
  have "list_all typed_addr2 as"
    using assms(2) parse_addrv2_loop_typed [OF assms(1)]
    by (auto simp: p2pParseAddrV2Payload_def elim!: bindE_InrE split: option.splits)
  then show ?thesis using assms(3) by (simp add: list_all_iff)
qed

theorem addrv2_entries_typed_witness:
  "typed_addr2 \<lparr>d_network = js ''ipv4'', d_ip = Some (js ''1.2.3.4''), d_key = js ''1.2.3.4'',
     d_port = 5333, d_time = 5, d_services = 1033\<rparr>"
proof -
  let ?p = "p2pVarint (length sample_raw2) @ concat (map addrv2_wire sample_raw2)"
  have p: "array_len ?p" "list_all wf_raw2 sample_raw2" by (code_simp, code_simp)
  have v: "\<lparr>d_network = js ''ipv4'', d_ip = Some (js ''1.2.3.4''), d_key = js ''1.2.3.4'',
      d_port = 5333, d_time = 5, d_services = 1033\<rparr> \<in> set (List.map_filter addrv2_view sample_raw2)"
    by code_simp
  show ?thesis by (rule addrv2_entries_typed [OF p(1) addrv2_payload_parse [OF p] v])
qed

text \<open>C30. The \<open>version\<close> payload the crawler builds parses to its own fields: the protocol
  version, no services, the user agent (through UTF-8) and height 0, for every target address
  it can encode.\<close>

theorem version_payload_roundtrip:
  assumes "p2pBuildVersionPayload ip port ua nonce now = Inr p" "length nonce = 8"
    "array_len p" "well_formed ua" "\<not> starts_with_bom ua"
  shows "p2pParseVersionPayload p
         = Inr \<lparr>v_version = P2P_PROTOCOL_VERSION, v_services = 0, v_subver = ua, v_startHeight = 0\<rparr>"
  using assms by (rule version_payload_parse)

theorem version_payload_roundtrip_witness:
  "\<exists>p. p2pBuildVersionPayload (js ''1.2.3.4'') 5333 (js ''/map:1.0/'') (replicate 8 7) 1700000000123 = Inr p
     \<and> p2pParseVersionPayload p
         = Inr \<lparr>v_version = P2P_PROTOCOL_VERSION, v_services = 0, v_subver = js ''/map:1.0/'', v_startHeight = 0\<rparr>"
proof -
  let ?b = "p2pBuildVersionPayload (js ''1.2.3.4'') 5333 (js ''/map:1.0/'') (replicate 8 7) 1700000000123"
  have u: "length (TextEncoder_encode (js ''/map:1.0/'')) = 9"
    by (subst encode_ascii) simp_all
  have "case ?b of Inr p \<Rightarrow> array_len p | Inl _ \<Rightarrow> False"
    by (simp add: p2pBuildVersionPayload_def p2pEncodeAddr_def sample_ips p2pEncodeIp_any Let_def
        array_len_def packUint64_def mapped_prefix_def u length_p2pVarint del: js_simps)
  then obtain p where p: "?b = Inr p" "array_len p" by (auto split: sum.splits)
  have "well_formed (js ''/map:1.0/'')" "\<not> starts_with_bom (js ''/map:1.0/'')" by (code_simp, code_simp)
  then show ?thesis using version_payload_roundtrip [OF p(1) _ p(2)] p(1) by simp
qed

end
