(* ===== verification/Sha256_Rounds.thy ===== *)
theory Sha256_Rounds
  imports Byte_View
begin

text \<open>
  The compression function of \<open>src/src/crypto/sha256.cpp\<close>, unrolled as it is there. The local
  variables \<open>a\<close> to \<open>h\<close> are a list of eight words, \<open>w0\<close> to \<open>w15\<close> a list of sixteen.
  \<open>Round\<close> takes the names of its arguments (two of them are references it assigns to), so
  that the 64 calls can be written as in the source: each names the order of the variables,
  the constant, and the schedule word added to it, which most calls also assign.
\<close>

unbundle bit_operations_syntax

type_synonym u32 = "32 word"
type_synonym u64 = "64 word"

section \<open>One round\<close>

definition Ch :: "u32 \<Rightarrow> u32 \<Rightarrow> u32 \<Rightarrow> u32" where
  "Ch x y z = z XOR (x AND (y XOR z))"

definition Maj :: "u32 \<Rightarrow> u32 \<Rightarrow> u32 \<Rightarrow> u32" where
  "Maj x y z = (x AND y) OR (z AND (x OR y))"

definition Sigma0 :: "u32 \<Rightarrow> u32" where
  "Sigma0 x = (drop_bit 2 x OR push_bit 30 x) XOR (drop_bit 13 x OR push_bit 19 x)
                XOR (drop_bit 22 x OR push_bit 10 x)"

definition Sigma1 :: "u32 \<Rightarrow> u32" where
  "Sigma1 x = (drop_bit 6 x OR push_bit 26 x) XOR (drop_bit 11 x OR push_bit 21 x)
                XOR (drop_bit 25 x OR push_bit 7 x)"

definition sigma0 :: "u32 \<Rightarrow> u32" where
  "sigma0 x = (drop_bit 7 x OR push_bit 25 x) XOR (drop_bit 18 x OR push_bit 14 x) XOR drop_bit 3 x"

definition sigma1 :: "u32 \<Rightarrow> u32" where
  "sigma1 x = (drop_bit 17 x OR push_bit 15 x) XOR (drop_bit 19 x OR push_bit 13 x) XOR drop_bit 10 x"

type_synonym names = "nat list"

definition Round :: "names \<Rightarrow> u32 \<Rightarrow> u32 list \<Rightarrow> u32 list" where
  "Round r k v =
     (let a = v ! (r ! 0); b = v ! (r ! 1); c = v ! (r ! 2); d = v ! (r ! 3);
          e = v ! (r ! 4); f = v ! (r ! 5); g = v ! (r ! 6); h = v ! (r ! 7);
          t1 = h + Sigma1 e + Ch e f g + k;
          t2 = Sigma0 a + Maj a b c
      in v[r ! 3 := d + t1, r ! 7 := t1 + t2])"

definition abcdefgh :: names where "abcdefgh = [0, 1, 2, 3, 4, 5, 6, 7]"
definition habcdefg :: names where "habcdefg = [7, 0, 1, 2, 3, 4, 5, 6]"
definition ghabcdef :: names where "ghabcdef = [6, 7, 0, 1, 2, 3, 4, 5]"
definition fghabcde :: names where "fghabcde = [5, 6, 7, 0, 1, 2, 3, 4]"
definition efghabcd :: names where "efghabcd = [4, 5, 6, 7, 0, 1, 2, 3]"
definition defghabc :: names where "defghabc = [3, 4, 5, 6, 7, 0, 1, 2]"
definition cdefghab :: names where "cdefghab = [2, 3, 4, 5, 6, 7, 0, 1]"
definition bcdefgha :: names where "bcdefgha = [1, 2, 3, 4, 5, 6, 7, 0]"

lemmas names_defs = abcdefgh_def habcdefg_def ghabcdef_def fghabcde_def
  efghabcd_def defghabc_def cdefghab_def bcdefgha_def

text \<open>The word added to the constant: none, an expression, or one that is assigned by \<open>=\<close> or \<open>+=\<close>.\<close>

type_synonym operand = "u32 list \<Rightarrow> u32 \<times> u32 list"

definition w_none :: operand where
  "w_none w = (0, w)"

definition w_use :: "(u32 list \<Rightarrow> u32) \<Rightarrow> operand" where
  "w_use x w = (x w, w)"

definition w_set :: "nat \<Rightarrow> (u32 list \<Rightarrow> u32) \<Rightarrow> operand" where
  "w_set i x w = (x w, w[i := x w])"

definition w_add :: "nat \<Rightarrow> (u32 list \<Rightarrow> u32) \<Rightarrow> operand" where
  "w_add i x w = (let y = w ! i + x w in (y, w[i := y]))"

lemmas operand_defs = w_none_def w_use_def w_set_def w_add_def

type_synonym round_call = "names \<times> u32 \<times> operand"

fun rounds :: "round_call list \<Rightarrow> u32 list \<times> u32 list \<Rightarrow> u32 list \<times> u32 list" where
  "rounds [] (v, w) = (v, w)"
| "rounds ((r, k, x) # cs) (v, w) = (case x w of (y, w') \<Rightarrow> rounds cs (Round r (k + y) v, w'))"

section \<open>\<open>Initialize\<close> and \<open>Transform\<close>\<close>

definition sha256_init :: "u32 list" where
  "sha256_init =
     [0x6a09e667, 0xbb67ae85, 0x3c6ef372, 0xa54ff53a, 0x510e527f, 0x9b05688c, 0x1f83d9ab, 0x5be0cd19]"

definition ReadBE32 :: "bytes \<Rightarrow> u32" where
  "ReadBE32 bs = word_of_nat (be_val (take 4 bs))"

definition WriteBE32 :: "u32 \<Rightarrow> bytes" where
  "WriteBE32 x = be_bytes 4 (unat x)"

text \<open>The first sixteen calls, which read the block.\<close>

definition load_calls :: "bytes \<Rightarrow> round_call list" where
  "load_calls chunk = [
      (abcdefgh, 0x428a2f98, w_set 0 (\<lambda>_. ReadBE32 (drop 0 chunk))),
      (habcdefg, 0x71374491, w_set 1 (\<lambda>_. ReadBE32 (drop 4 chunk))),
      (ghabcdef, 0xb5c0fbcf, w_set 2 (\<lambda>_. ReadBE32 (drop 8 chunk))),
      (fghabcde, 0xe9b5dba5, w_set 3 (\<lambda>_. ReadBE32 (drop 12 chunk))),
      (efghabcd, 0x3956c25b, w_set 4 (\<lambda>_. ReadBE32 (drop 16 chunk))),
      (defghabc, 0x59f111f1, w_set 5 (\<lambda>_. ReadBE32 (drop 20 chunk))),
      (cdefghab, 0x923f82a4, w_set 6 (\<lambda>_. ReadBE32 (drop 24 chunk))),
      (bcdefgha, 0xab1c5ed5, w_set 7 (\<lambda>_. ReadBE32 (drop 28 chunk))),
      (abcdefgh, 0xd807aa98, w_set 8 (\<lambda>_. ReadBE32 (drop 32 chunk))),
      (habcdefg, 0x12835b01, w_set 9 (\<lambda>_. ReadBE32 (drop 36 chunk))),
      (ghabcdef, 0x243185be, w_set 10 (\<lambda>_. ReadBE32 (drop 40 chunk))),
      (fghabcde, 0x550c7dc3, w_set 11 (\<lambda>_. ReadBE32 (drop 44 chunk))),
      (efghabcd, 0x72be5d74, w_set 12 (\<lambda>_. ReadBE32 (drop 48 chunk))),
      (defghabc, 0x80deb1fe, w_set 13 (\<lambda>_. ReadBE32 (drop 52 chunk))),
      (cdefghab, 0x9bdc06a7, w_set 14 (\<lambda>_. ReadBE32 (drop 56 chunk))),
      (bcdefgha, 0xc19bf174, w_set 15 (\<lambda>_. ReadBE32 (drop 60 chunk)))]"

text \<open>Calls 17 to 32.\<close>

definition mix_calls1 :: "round_call list" where
  "mix_calls1 = [
      (abcdefgh, 0xe49b69c1, w_add 0 (\<lambda>w. sigma1 (w ! 14) + w ! 9 + sigma0 (w ! 1))),
      (habcdefg, 0xefbe4786, w_add 1 (\<lambda>w. sigma1 (w ! 15) + w ! 10 + sigma0 (w ! 2))),
      (ghabcdef, 0x0fc19dc6, w_add 2 (\<lambda>w. sigma1 (w ! 0) + w ! 11 + sigma0 (w ! 3))),
      (fghabcde, 0x240ca1cc, w_add 3 (\<lambda>w. sigma1 (w ! 1) + w ! 12 + sigma0 (w ! 4))),
      (efghabcd, 0x2de92c6f, w_add 4 (\<lambda>w. sigma1 (w ! 2) + w ! 13 + sigma0 (w ! 5))),
      (defghabc, 0x4a7484aa, w_add 5 (\<lambda>w. sigma1 (w ! 3) + w ! 14 + sigma0 (w ! 6))),
      (cdefghab, 0x5cb0a9dc, w_add 6 (\<lambda>w. sigma1 (w ! 4) + w ! 15 + sigma0 (w ! 7))),
      (bcdefgha, 0x76f988da, w_add 7 (\<lambda>w. sigma1 (w ! 5) + w ! 0 + sigma0 (w ! 8))),
      (abcdefgh, 0x983e5152, w_add 8 (\<lambda>w. sigma1 (w ! 6) + w ! 1 + sigma0 (w ! 9))),
      (habcdefg, 0xa831c66d, w_add 9 (\<lambda>w. sigma1 (w ! 7) + w ! 2 + sigma0 (w ! 10))),
      (ghabcdef, 0xb00327c8, w_add 10 (\<lambda>w. sigma1 (w ! 8) + w ! 3 + sigma0 (w ! 11))),
      (fghabcde, 0xbf597fc7, w_add 11 (\<lambda>w. sigma1 (w ! 9) + w ! 4 + sigma0 (w ! 12))),
      (efghabcd, 0xc6e00bf3, w_add 12 (\<lambda>w. sigma1 (w ! 10) + w ! 5 + sigma0 (w ! 13))),
      (defghabc, 0xd5a79147, w_add 13 (\<lambda>w. sigma1 (w ! 11) + w ! 6 + sigma0 (w ! 14))),
      (cdefghab, 0x06ca6351, w_add 14 (\<lambda>w. sigma1 (w ! 12) + w ! 7 + sigma0 (w ! 15))),
      (bcdefgha, 0x14292967, w_add 15 (\<lambda>w. sigma1 (w ! 13) + w ! 8 + sigma0 (w ! 0)))]"

text \<open>Calls 33 to 64.\<close>

definition mix_calls2 :: "round_call list" where
  "mix_calls2 = [
      (abcdefgh, 0x27b70a85, w_add 0 (\<lambda>w. sigma1 (w ! 14) + w ! 9 + sigma0 (w ! 1))),
      (habcdefg, 0x2e1b2138, w_add 1 (\<lambda>w. sigma1 (w ! 15) + w ! 10 + sigma0 (w ! 2))),
      (ghabcdef, 0x4d2c6dfc, w_add 2 (\<lambda>w. sigma1 (w ! 0) + w ! 11 + sigma0 (w ! 3))),
      (fghabcde, 0x53380d13, w_add 3 (\<lambda>w. sigma1 (w ! 1) + w ! 12 + sigma0 (w ! 4))),
      (efghabcd, 0x650a7354, w_add 4 (\<lambda>w. sigma1 (w ! 2) + w ! 13 + sigma0 (w ! 5))),
      (defghabc, 0x766a0abb, w_add 5 (\<lambda>w. sigma1 (w ! 3) + w ! 14 + sigma0 (w ! 6))),
      (cdefghab, 0x81c2c92e, w_add 6 (\<lambda>w. sigma1 (w ! 4) + w ! 15 + sigma0 (w ! 7))),
      (bcdefgha, 0x92722c85, w_add 7 (\<lambda>w. sigma1 (w ! 5) + w ! 0 + sigma0 (w ! 8))),
      (abcdefgh, 0xa2bfe8a1, w_add 8 (\<lambda>w. sigma1 (w ! 6) + w ! 1 + sigma0 (w ! 9))),
      (habcdefg, 0xa81a664b, w_add 9 (\<lambda>w. sigma1 (w ! 7) + w ! 2 + sigma0 (w ! 10))),
      (ghabcdef, 0xc24b8b70, w_add 10 (\<lambda>w. sigma1 (w ! 8) + w ! 3 + sigma0 (w ! 11))),
      (fghabcde, 0xc76c51a3, w_add 11 (\<lambda>w. sigma1 (w ! 9) + w ! 4 + sigma0 (w ! 12))),
      (efghabcd, 0xd192e819, w_add 12 (\<lambda>w. sigma1 (w ! 10) + w ! 5 + sigma0 (w ! 13))),
      (defghabc, 0xd6990624, w_add 13 (\<lambda>w. sigma1 (w ! 11) + w ! 6 + sigma0 (w ! 14))),
      (cdefghab, 0xf40e3585, w_add 14 (\<lambda>w. sigma1 (w ! 12) + w ! 7 + sigma0 (w ! 15))),
      (bcdefgha, 0x106aa070, w_add 15 (\<lambda>w. sigma1 (w ! 13) + w ! 8 + sigma0 (w ! 0))),
      (abcdefgh, 0x19a4c116, w_add 0 (\<lambda>w. sigma1 (w ! 14) + w ! 9 + sigma0 (w ! 1))),
      (habcdefg, 0x1e376c08, w_add 1 (\<lambda>w. sigma1 (w ! 15) + w ! 10 + sigma0 (w ! 2))),
      (ghabcdef, 0x2748774c, w_add 2 (\<lambda>w. sigma1 (w ! 0) + w ! 11 + sigma0 (w ! 3))),
      (fghabcde, 0x34b0bcb5, w_add 3 (\<lambda>w. sigma1 (w ! 1) + w ! 12 + sigma0 (w ! 4))),
      (efghabcd, 0x391c0cb3, w_add 4 (\<lambda>w. sigma1 (w ! 2) + w ! 13 + sigma0 (w ! 5))),
      (defghabc, 0x4ed8aa4a, w_add 5 (\<lambda>w. sigma1 (w ! 3) + w ! 14 + sigma0 (w ! 6))),
      (cdefghab, 0x5b9cca4f, w_add 6 (\<lambda>w. sigma1 (w ! 4) + w ! 15 + sigma0 (w ! 7))),
      (bcdefgha, 0x682e6ff3, w_add 7 (\<lambda>w. sigma1 (w ! 5) + w ! 0 + sigma0 (w ! 8))),
      (abcdefgh, 0x748f82ee, w_add 8 (\<lambda>w. sigma1 (w ! 6) + w ! 1 + sigma0 (w ! 9))),
      (habcdefg, 0x78a5636f, w_add 9 (\<lambda>w. sigma1 (w ! 7) + w ! 2 + sigma0 (w ! 10))),
      (ghabcdef, 0x84c87814, w_add 10 (\<lambda>w. sigma1 (w ! 8) + w ! 3 + sigma0 (w ! 11))),
      (fghabcde, 0x8cc70208, w_add 11 (\<lambda>w. sigma1 (w ! 9) + w ! 4 + sigma0 (w ! 12))),
      (efghabcd, 0x90befffa, w_add 12 (\<lambda>w. sigma1 (w ! 10) + w ! 5 + sigma0 (w ! 13))),
      (defghabc, 0xa4506ceb, w_add 13 (\<lambda>w. sigma1 (w ! 11) + w ! 6 + sigma0 (w ! 14))),
      (cdefghab, 0xbef9a3f7, w_use (\<lambda>w. w ! 14 + sigma1 (w ! 12) + w ! 7 + sigma0 (w ! 15))),
      (bcdefgha, 0xc67178f2, w_use (\<lambda>w. w ! 15 + sigma1 (w ! 13) + w ! 8 + sigma0 (w ! 0)))]"

text \<open>\<open>w0\<close> to \<open>w15\<close> are uninitialised at first; every one is assigned before it is read.\<close>

definition Transform1 :: "u32 list \<Rightarrow> bytes \<Rightarrow> u32 list" where
  "Transform1 s chunk =
     (let (v, w) = rounds (load_calls chunk @ mix_calls1 @ mix_calls2) (s, replicate 16 0)
      in map2 (+) s v)"

primrec Transform :: "u32 list \<Rightarrow> bytes \<Rightarrow> nat \<Rightarrow> u32 list" where
  "Transform s chunk 0 = s"
| "Transform s chunk (Suc blocks) = Transform (Transform1 s (take 64 chunk)) (drop 64 chunk) blocks"

lemma length_Round [simp]: "length (Round r k v) = length v"
  by (simp add: Round_def Let_def)

lemma length_rounds [simp]: "length (fst (rounds cs (v, w))) = length v"
  by (induction cs "(v, w)" arbitrary: v w rule: rounds.induct) (auto split: prod.split)

lemma length_Transform1 [simp]: "length (Transform1 s chunk) = length s"
  using length_rounds [of "load_calls chunk @ mix_calls1 @ mix_calls2" s "replicate 16 0"]
  by (simp add: Transform1_def split_beta del: length_rounds)

lemma length_Transform [simp]: "length (Transform s chunk n) = length s"
  by (induction n arbitrary: s chunk) auto

lemma Transform_add:
  "Transform s chunk (m + n) = Transform (Transform s chunk m) (drop (64 * m) chunk) n"
  by (induction m arbitrary: s chunk) (auto simp: add.commute)

lemma Transform_prefix: "64 * n \<le> length xs \<Longrightarrow> Transform s (xs @ ys) n = Transform s xs n"
  by (induction n arbitrary: s xs) auto

end
