(* ===== verification/Sha256.thy ===== *)
theory Sha256
  imports Sha256_Rounds
begin

text \<open>
  The streaming hasher \<open>CSHA256\<close> of \<open>src/src/crypto/sha256.cpp\<close>, with its 64-byte buffer and
  64-bit length counter. \<open>sha256\<close> is the one-shot hash (pad, cut into blocks, compress), the
  function that \<open>crypto.subtle.digest('SHA-256', _)\<close> computes. The result is that a
  \<open>CSHA256\<close> fed any sequence of writes finalises to \<open>sha256\<close> of their concatenation.
\<close>

section \<open>The one-shot hash\<close>

definition pad :: "nat \<Rightarrow> bytes" where
  "pad n = 0x80 # replicate ((119 - n mod 64) mod 64) 0 @ be_bytes 8 (8 * n)"

definition sha256 :: "bytes \<Rightarrow> bytes" where
  "sha256 d =
     (let m = d @ pad (length d)
      in concat (map WriteBE32 (Transform sha256_init m (length m div 64))))"

lemma length_sha256 [simp, len_simps]: "length (sha256 d) = 32"
proof -
  have "length (concat (map WriteBE32 ws)) = 4 * length ws" for ws
    by (induction ws) (auto simp: WriteBE32_def)
  then show ?thesis by (simp add: sha256_def Let_def) (simp add: sha256_init_def)
qed

section \<open>The streaming hasher\<close>

record csha256 =
  sha_s :: "u32 list"
  sha_buf :: bytes
  sha_bytes :: u64

definition CSHA256 :: csha256 where
  "CSHA256 = \<lparr>sha_s = sha256_init, sha_buf = replicate 64 0, sha_bytes = 0\<rparr>"

definition memcpy :: "bytes \<Rightarrow> nat \<Rightarrow> bytes \<Rightarrow> bytes" where
  "memcpy dst off src = take off dst @ src @ drop (off + length src) dst"

text \<open>The three steps of \<open>CSHA256::Write\<close>: top up the buffer, whole blocks, the remainder.\<close>

definition write_fill :: "csha256 \<Rightarrow> bytes \<Rightarrow> csha256 \<times> bytes \<times> nat" where
  "write_fill c data =
     (let bufsize = unat (sha_bytes c) mod 64
      in if bufsize \<noteq> 0 \<and> 64 \<le> bufsize + length data then
           (let b = memcpy (sha_buf c) bufsize (take (64 - bufsize) data)
            in (c\<lparr>sha_s := Transform (sha_s c) b 1, sha_buf := b, sha_bytes := sha_bytes c + of_nat (64 - bufsize)\<rparr>,
                drop (64 - bufsize) data, 0))
         else (c, data, bufsize))"

definition write_blocks :: "csha256 \<Rightarrow> bytes \<Rightarrow> csha256 \<times> bytes" where
  "write_blocks c data =
     (if 64 \<le> length data then
        (let blocks = length data div 64
         in (c\<lparr>sha_s := Transform (sha_s c) data blocks, sha_bytes := sha_bytes c + of_nat (64 * blocks)\<rparr>,
             drop (64 * blocks) data))
      else (c, data))"

definition write_rest :: "csha256 \<Rightarrow> bytes \<Rightarrow> nat \<Rightarrow> csha256" where
  "write_rest c data bufsize =
     (if data \<noteq> [] then
        c\<lparr>sha_buf := memcpy (sha_buf c) bufsize data, sha_bytes := sha_bytes c + of_nat (length data)\<rparr>
      else c)"

definition Write :: "csha256 \<Rightarrow> bytes \<Rightarrow> csha256" where
  "Write c data =
     (let (c1, data1, bufsize) = write_fill c data;
          (c2, data2) = write_blocks c1 data1
      in write_rest c2 data2 bufsize)"

definition Finalize :: "csha256 \<Rightarrow> bytes" where
  "Finalize c =
     (let sizedesc = be_bytes 8 (unat (push_bit 3 (sha_bytes c)));
          c1 = Write c (take (1 + (119 - unat (sha_bytes c) mod 64) mod 64) (0x80 # replicate 63 0));
          c2 = Write c1 sizedesc
      in concat (map WriteBE32 (sha_s c2)))"

definition Reset :: "csha256 \<Rightarrow> csha256" where
  "Reset c = c\<lparr>sha_bytes := 0, sha_s := sha256_init\<rparr>"

text \<open>A hasher has absorbed \<open>d\<close>: whole blocks are compressed, the rest waits in the buffer.\<close>

definition absorbed :: "csha256 \<Rightarrow> bytes \<Rightarrow> bool" where
  "absorbed c d \<longleftrightarrow>
     sha_s c = Transform sha256_init d (length d div 64)
     \<and> length (sha_buf c) = 64
     \<and> take (length d mod 64) (sha_buf c) = drop (64 * (length d div 64)) d
     \<and> sha_bytes c = of_nat (length d)"

lemma length_memcpy: "off + length src \<le> length dst \<Longrightarrow> length (memcpy dst off src) = length dst"
  by (simp add: memcpy_def)

lemma nbytes_mod64: "unat (of_nat n :: u64) mod 64 = n mod 64"
proof -
  have "unat (of_nat n :: u64) = n mod 2 ^ 64" by (simp add: unat_of_nat)
  moreover have "(64 :: nat) dvd 2 ^ 64" by simp
  ultimately show ?thesis by (metis mod_mod_cancel)
qed

text \<open>The same with the absorbed bytes cut into the compressed part and the buffered part.\<close>

definition absorbs :: "csha256 \<Rightarrow> bytes \<Rightarrow> bytes \<Rightarrow> bool" where
  "absorbs c D r \<longleftrightarrow>
     64 dvd length D \<and> length r < 64
     \<and> sha_s c = Transform sha256_init D (length D div 64)
     \<and> length (sha_buf c) = 64 \<and> take (length r) (sha_buf c) = r
     \<and> sha_bytes c = of_nat (length D + length r)"

lemma absorbed_absorbs:
  "absorbed c d \<Longrightarrow> absorbs c (take (64 * (length d div 64)) d) (drop (64 * (length d div 64)) d)"
proof -
  assume a: "absorbed c d"
  let ?q = "length d div 64"
  have le: "64 * ?q \<le> length d" by simp
  have dec: "d = take (64 * ?q) d @ drop (64 * ?q) d" by simp
  have "Transform sha256_init d ?q = Transform sha256_init (take (64 * ?q) d) ?q"
    by (subst dec, rule Transform_prefix) (use le in simp)
  moreover have "length d - 64 * ?q = length d mod 64" by (simp add: minus_mult_div_eq_mod)
  ultimately show ?thesis
    using a le by (simp add: absorbs_def absorbed_def min_absorb2)
qed

lemma absorbs_absorbed: "absorbs c D r \<Longrightarrow> absorbed c (D @ r)"
proof -
  assume a: "absorbs c D r"
  then obtain q where q: "length D = 64 * q" by (auto simp: absorbs_def)
  have "(64 * q + length r) div 64 = q" "(64 * q + length r) mod 64 = length r"
    using a by (simp_all add: absorbs_def)
  then show ?thesis
    using a q Transform_prefix [of q D sha256_init r] by (simp add: absorbs_def absorbed_def)
qed

lemma Transform_snoc:
  "length D = 64 * q \<Longrightarrow> Transform s (D @ x) (q + n) = Transform (Transform s D q) x n"
  using Transform_prefix [of q D s x] by (simp only: Transform_add) simp

lemma absorbs_bufsize: "absorbs c D r \<Longrightarrow> unat (sha_bytes c) mod 64 = length r"
  by (auto simp: absorbs_def nbytes_mod64 simp del: of_nat_add)

lemma write_fill_absorbs:
  assumes "absorbs c D r" "r \<noteq> []" "64 \<le> length r + length x"
  obtains c' where "write_fill c x = (c', drop (64 - length r) x, 0)"
    and "absorbs c' (D @ r @ take (64 - length r) x) []"
proof -
  let ?t = "take (64 - length r) x"
  let ?b = "memcpy (sha_buf c) (length r) ?t"
  let ?c = "c\<lparr>sha_s := Transform (sha_s c) ?b 1, sha_buf := ?b, sha_bytes := sha_bytes c + of_nat (64 - length r)\<rparr>"
  obtain q where q: "length D = 64 * q" using assms(1) by (auto simp: absorbs_def)
  have b: "?b = r @ ?t" and lb: "length (r @ ?t) = 64"
    using assms by (auto simp: memcpy_def absorbs_def)
  have "Transform sha256_init (D @ r @ ?t) (q + 1) = Transform (Transform sha256_init D q) (r @ ?t) 1"
    using q by (rule Transform_snoc)
  then have "absorbs ?c (D @ r @ ?t) []"
    using assms q b lb by (auto simp: absorbs_def)
  moreover have "write_fill c x = (?c, drop (64 - length r) x, 0)"
    using assms absorbs_bufsize [OF assms(1)] by (simp add: write_fill_def Let_def)
  ultimately show ?thesis by (rule that [rotated])
qed

lemma write_blocks_absorbs:
  assumes "absorbs c D []"
  obtains c' where "write_blocks c x = (c', drop (64 * (length x div 64)) x)"
    and "absorbs c' (D @ take (64 * (length x div 64)) x) []"
proof (cases "64 \<le> length x")
  case True
  let ?n = "length x div 64"
  let ?t = "take (64 * ?n) x"
  let ?c = "c\<lparr>sha_s := Transform (sha_s c) x ?n, sha_bytes := sha_bytes c + of_nat (64 * ?n)\<rparr>"
  obtain q where q: "length D = 64 * q" using assms by (auto simp: absorbs_def)
  have lt: "length ?t = 64 * ?n" by simp
  have "Transform sha256_init (D @ ?t) (q + ?n) = Transform (Transform sha256_init D q) ?t ?n"
    using q by (rule Transform_snoc)
  also have "\<dots> = Transform (Transform sha256_init D q) x ?n"
    using Transform_prefix [of ?n ?t _ "drop (64 * ?n) x"] lt by simp
  finally have "absorbs ?c (D @ ?t) []"
    using assms q lt by (auto simp: absorbs_def)
  moreover have "write_blocks c x = (?c, drop (64 * ?n) x)"
    using True by (simp add: write_blocks_def Let_def)
  ultimately show ?thesis by (rule that [rotated])
next
  case False
  then show ?thesis using assms by (intro that [of c]) (simp_all add: write_blocks_def)
qed

lemma write_rest_absorbs:
  assumes "absorbs c D r" "length r + length x < 64"
  shows "absorbs (write_rest c x (length r)) D (r @ x)"
proof (cases "x = []")
  case False
  then show ?thesis
    using assms by (auto simp: absorbs_def write_rest_def memcpy_def)
qed (use assms in \<open>simp add: write_rest_def\<close>)

lemma absorbed_Write: "absorbed c d \<Longrightarrow> absorbed (Write c x) (d @ x)"
proof -
  assume "absorbed c d"
  then obtain D r where d: "d = D @ r" and a: "absorbs c D r"
    using absorbed_absorbs by (metis append_take_drop_id)
  show ?thesis
  proof (cases "r \<noteq> [] \<and> length r + length x < 64")
    case True
    then have "write_fill c x = (c, x, length r)" "write_blocks c x = (c, x)"
      using absorbs_bufsize [OF a] by (auto simp: write_fill_def write_blocks_def Let_def)
    then have "absorbs (Write c x) D (r @ x)"
      using write_rest_absorbs [OF a] True by (simp add: Write_def)
    then show ?thesis using absorbs_absorbed d by fastforce
  next
    case False
    obtain c1 y where f: "write_fill c x = (c1, drop (length y) x, 0)"
      and a1: "absorbs c1 (D @ r @ y) []" and y: "y = take (length y) x"
    proof (cases "r = []")
      case True
      then show ?thesis
        using a absorbs_bufsize [OF a] that [of c "[]"] by (simp add: write_fill_def Let_def)
    next
      case r: False
      obtain c' where "write_fill c x = (c', drop (64 - length r) x, 0)"
        "absorbs c' (D @ r @ take (64 - length r) x) []"
        using write_fill_absorbs [OF a r, of x] False r by auto
      then show ?thesis
        using that [of c' "take (64 - length r) x"] False r
        by (auto simp: min_def split: if_splits)
    qed
    let ?z = "drop (length y) x"
    let ?k = "64 * (length ?z div 64)"
    obtain c2 where b: "write_blocks c1 ?z = (c2, drop ?k ?z)"
      and a2: "absorbs c2 ((D @ r @ y) @ take ?k ?z) []"
      using write_blocks_absorbs [OF a1, of ?z] by blast
    have "length (drop ?k ?z) = length ?z mod 64"
      by (simp only: length_drop) (rule minus_mult_div_eq_mod)
    then have "length (drop ?k ?z) < 64" by simp
    then have "absorbs (Write c x) ((D @ r @ y) @ take ?k ?z) (drop ?k ?z)"
      using write_rest_absorbs [OF a2, of "drop ?k ?z"] f b by (simp add: Write_def)
    from absorbs_absorbed [OF this]
    have "absorbed (Write c x) (D @ r @ y @ ?z)" by (simp del: drop_drop)
    moreover have "y @ ?z = x" by (subst y) (rule append_take_drop_id)
    ultimately show ?thesis using d by simp
  qed
qed

lemma absorbed_CSHA256: "absorbed CSHA256 []"
  by (simp add: absorbed_def CSHA256_def)

lemma absorbed_writes: "absorbed c d \<Longrightarrow> absorbed (fold (\<lambda>x c. Write c x) xs c) (d @ concat xs)"
proof (induction xs arbitrary: c d)
  case (Cons x xs)
  then show ?case using absorbed_Write [of c d x] by fastforce
qed simp

lemma take_0x80: "n < 64 \<Longrightarrow> take (1 + n) ((0x80 :: byte) # replicate 63 0) = 0x80 # replicate n 0"
  by (simp add: min_def)

lemma Finalize_absorbed:
  assumes "absorbed c d"
  shows "Finalize c = sha256 d"
proof -
  let ?n = "length d"
  have nb: "sha_bytes c = of_nat ?n" using assms by (simp add: absorbed_def)
  have "unat (push_bit 3 (of_nat ?n :: u64)) = 8 * ?n mod 256 ^ 8"
  proof -
    have "push_bit 3 (of_nat ?n :: u64) = of_nat (8 * ?n)"
      by (simp add: push_bit_eq_mult)
    then have "unat (push_bit 3 (of_nat ?n :: u64)) = unat (of_nat (8 * ?n) :: u64)"
      by (rule arg_cong)
    also have "\<dots> = 8 * ?n mod 2 ^ 64" by (subst unat_of_nat) simp
    finally show ?thesis by simp
  qed
  moreover have "be_bytes 8 (8 * ?n mod 256 ^ 8) = be_bytes 8 (8 * ?n)"
    by (metis be_bytes_be_val be_val_be_bytes length_be_bytes)
  ultimately have sd: "be_bytes 8 (unat (push_bit 3 (sha_bytes c))) = be_bytes 8 (8 * ?n)"
    by (simp only: nb)
  let ?p = "0x80 # replicate ((119 - ?n mod 64) mod 64) 0 :: bytes"
  have tp: "take (1 + (119 - unat (sha_bytes c) mod 64) mod 64) (0x80 # replicate 63 0) = ?p"
    by (subst take_0x80) (simp_all add: nb nbytes_mod64)
  let ?c2 = "Write (Write c ?p) (be_bytes 8 (8 * ?n))"
  have "absorbed ?c2 ((d @ ?p) @ be_bytes 8 (8 * ?n))"
    using assms by (intro absorbed_Write)
  then have "sha_s ?c2 = Transform sha256_init (d @ pad ?n) (length (d @ pad ?n) div 64)"
    by (simp add: absorbed_def pad_def)
  then show ?thesis
    by (simp only: Finalize_def sha256_def Let_def sd tp)
qed

lemma absorbed_Reset: "absorbed c d \<Longrightarrow> absorbed (Reset c) []"
  by (simp add: absorbed_def Reset_def)

text \<open>C14. The streaming hasher of the node computes SHA-256: whatever sequence of writes it is
  fed, \<open>Finalize\<close> returns the hash of the concatenation, so the buffering of partial
  blocks and the order of the three steps of \<open>Write\<close> do not show in the digest; after
  \<open>Reset\<close> nothing of earlier writes shows either.
\<close>

theorem CSHA256_streaming:
  "Finalize (fold (\<lambda>x c. Write c x) xs CSHA256) = sha256 (concat xs)
   \<and> Finalize (fold (\<lambda>x c. Write c x) xs (Reset (fold (\<lambda>x c. Write c x) ys CSHA256))) = sha256 (concat xs)"
  using Finalize_absorbed [OF absorbed_writes [OF absorbed_CSHA256, of xs]]
    Finalize_absorbed [OF absorbed_writes [OF absorbed_Reset [OF absorbed_writes [OF absorbed_CSHA256, of ys]], of xs]]
  by simp

end
