(* ===== verification/P2p_Message.thy ===== *)
theory P2p_Message
  imports P2p_Payload Sha256
begin

text \<open>
  Message framing (\<open>worker/src/protocol.js\<close>): \<open>p2pPackMessage\<close> puts magic, command, length
  and checksum in front of a payload, \<open>p2pTryExtractMessage\<close> finds the next intact message
  in a growing receive buffer. \<open>extract_all\<close> is the loop of the crawler that takes messages
  out until none is complete. The main result is that a stream gives the same messages
  however the network cuts it into chunks.
\<close>

section \<open>Packing\<close>

definition P2P_MAGIC :: bytes where
  "P2P_MAGIC = [0xe1, 0xec, 0x7a, 0x6e]"

definition p2pChecksum :: "bytes \<Rightarrow> bytes" where
  "p2pChecksum payload = (let once = sha256 payload; twice = sha256 once in slice twice 0 4)"

definition pack_command :: "jsstr \<Rightarrow> bytes" where
  "pack_command command =
     (let cmdBytes = slice (TextEncoder_encode command) 0 12
      in cmdBytes @ replicate (12 - length cmdBytes) 0)"

definition p2pPackMessage :: "jsstr \<Rightarrow> bytes \<Rightarrow> bytes" where
  "p2pPackMessage command payload =
     concatBytes [P2P_MAGIC, pack_command command, le_bytes 4 (length payload),
                  p2pChecksum payload, payload]"

section \<open>Extracting\<close>

record message =
  m_command :: jsstr
  m_payload :: bytes

fun indexOfMagic_from :: "nat \<Rightarrow> bytes \<Rightarrow> nat option" where
  "indexOfMagic_from i [] = None"
| "indexOfMagic_from i (b # bs) =
     (if length (b # bs) < 4 then None
      else if take 4 (b # bs) = P2P_MAGIC then Some i
      else indexOfMagic_from (i + 1) bs)"

definition indexOfMagic :: "bytes \<Rightarrow> nat option" where
  "indexOfMagic buf = indexOfMagic_from 0 buf"

text \<open>\<open>replace(/\\0+$/, '')\<close>\<close>

definition strip_nuls :: "jsstr \<Rightarrow> jsstr" where
  "strip_nuls s = rev (dropWhile (\<lambda>c. c = 0) (rev s))"

function p2pTryExtractMessage :: "bytes \<Rightarrow> (message option \<times> bytes) res" where
  "p2pTryExtractMessage buf0 =
     (case indexOfMagic buf0 of
        None \<Rightarrow> Inr (None, if 3 < length buf0 then drop (length buf0 - 3) buf0 else buf0)
      | Some pos \<Rightarrow>
          (let buf = drop pos buf0
           in if length buf < 24 then Inr (None, buf)
              else
                (let cmd = strip_nuls (TextDecoder_decode (slice buf 4 16))
                 in bindE (getUint32 buf 16 True) (\<lambda>msgLen.
                    let checksum = slice buf 20 24
                    in if 4000000 < msgLen then p2pTryExtractMessage (drop 4 buf)
                       else if length buf < 24 + msgLen then Inr (None, buf)
                       else
                         (let payload = slice buf 24 (24 + msgLen);
                              expected = p2pChecksum payload
                          in if \<not> bytesEqual checksum expected then p2pTryExtractMessage (drop 4 buf)
                             else Inr (Some \<lparr>m_command = cmd, m_payload = payload\<rparr>,
                                       drop (24 + msgLen) buf))))))"
  by pat_completeness auto
termination
  by (relation "measure length") auto

declare p2pTryExtractMessage.simps [simp del]

section \<open>The position of the magic\<close>

definition magic_at :: "bytes \<Rightarrow> nat \<Rightarrow> bool" where
  "magic_at bs i \<longleftrightarrow> take 4 (drop i bs) = P2P_MAGIC"

lemma length_P2P_MAGIC [simp]: "length P2P_MAGIC = 4"
  by (simp add: P2P_MAGIC_def)

lemma magic_at_length: "magic_at bs i \<Longrightarrow> i + 4 \<le> length bs"
proof -
  assume "magic_at bs i"
  then have "length (take 4 (drop i bs)) = 4" by (simp add: magic_at_def)
  then show ?thesis by simp
qed

lemma magic_at_Suc: "magic_at (b # bs) (Suc i) = magic_at bs i"
  by (simp add: magic_at_def)

lemma indexOfMagic_from_Some:
  "indexOfMagic_from i bs = Some p \<longleftrightarrow> i \<le> p \<and> magic_at bs (p - i) \<and> (\<forall>j < p - i. \<not> magic_at bs j)"
proof (induction i bs rule: indexOfMagic_from.induct)
  case (1 i)
  then show ?case by (auto simp: magic_at_def P2P_MAGIC_def)
next
  case (2 i b bs)
  show ?case
  proof (cases "length (b # bs) < 4")
    case True
    then show ?thesis using magic_at_length [of "b # bs" "p - i"] by auto
  next
    case False
    show ?thesis
    proof (cases "magic_at (b # bs) 0")
      case True
      then have "i < p \<Longrightarrow> \<not> (\<forall>j < p - i. \<not> magic_at (b # bs) j)"
        using True zero_less_diff by blast
      moreover have "indexOfMagic_from i (b # bs) = Some i"
        using True False by (simp add: magic_at_def)
      ultimately show ?thesis using True by (cases "i = p") auto
    next
      case n: False
      then have "indexOfMagic_from i (b # bs) = indexOfMagic_from (i + 1) bs"
        using False by (simp add: magic_at_def)
      moreover have "(i \<le> p \<and> magic_at (b # bs) (p - i) \<and> (\<forall>j < p - i. \<not> magic_at (b # bs) j))
        \<longleftrightarrow> (i + 1 \<le> p \<and> magic_at bs (p - (i + 1)) \<and> (\<forall>j < p - (i + 1). \<not> magic_at bs j))"
      proof (cases "p - i")
        case 0
        then show ?thesis using n by auto
      next
        case (Suc k)
        then have "p - (i + 1) = k" "i + 1 \<le> p" by auto
        then show ?thesis using n Suc by (auto simp: magic_at_Suc less_Suc_eq_0_disj)
      qed
      ultimately show ?thesis using 2 n False by (simp add: magic_at_def)
    qed
  qed
qed

lemma indexOfMagic_Some:
  "indexOfMagic bs = Some p \<longleftrightarrow> magic_at bs p \<and> (\<forall>j < p. \<not> magic_at bs j)"
  by (simp add: indexOfMagic_def indexOfMagic_from_Some)

lemma indexOfMagic_None: "indexOfMagic bs = None \<longleftrightarrow> (\<forall>j. \<not> magic_at bs j)"
proof -
  have "(\<exists>j. magic_at bs j) \<longleftrightarrow> (\<exists>p. indexOfMagic bs = Some p)"
    unfolding indexOfMagic_Some by (rule exists_least_iff)
  then show ?thesis by (cases "indexOfMagic bs") auto
qed

lemma magic_at_append_left: "i + 4 \<le> length a \<Longrightarrow> magic_at (a @ b) i \<longleftrightarrow> magic_at a i"
  by (simp add: magic_at_def)

lemma magic_at_append_right: "length a \<le> i \<Longrightarrow> magic_at (a @ b) i \<longleftrightarrow> magic_at b (i - length a)"
  by (simp add: magic_at_def)

lemma indexOfMagic_append:
  "indexOfMagic a = Some p \<Longrightarrow> indexOfMagic (a @ b) = Some p"
  using magic_at_length [of a p] by (auto simp: indexOfMagic_Some magic_at_append_left)

text \<open>Without a magic in \<open>a\<close>, only its last three bytes matter for what follows.\<close>

lemma indexOfMagic_skip:
  assumes "indexOfMagic a = None" "length c \<le> length a - 3"
    "a = c @ r"
  shows "indexOfMagic (a @ b) = map_option (\<lambda>p. length c + p) (indexOfMagic (r @ b))"
proof -
  have no: "\<not> magic_at (a @ b) j" if "j < length c" for j
  proof
    assume m: "magic_at (a @ b) j"
    have "j + 4 \<le> length a" using that assms(2) by linarith
    then show False using m assms(1) by (simp add: magic_at_append_left indexOfMagic_None)
  qed
  have sh: "magic_at (a @ b) (length c + j) \<longleftrightarrow> magic_at (r @ b) j" for j
    using magic_at_append_right [of c "length c + j" "r @ b"] by (simp add: assms(3))
  show ?thesis
  proof (cases "indexOfMagic (r @ b)")
    case None
    then have "\<not> magic_at (a @ b) j" for j
      using no [of j] sh [of "j - length c"] by (cases "j < length c") (auto simp: indexOfMagic_None)
    then have "indexOfMagic (a @ b) = None" by (simp add: indexOfMagic_None)
    then show ?thesis using None by simp
  next
    case (Some p)
    have "\<not> magic_at (a @ b) j" if "j < length c + p" for j
    proof (cases "j < length c")
      case False
      then show ?thesis using that Some sh [of "j - length c"] by (auto simp: indexOfMagic_Some)
    qed (rule no)
    then have "indexOfMagic (a @ b) = Some (length c + p)"
      using Some sh [of p] by (simp add: indexOfMagic_Some)
    then show ?thesis using Some by simp
  qed
qed


section \<open>One step of the scan\<close>

text \<open>
  What one pass decides about a buffer that starts with the magic: wait for more, drop the
  magic and scan on, or return a message.
\<close>

datatype verdict = Wait | Resync | Take message nat

definition judge :: "bytes \<Rightarrow> verdict" where
  "judge buf =
     (if length buf < 24 then Wait
      else let msgLen = le_val (slice buf 16 20); payload = slice buf 24 (24 + msgLen) in
           if 4000000 < msgLen then Resync
           else if length buf < 24 + msgLen then Wait
           else if slice buf 20 24 \<noteq> p2pChecksum payload then Resync
           else Take \<lparr>m_command = strip_nuls (TextDecoder_decode (slice buf 4 16)), m_payload = payload\<rparr>
                  (24 + msgLen))"

lemma p2pTryExtractMessage_judge:
  "p2pTryExtractMessage bs =
     (case indexOfMagic bs of
        None \<Rightarrow> Inr (None, drop (length bs - 3) bs)
      | Some pos \<Rightarrow>
          (case judge (drop pos bs) of
             Wait \<Rightarrow> Inr (None, drop pos bs)
           | Resync \<Rightarrow> p2pTryExtractMessage (drop (pos + 4) bs)
           | Take m n \<Rightarrow> Inr (Some m, drop (pos + n) bs)))"
proof -
  have g: "getUint32 bs 16 True = Inr (le_val (slice bs 16 20))" if "\<not> length bs < 24" for bs
    using that by (simp add: getUint_def)
  show ?thesis
    by (subst p2pTryExtractMessage.simps)
      (simp add: judge_def g Let_def add.commute split: option.split)
qed

lemma judge_append: "judge a \<noteq> Wait \<Longrightarrow> judge (a @ b) = judge a"
proof -
  assume w: "judge a \<noteq> Wait"
  then have "\<not> length a < 24" by (auto simp: judge_def)
  moreover then have "slice (a @ b) 16 20 = slice a 16 20" "slice (a @ b) 20 24 = slice a 20 24"
    "slice (a @ b) 4 16 = slice a 4 16"
    by (simp_all add: slice_append_left)
  ultimately show ?thesis
    using w by (auto simp: judge_def Let_def slice_append_left split: if_splits)
qed

lemma judge_Take: "judge a = Take m n \<Longrightarrow> 24 \<le> n \<and> n \<le> length a"
  by (auto simp: judge_def Let_def split: if_splits)


lemma drop_pos_append:
  "indexOfMagic a = Some p \<Longrightarrow> drop p (a @ b) = drop p a @ b"
  using magic_at_length [of a p] by (simp add: indexOfMagic_Some)

lemma try_extract_Some_append:
  "p2pTryExtractMessage a = Inr (Some m, r) \<Longrightarrow> p2pTryExtractMessage (a @ b) = Inr (Some m, r @ b)"
proof (induction a rule: measure_induct_rule [of length])
  case (less a)
  obtain p where p: "indexOfMagic a = Some p"
    using less.prems by (subst (asm) p2pTryExtractMessage_judge) (auto split: option.splits)
  have l: "p + 4 \<le> length a" using p magic_at_length by (simp add: indexOfMagic_Some)
  note step = p2pTryExtractMessage_judge [of a] p2pTryExtractMessage_judge [of "a @ b"]
    indexOfMagic_append [OF p] drop_pos_append [OF p] p
  show ?case
  proof (cases "judge (drop p a)")
    case Wait
    then show ?thesis using less.prems step by simp
  next
    case Resync
    then show ?thesis
      using less.prems less.IH [of "drop (p + 4) a"] l step judge_append [of "drop p a" b] by simp
  next
    case (Take m' n)
    moreover have "p + n - length a = 0" using judge_Take [OF Take] l by auto
    ultimately show ?thesis
      using less.prems step judge_append [of "drop p a" b] by simp
  qed
qed

lemma try_extract_None_append:
  "p2pTryExtractMessage a = Inr (None, r) \<Longrightarrow> p2pTryExtractMessage (a @ b) = p2pTryExtractMessage (r @ b)"
proof (induction a rule: measure_induct_rule [of length])
  case (less a)
  show ?case
  proof (cases "indexOfMagic a")
    case None
    then have r: "r = drop (length a - 3) a"
      using less.prems by (simp add: p2pTryExtractMessage_judge [of a])
    let ?c = "take (length a - 3) a"
    have a: "a = ?c @ r" by (simp add: r)
    have s: "indexOfMagic (a @ b) = map_option (\<lambda>p. length ?c + p) (indexOfMagic (r @ b))"
      using indexOfMagic_skip [OF None _ a] by simp
    have d: "drop (length ?c + k) (a @ b) = drop k (r @ b)" for k
      using drop_append [of "length ?c + k" ?c "r @ b"] by (subst a) simp
    show ?thesis
    proof (cases "indexOfMagic (r @ b)")
      case n: None
      have "drop (length (a @ b) - 3) (a @ b) = drop (length (r @ b) - 3) (r @ b)"
      proof (cases "length a \<le> 3")
        case True
        then show ?thesis by (simp add: r)
      next
        case False
        then have "length (a @ b) - 3 = length ?c + (length (r @ b) - 3)" by (simp add: r)
        then show ?thesis using d by simp
      qed
      then show ?thesis
        using n s by (simp add: p2pTryExtractMessage_judge [of "a @ b"] p2pTryExtractMessage_judge [of "r @ b"])
    next
      case (Some p)
      then show ?thesis
        using s d [of p] d [of "p + 4"] d
        by (simp add: p2pTryExtractMessage_judge [of "a @ b"] p2pTryExtractMessage_judge [of "r @ b"] add.assoc
            split: verdict.split)
    qed
  next
    case (Some p)
    have l: "p + 4 \<le> length a" using Some magic_at_length by (simp add: indexOfMagic_Some)
    note step = p2pTryExtractMessage_judge [of a] p2pTryExtractMessage_judge [of "a @ b"]
      indexOfMagic_append [OF Some] drop_pos_append [OF Some] Some
    show ?thesis
    proof (cases "judge (drop p a)")
      case Wait
      then have r: "r = drop p a" using less.prems step by simp
      have "indexOfMagic (r @ b) = Some 0"
        using Some l magic_at_append_left [of 0 r b] by (simp add: r indexOfMagic_Some magic_at_def)
      moreover have "drop (p + k) (a @ b) = drop k (r @ b)" for k
        unfolding r drop_pos_append [OF Some, symmetric] by (simp only: drop_drop add.commute)
      moreover from this [of 0] have "drop p (a @ b) = r @ b" by simp
      ultimately show ?thesis
        unfolding p2pTryExtractMessage_judge [of "a @ b"] p2pTryExtractMessage_judge [of "r @ b"]
        by (simp only: indexOfMagic_append [OF Some] option.case drop_0 add_0)
    next
      case Resync
      then show ?thesis
        using less.prems less.IH [of "drop (p + 4) a"] l step judge_append [of "drop p a" b] by simp
    next
      case (Take m' n)
      then show ?thesis using less.prems step by simp
    qed
  qed
qed


section \<open>All messages of a buffer\<close>

lemma try_extract_result:
  "\<exists>m r. p2pTryExtractMessage a = Inr (m, r) \<and> length r \<le> length a \<and> (m \<noteq> None \<longrightarrow> length r < length a)"
proof (induction a rule: measure_induct_rule [of length])
  case (less a)
  show ?case
  proof (cases "indexOfMagic a")
    case None
    then show ?thesis by (simp add: p2pTryExtractMessage_judge [of a])
  next
    case (Some p)
    have l: "p + 4 \<le> length a" using Some magic_at_length by (simp add: indexOfMagic_Some)
    show ?thesis
    proof (cases "judge (drop p a)")
      case Wait
      then show ?thesis using Some by (simp add: p2pTryExtractMessage_judge [of a])
    next
      case Resync
      have "length (drop (p + 4) a) < length a" using l by simp
      then obtain m r where "p2pTryExtractMessage (drop (p + 4) a) = Inr (m, r)"
        "length r \<le> length (drop (p + 4) a)"
        using less.IH [of "drop (p + 4) a"] by auto
      then show ?thesis
        using Some Resync l by (auto simp: p2pTryExtractMessage_judge [of a])
    next
      case (Take m n)
      then show ?thesis
        using Some judge_Take [OF Take] l by (auto simp: p2pTryExtractMessage_judge [of a])
    qed
  qed
qed

function extract_all :: "bytes \<Rightarrow> (message list \<times> bytes) res" where
  "extract_all buf =
     bindE (p2pTryExtractMessage buf) (\<lambda>mr.
       case mr of
         (None, rest) \<Rightarrow> Inr ([], rest)
       | (Some msg, rest) \<Rightarrow> bindE (extract_all rest) (\<lambda>(ms, rest'). Inr (msg # ms, rest')))"
  by pat_completeness auto
termination
proof (relation "measure length")
  fix buf mr m rest msg
  assume "p2pTryExtractMessage buf = Inr mr" "(m, rest) = mr" "m = Some msg"
  then show "(rest, buf) \<in> measure length" using try_extract_result [of buf] by auto
qed simp

declare extract_all.simps [simp del]

lemma try_extract_cases:
  obtains (none) r where "p2pTryExtractMessage a = Inr (None, r)"
    | (some) m r where "p2pTryExtractMessage a = Inr (Some m, r)" "length r < length a"
  using try_extract_result [of a] by (metis option.exhaust option.distinct(1))

lemma extract_all_None: "p2pTryExtractMessage a = Inr (None, r) \<Longrightarrow> extract_all a = Inr ([], r)"
  by (simp add: extract_all.simps [of a])

lemma extract_all_Some:
  "p2pTryExtractMessage a = Inr (Some m, r) \<Longrightarrow>
   extract_all a = bindE (extract_all r) (\<lambda>(ms, r'). Inr (m # ms, r'))"
  by (simp add: extract_all.simps [of a])

lemma extract_all_returns: "returns (extract_all a)"
proof (induction a rule: measure_induct_rule [of length])
  case (less a)
  show ?case
  proof (cases a rule: try_extract_cases)
    case (none r)
    then show ?thesis by (simp add: extract_all_None)
  next
    case (some m r)
    then show ?thesis
      using less.IH [OF some(2)] extract_all_Some [OF some(1)] by (auto simp: returns_iff)
  qed
qed

lemma extract_all_append:
  "extract_all (a @ b) =
     bindE (extract_all a) (\<lambda>(ms, r). bindE (extract_all (r @ b)) (\<lambda>(ms', r'). Inr (ms @ ms', r')))"
proof (induction a rule: measure_induct_rule [of length])
  case (less a)
  show ?case
  proof (cases a rule: try_extract_cases)
    case (none r)
    then have "extract_all (a @ b) = extract_all (r @ b)"
      using try_extract_None_append [of a r b]
      by (simp add: extract_all.simps [of "a @ b"] extract_all.simps [of "r @ b"])
    then show ?thesis
      using extract_all_None [OF none] by (cases "extract_all (r @ b)") auto
  next
    case (some m r)
    obtain ms1 r1 where r1: "extract_all r = Inr (ms1, r1)"
      using extract_all_returns [of r] by (auto simp: returns_iff)
    obtain ms2 r2 where r2: "extract_all (r1 @ b) = Inr (ms2, r2)"
      using extract_all_returns [of "r1 @ b"] by (auto simp: returns_iff)
    have "extract_all (r @ b) = Inr (ms1 @ ms2, r2)" using less.IH [OF some(2)] r1 r2 by simp
    then show ?thesis
      using extract_all_Some [OF try_extract_Some_append [OF some(1), of b]] extract_all_Some [OF some(1)]
        r1 r2 by simp
  qed
qed

lemma extract_all_settled: "extract_all a = Inr (ms, r) \<Longrightarrow> extract_all r = Inr ([], r)"
proof (induction a arbitrary: ms rule: measure_induct_rule [of length])
  case (less a)
  show ?case
  proof (cases a rule: try_extract_cases)
    case (none r')
    then have "p2pTryExtractMessage r' = Inr (None, r')"
      using try_extract_None_append [OF none, of "[]"] by simp
    then have "extract_all r' = Inr ([], r')" by (rule extract_all_None)
    moreover have "r' = r" using less.prems extract_all_None [OF none] by simp
    ultimately show ?thesis by simp
  next
    case (some m r')
    obtain ms' where "extract_all r' = Inr (ms', r)"
      using less.prems extract_all_Some [OF some(1)] by (auto elim!: bindE_InrE)
    then show ?thesis using less.IH [OF some(2)] by blast
  qed
qed

text \<open>The receive buffer over a sequence of chunks.\<close>

fun receive :: "bytes \<Rightarrow> bytes list \<Rightarrow> (message list \<times> bytes) res" where
  "receive buf [] = Inr ([], buf)"
| "receive buf (chunk # chunks) =
     bindE (extract_all (buf @ chunk)) (\<lambda>(ms, rest).
     bindE (receive rest chunks) (\<lambda>(ms', rest'). Inr (ms @ ms', rest')))"

lemma receive_extract_all:
  "extract_all buf = Inr ([], buf) \<Longrightarrow> receive buf chunks = extract_all (buf @ concat chunks)"
proof (induction chunks arbitrary: buf)
  case (Cons c cs)
  obtain ms r where e: "extract_all (buf @ c) = Inr (ms, r)"
    using extract_all_returns [of "buf @ c"] by (auto simp: returns_iff)
  then have "receive r cs = extract_all (r @ concat cs)"
    using Cons.IH [OF extract_all_settled [OF e]] by simp
  moreover have "extract_all (buf @ c @ concat cs)
      = bindE (extract_all (r @ concat cs)) (\<lambda>(ms', r'). Inr (ms @ ms', r'))"
    using extract_all_append [of "buf @ c" "concat cs"] e by simp
  ultimately show ?case using e by simp
qed simp

section \<open>What a message is made of\<close>

lemma slices_concat:
  "b = take 4 b @ slice b 4 16 @ slice b 16 20 @ slice b 20 24 @ slice b 24 (24 + k) @ drop (24 + k) b"
proof -
  have "slice b 4 16 @ slice b 16 20 @ slice b 20 24 @ slice b 24 (24 + k) @ drop (24 + k) b = drop 4 b"
    by (simp add: drop_slice)
  then show ?thesis by simp
qed

lemma try_extract_sound:
  "p2pTryExtractMessage a = Inr (Some m, r) \<Longrightarrow>
   length (m_payload m) \<le> 4000000 \<and>
   (\<exists>pre cmd. length cmd = 12 \<and> m_command m = strip_nuls (TextDecoder_decode cmd)
      \<and> a = pre @ P2P_MAGIC @ cmd @ le_bytes 4 (length (m_payload m))
              @ p2pChecksum (m_payload m) @ m_payload m @ r)"
proof (induction a rule: measure_induct_rule [of length])
  case (less a)
  obtain p where p: "indexOfMagic a = Some p"
    using less.prems by (subst (asm) p2pTryExtractMessage_judge) (auto split: option.splits)
  have l: "p + 4 \<le> length a" using p magic_at_length by (simp add: indexOfMagic_Some)
  note step = p2pTryExtractMessage_judge [of a] p
  show ?case
  proof (cases "judge (drop p a)")
    case Wait
    then show ?thesis using less.prems step by simp
  next
    case Resync
    then have "p2pTryExtractMessage (drop (p + 4) a) = Inr (Some m, r)" "length (drop (p + 4) a) < length a"
      using less.prems step l by auto
    from less.IH [OF this(2,1)] obtain pre cmd where "length (m_payload m) \<le> 4000000"
      "length cmd = 12" "m_command m = strip_nuls (TextDecoder_decode cmd)"
      and d: "drop (p + 4) a = pre @ P2P_MAGIC @ cmd @ le_bytes 4 (length (m_payload m))
              @ p2pChecksum (m_payload m) @ m_payload m @ r" by blast
    moreover have "a = (take (p + 4) a @ pre) @ P2P_MAGIC @ cmd @ le_bytes 4 (length (m_payload m))
              @ p2pChecksum (m_payload m) @ m_payload m @ r"
      using d append_take_drop_id [of "p + 4" a] by simp
    ultimately show ?thesis by blast
  next
    case (Take m' n)
    define b where "b = drop p a"
    have m: "m' = m" "r = drop n b" using Take less.prems step by (simp_all add: b_def add.commute)
    have magic: "take 4 b = P2P_MAGIC" using p by (simp add: indexOfMagic_Some magic_at_def b_def)
    define k where "k = le_val (slice b 16 20)"
    have j: "judge b = Take m n" using Take m by (simp add: b_def)
    then have k: "k \<le> 4000000" "n = 24 + k" "24 + k \<le> length b" "slice b 20 24 = p2pChecksum (slice b 24 (24 + k))"
      and mm: "m = \<lparr>m_command = strip_nuls (TextDecoder_decode (slice b 4 16)), m_payload = slice b 24 (24 + k)\<rparr>"
      by (auto simp: judge_def Let_def k_def split: if_splits)
    have "slice b 16 20 = le_bytes 4 k"
      using le_bytes_le_val [of "slice b 16 20" 4] k(3) by (simp add: k_def)
    moreover have "b = take 4 b @ slice b 4 16 @ slice b 16 20 @ slice b 20 24 @ slice b 24 (24 + k) @ drop (24 + k) b"
      by (rule slices_concat)
    moreover have "a = take p a @ b" by (simp add: b_def)
    ultimately show ?thesis
      using k mm m magic by (intro conjI exI [of _ "take p a"] exI [of _ "slice b 4 16"]) simp_all
  qed
qed

section \<open>Packed messages are found again\<close>

definition plain_command :: "jsstr \<Rightarrow> bool" where
  "plain_command s \<longleftrightarrow> length s \<le> 12 \<and> list_all (\<lambda>c. 0 < c \<and> c < 128) s"

lemma strip_nuls_pad: "list_all (\<lambda>c. 0 < c \<and> c < 128) s \<Longrightarrow> strip_nuls (s @ replicate n 0) = s"
proof -
  assume a: "list_all (\<lambda>c. 0 < c \<and> c < 128) s"
  have "dropWhile (\<lambda>c. c = 0) (replicate n 0 @ rev s) = dropWhile (\<lambda>c. c = 0) (rev s)"
    by (induction n) auto
  also have "\<dots> = rev s"
  proof -
    have "list_all (\<lambda>c. 0 < c \<and> c < 128) (rev s)" using a by simp
    then show ?thesis by (cases "rev s") auto
  qed
  finally show ?thesis by (simp add: strip_nuls_def)
qed

lemma pack_command_ascii:
  assumes "plain_command s"
  shows "pack_command s = map word_of_nat (s @ replicate (12 - length s) 0)"
    "strip_nuls (TextDecoder_decode (pack_command s)) = s" "length (pack_command s) = 12"
proof -
  have a: "\<forall>c \<in> set s. c < 128" "length s \<le> 12" using assms by (auto simp: plain_command_def list_all_iff)
  show p: "pack_command s = map word_of_nat (s @ replicate (12 - length s) 0)"
    using a by (simp add: pack_command_def encode_ascii)
  have "TextDecoder_decode (pack_command s) = s @ replicate (12 - length s) 0"
    unfolding p using a(1) by (intro decode_ascii) auto
  then show "strip_nuls (TextDecoder_decode (pack_command s)) = s"
    using assms by (simp add: strip_nuls_pad plain_command_def)
  show "length (pack_command s) = 12" using a by (simp add: p)
qed

lemma length_p2pChecksum [simp, len_simps]: "length (p2pChecksum p) = 4"
  by (simp add: p2pChecksum_def Let_def)

lemma judge_pack:
  assumes "plain_command c" "length p \<le> 4000000"
  shows "judge (p2pPackMessage c p @ ys) = Take \<lparr>m_command = c, m_payload = p\<rparr> (24 + length p)"
proof -
  let ?b = "p2pPackMessage c p @ ys" and ?l = "le_bytes 4 (length p)"
  note pc = pack_command_ascii [OF assms(1)]
  have b: "?b = P2P_MAGIC @ pack_command c @ ?l @ p2pChecksum p @ p @ ys"
    by (simp add: p2pPackMessage_def)
  have "slice ?b 4 16 = pack_command c"
    unfolding b using pc by (intro slice_append_exact) simp_all
  moreover have "slice ?b 16 20 = ?l"
    unfolding b using pc slice_append_exact [of "P2P_MAGIC @ pack_command c" 16 ?l 20] by simp
  moreover have "slice ?b 20 24 = p2pChecksum p"
    unfolding b using pc slice_append_exact [of "P2P_MAGIC @ pack_command c @ ?l" 20 "p2pChecksum p" 24] by simp
  moreover have "slice ?b 24 (24 + length p) = p"
    unfolding b using pc slice_append_exact [of "P2P_MAGIC @ pack_command c @ ?l @ p2pChecksum p" 24 p] by simp
  moreover have "le_val ?l = length p" using assms(2) by (simp add: le_val_le_bytes)
  moreover have "length ?b = 24 + length p + length ys" unfolding b using pc by simp
  ultimately show ?thesis
    using assms(2) pc(2) by (simp add: judge_def Let_def)
qed

lemma length_p2pPackMessage: "plain_command c \<Longrightarrow> length (p2pPackMessage c p) = 24 + length p"
  using pack_command_ascii(3) by (simp add: p2pPackMessage_def)

lemma try_extract_pack:
  assumes "plain_command c" "length p \<le> 4000000" "\<forall>i < length xs. \<not> magic_at (xs @ P2P_MAGIC) i"
  shows "p2pTryExtractMessage (xs @ p2pPackMessage c p @ ys)
         = Inr (Some \<lparr>m_command = c, m_payload = p\<rparr>, ys)"
proof -
  let ?b = "p2pPackMessage c p"
  obtain t where t: "?b = P2P_MAGIC @ t" by (simp add: p2pPackMessage_def)
  have "\<not> magic_at (xs @ ?b @ ys) i" if "i < length xs" for i
    using assms(3) that magic_at_append_left [of i "xs @ P2P_MAGIC" "t @ ys"] by (simp add: t)
  moreover have "magic_at (xs @ ?b @ ys) (length xs)" by (simp add: magic_at_def t)
  ultimately have i: "indexOfMagic (xs @ ?b @ ys) = Some (length xs)"
    by (simp add: indexOfMagic_Some)
  have d: "drop (length xs + k) (xs @ ?b @ ys) = drop k (?b @ ys)" for k
    by (simp add: add.commute)
  show ?thesis
    using i judge_pack [OF assms(1,2), of ys] length_p2pPackMessage [OF assms(1), of p]
    by (simp add: p2pTryExtractMessage_judge [of "xs @ ?b @ ys"])
qed

section \<open>How much the buffer keeps\<close>

lemma try_extract_None_bound: "p2pTryExtractMessage a = Inr (None, r) \<Longrightarrow> length r < 4000024"
proof (induction a rule: measure_induct_rule [of length])
  case (less a)
  show ?case
  proof (cases "indexOfMagic a")
    case None
    then show ?thesis using less.prems by (auto simp: p2pTryExtractMessage_judge [of a])
  next
    case (Some p)
    have l: "p + 4 \<le> length a" using Some magic_at_length by (simp add: indexOfMagic_Some)
    show ?thesis
    proof (cases "judge (drop p a)")
      case Wait
      then have "length (drop p a) < 4000024" by (auto simp: judge_def Let_def split: if_splits)
      then show ?thesis using Wait Some less.prems by (auto simp: p2pTryExtractMessage_judge [of a])
    next
      case Resync
      have "length (drop (p + 4) a) < length a" using l by simp
      moreover have "p2pTryExtractMessage (drop (p + 4) a) = Inr (None, r)"
        using less.prems Some Resync by (simp add: p2pTryExtractMessage_judge [of a])
      ultimately show ?thesis by (rule less.IH)
    next
      case (Take m n)
      then show ?thesis using Some less.prems by (simp add: p2pTryExtractMessage_judge [of a])
    qed
  qed
qed

lemma extract_all_bound: "extract_all a = Inr (ms, r) \<Longrightarrow> length r < 4000024"
  using extract_all_settled [of a ms r] try_extract_None_bound [of r]
  by (cases r rule: try_extract_cases) (auto simp: extract_all_None extract_all_Some elim!: bindE_InrE)


section \<open>Properties\<close>


text \<open>C21. A packed message is found again behind any garbage: if no magic starts inside the bytes
  in front of it, \<open>p2pTryExtractMessage\<close> skips them, returns exactly the command and payload
  that \<open>p2pPackMessage\<close> was given, and leaves exactly the bytes behind it.\<close>

theorem pack_extract_roundtrip:
  assumes "plain_command c" "length p \<le> 4000000" "\<forall>i < length xs. \<not> magic_at (xs @ P2P_MAGIC) i"
  shows "p2pTryExtractMessage (xs @ p2pPackMessage c p @ ys)
         = Inr (Some \<lparr>m_command = c, m_payload = p\<rparr>, ys)"
  using assms by (rule try_extract_pack)

theorem pack_extract_roundtrip_witness:
  "p2pTryExtractMessage ([0xe1, 7] @ p2pPackMessage (js ''verack'') [] @ [1])
     = Inr (Some \<lparr>m_command = js ''verack'', m_payload = []\<rparr>, [1])"
proof -
  have "\<not> magic_at ([0xe1, 7] @ P2P_MAGIC) 0" "\<not> magic_at ([0xe1, 7] @ P2P_MAGIC) 1"
    by (simp_all add: magic_at_def P2P_MAGIC_def)
  then have "\<forall>i < length [0xe1 :: byte, 7]. \<not> magic_at ([0xe1, 7] @ P2P_MAGIC) i"
    by (auto simp: less_Suc_eq)
  moreover have "plain_command (js ''verack'')" by code_simp
  ultimately show ?thesis
    using pack_extract_roundtrip [of "js ''verack''" "[]" "[0xe1, 7]" "[1]"] by simp
qed

text \<open>C6. Only intact messages come out: a message that \<open>p2pTryExtractMessage\<close> returns stands in
  the buffer behind the network magic, with its exact length, the double SHA-256 checksum of its
  payload, and at most 4,000,000 bytes of payload; what is returned as the rest is what follows.\<close>

theorem extracted_message_intact:
  assumes "p2pTryExtractMessage buf = Inr (Some m, rest)"
  shows "length (m_payload m) \<le> 4000000 \<and>
    (\<exists>pre cmd. length cmd = 12 \<and> m_command m = strip_nuls (TextDecoder_decode cmd)
      \<and> buf = pre @ P2P_MAGIC @ cmd @ le_bytes 4 (length (m_payload m))
              @ p2pChecksum (m_payload m) @ m_payload m @ rest)"
  using assms by (rule try_extract_sound)

theorem extracted_message_intact_witness:
  "\<exists>pre cmd. length cmd = 12 \<and> js ''verack'' = strip_nuls (TextDecoder_decode cmd)
      \<and> p2pPackMessage (js ''verack'') [] = pre @ P2P_MAGIC @ cmd @ le_bytes 4 0 @ p2pChecksum [] @ [] @ []"
proof -
  have "plain_command (js ''verack'')" by code_simp
  then have "p2pTryExtractMessage (p2pPackMessage (js ''verack'') [])
      = Inr (Some \<lparr>m_command = js ''verack'', m_payload = []\<rparr>, [])"
    using try_extract_pack [of "js ''verack''" "[]" "[]" "[]"] by simp
  from extracted_message_intact [OF this] show ?thesis by simp
qed

text \<open>C31. The scan always ends with an answer, and the buffer stays small: after the receive loop
  has taken out what it can, fewer than 4,000,024 bytes are kept, whatever was received.\<close>

theorem extract_all_total_bounded:
  "\<exists>ms rest. extract_all buf = Inr (ms, rest) \<and> length rest < 4000024"
  using extract_all_returns [of buf] extract_all_bound [of buf] by (auto simp: returns_iff)

end
