(* ===== verification/Js_Object.thy ===== *)
theory Js_Object
  imports Js_String "HOL-Library.AList" "HOL-Library.Multiset"
begin

text \<open>
  Plain objects used as dictionaries, insertion-ordered sets, and the array operations
  \<open>slice(0, end)\<close> and \<open>sort(compare)\<close>. An object is the association list of its own
  properties in insertion order (property names are strings; names inherited from
  \<open>Object.prototype\<close> are outside the model); \<open>obj[k] = v\<close> is \<open>AList.update\<close>,
  \<open>delete obj[k]\<close> is \<open>AList.delete\<close>. Enumeration puts integer-like names first, in
  numeric order, as the language does.
\<close>

section \<open>Objects\<close>

type_synonym 'v obj = "(jsstr \<times> 'v) list"

abbreviation obj_get :: "'v obj \<Rightarrow> jsstr \<Rightarrow> 'v option" where
  "obj_get ob k \<equiv> map_of ob k"

abbreviation obj_put :: "jsstr \<Rightarrow> 'v \<Rightarrow> 'v obj \<Rightarrow> 'v obj" where
  "obj_put \<equiv> AList.update"

definition obj_wf :: "'v obj \<Rightarrow> bool" where
  "obj_wf ob \<longleftrightarrow> distinct (map fst ob)"

definition is_index :: "jsstr \<Rightarrow> bool" where
  "is_index k \<longleftrightarrow> list_all (is_digit 10) k \<and> k = radix_str 10 (num_val 10 k) \<and> num_val 10 k < 4294967295"

definition js_entries :: "'v obj \<Rightarrow> (jsstr \<times> 'v) list" where
  "js_entries ob =
     sort_key (\<lambda>(k, _). num_val 10 k) (filter (\<lambda>(k, _). is_index k) ob)
     @ filter (\<lambda>(k, _). \<not> is_index k) ob"

definition js_keys :: "'v obj \<Rightarrow> jsstr list" where
  "js_keys ob = map fst (js_entries ob)"

definition js_values :: "'v obj \<Rightarrow> 'v list" where
  "js_values ob = map snd (js_entries ob)"

text \<open>\<open>{...a, ...b}\<close>\<close>

definition obj_spread :: "'v obj \<Rightarrow> 'v obj \<Rightarrow> 'v obj" where
  "obj_spread a b = fold (\<lambda>(k, v) ob. obj_put k v ob) (js_entries b) (js_entries a)"

lemma obj_get_put: "obj_get (obj_put k v ob) k' = (if k' = k then Some v else obj_get ob k')"
  by (simp add: update_conv')

lemma obj_wf_put [simp]: "obj_wf ob \<Longrightarrow> obj_wf (obj_put k v ob)"
  by (simp add: obj_wf_def distinct_update)

lemma obj_wf_delete [simp]: "obj_wf ob \<Longrightarrow> obj_wf (AList.delete k ob)"
  by (simp add: obj_wf_def distinct_delete)

lemma obj_wf_Nil [simp]: "obj_wf []"
  by (simp add: obj_wf_def)

lemma obj_wf_filter: "obj_wf ob \<Longrightarrow> obj_wf (filter P ob)"
  by (simp add: obj_wf_def distinct_map_filter)

lemma obj_get_in: "obj_wf ob \<Longrightarrow> (k, v) \<in> set ob \<longleftrightarrow> obj_get ob k = Some v"
  by (simp add: obj_wf_def)

lemma js_entries_Nil [simp]: "js_entries [] = []"
  by (simp add: js_entries_def)

lemma mset_js_entries [simp]: "mset (js_entries ob) = mset ob"
proof -
  have "mset (js_entries ob) = filter_mset (\<lambda>(k, _). is_index k) (mset ob)
      + filter_mset (\<lambda>(k, _). \<not> is_index k) (mset ob)"
    by (simp add: js_entries_def)
  also have "\<dots> = mset ob" by (induction ob) auto
  finally show ?thesis .
qed

lemma set_js_entries [simp]: "set (js_entries ob) = set ob"
  by (metis mset_js_entries set_mset_mset)

lemma length_js_entries [simp]: "length (js_entries ob) = length ob"
  by (metis mset_js_entries size_mset)

lemma obj_wf_entries: "obj_wf ob \<Longrightarrow> distinct (map fst (js_entries ob))"
proof -
  assume "obj_wf ob"
  then have "distinct (map fst ob)" by (simp add: obj_wf_def)
  moreover have "mset (map fst (js_entries ob)) = mset (map fst ob)" by simp
  ultimately show ?thesis by (metis mset_eq_imp_distinct_iff)
qed

lemma map_of_js_entries: "obj_wf ob \<Longrightarrow> map_of (js_entries ob) = map_of ob"
  by (intro map_of_inject_set [THEN iffD2]) (simp_all add: obj_wf_entries, simp add: obj_wf_def)

lemma set_js_keys [simp]: "set (js_keys ob) = fst ` set ob"
  by (simp add: js_keys_def)

lemma fold_put_get:
  "obj_get (fold (\<lambda>(k, v) ob. obj_put k v ob) b a) k
     = (case map_of (rev b) k of Some v \<Rightarrow> Some v | None \<Rightarrow> obj_get a k)"
  by (induction b arbitrary: a) (auto simp: update_conv' map_add_def split: option.splits prod.splits)

lemma obj_spread_get:
  assumes "obj_wf a" "obj_wf b"
  shows "obj_get (obj_spread a b) k = (case obj_get b k of Some v \<Rightarrow> Some v | None \<Rightarrow> obj_get a k)"
proof -
  have "map_of (rev (js_entries b)) = map_of b"
    using assms(2) obj_wf_entries [OF assms(2)]
    by (intro map_of_inject_set [THEN iffD2]) (simp_all add: obj_wf_def rev_map [symmetric])
  then show ?thesis
    using assms(1) by (simp add: obj_spread_def fold_put_get map_of_js_entries split: option.splits)
qed

lemma obj_wf_js_entries: "obj_wf ob \<Longrightarrow> obj_wf (js_entries ob)"
  using obj_wf_entries by (simp add: obj_wf_def)

lemma obj_wf_fold_put: "obj_wf a \<Longrightarrow> obj_wf (fold (\<lambda>(k, v) ob. obj_put k v ob) b a)"
  by (induction b arbitrary: a) auto

section \<open>Insertion-ordered sets\<close>

definition set_add :: "'a \<Rightarrow> 'a list \<Rightarrow> 'a list" where
  "set_add x s = (if x \<in> set s then s else s @ [x])"

definition new_Set :: "'a list \<Rightarrow> 'a list" where
  "new_Set xs = fold set_add xs []"

lemma set_set_add [simp]: "set (set_add x s) = insert x (set s)"
  by (auto simp: set_add_def)

lemma distinct_set_add [simp]: "distinct s \<Longrightarrow> distinct (set_add x s)"
  by (auto simp: set_add_def)

lemma set_fold_set_add: "set (fold set_add xs s) = set s \<union> set xs"
  by (induction xs arbitrary: s) auto

lemma distinct_fold_set_add: "distinct s \<Longrightarrow> distinct (fold set_add xs s)"
  by (induction xs arbitrary: s) auto

lemma set_new_Set [simp]: "set (new_Set xs) = set xs"
  by (simp add: new_Set_def set_fold_set_add)

lemma distinct_new_Set [simp]: "distinct (new_Set xs)"
  by (simp add: new_Set_def distinct_fold_set_add)

section \<open>Array slices with a computed end\<close>

definition trunc :: "rat \<Rightarrow> int" where
  "trunc q = (if 0 \<le> q then \<lfloor>q\<rfloor> else \<lceil>q\<rceil>)"

text \<open>\<open>xs.slice(0, e)\<close>\<close>

definition slice_to :: "'a list \<Rightarrow> jsnum \<Rightarrow> 'a list" where
  "slice_to xs e =
     (case e of NaN \<Rightarrow> [] | PosInf \<Rightarrow> xs | NegInf \<Rightarrow> []
      | Fin q \<Rightarrow> (let n = trunc q in
           if n < 0 then take (nat (int (length xs) + n)) xs else take (nat n) xs))"

lemma set_slice_to: "set (slice_to xs e) \<subseteq> set xs"
  by (auto simp: slice_to_def Let_def split: jsnum.splits dest: in_set_takeD)

lemma slice_to_Nil [simp]: "slice_to [] e = []"
  using set_slice_to [of "[]" e] by simp

lemma slice_to_prefix: "\<exists>n. slice_to xs e = take n xs"
proof (cases e)
  case NaN
  then show ?thesis by (auto simp: slice_to_def intro: exI [of _ 0])
next
  case PosInf
  then show ?thesis by (auto simp: slice_to_def intro: exI [of _ "length xs"])
next
  case NegInf
  then show ?thesis by (auto simp: slice_to_def intro: exI [of _ 0])
next
  case (Fin q)
  then show ?thesis by (auto simp: slice_to_def Let_def)
qed

lemma length_slice_to_jint: "0 \<le> n \<Longrightarrow> length (slice_to xs (jint n)) = min (nat n) (length xs)"
  by (simp add: slice_to_def jint_def trunc_def)

lemma slice_to_jint: "0 \<le> n \<Longrightarrow> slice_to xs (jint n) = take (nat n) xs"
  by (simp add: slice_to_def jint_def trunc_def)

section \<open>Sorting with a comparison function\<close>

text \<open>
  \<open>Array.prototype.sort\<close> is stable, so for a consistent comparison function its result is
  determined; insertion sort computes it. A comparison function returns an integer whose
  sign orders its arguments.
\<close>

fun sort_insert :: "('a \<Rightarrow> 'a \<Rightarrow> int) \<Rightarrow> 'a \<Rightarrow> 'a list \<Rightarrow> 'a list" where
  "sort_insert cmp x [] = [x]"
| "sort_insert cmp x (y # ys) = (if cmp x y \<le> 0 then x # y # ys else y # sort_insert cmp x ys)"

definition js_sort :: "('a \<Rightarrow> 'a \<Rightarrow> int) \<Rightarrow> 'a list \<Rightarrow> 'a list" where
  "js_sort cmp xs = foldr (sort_insert cmp) xs []"

lemma js_sort_Nil [simp]: "js_sort cmp [] = []"
  by (simp add: js_sort_def)

lemma mset_sort_insert [simp]: "mset (sort_insert cmp x ys) = add_mset x (mset ys)"
  by (induction ys) auto

lemma mset_js_sort [simp]: "mset (js_sort cmp xs) = mset xs"
  by (induction xs) (auto simp: js_sort_def)

lemma set_js_sort [simp]: "set (js_sort cmp xs) = set xs"
  by (metis mset_js_sort set_mset_mset)

lemma length_js_sort [simp]: "length (js_sort cmp xs) = length xs"
  by (metis mset_js_sort size_mset)

lemma distinct_js_sort: "distinct (map f (js_sort cmp xs)) \<longleftrightarrow> distinct (map f xs)"
proof -
  have "mset (map f (js_sort cmp xs)) = mset (map f xs)" by simp
  then show ?thesis by (metis mset_eq_imp_distinct_iff)
qed

text \<open>
  The contract of a comparison function: on the values it is meant for, its sign is a total
  preorder.
\<close>

locale comparison =
  fixes cmp :: "'a \<Rightarrow> 'a \<Rightarrow> int"
    and sortable :: "'a \<Rightarrow> bool"
  assumes total: "sortable x \<Longrightarrow> sortable y \<Longrightarrow> cmp x y \<le> 0 \<or> cmp y x \<le> 0"
    and transitive: "sortable x \<Longrightarrow> sortable y \<Longrightarrow> sortable z \<Longrightarrow> cmp x y \<le> 0 \<Longrightarrow> cmp y z \<le> 0 \<Longrightarrow> cmp x z \<le> 0"
begin

lemma sorted_sort_insert:
  "sorted_wrt (\<lambda>a b. cmp a b \<le> 0) ys \<Longrightarrow> sortable x \<Longrightarrow> \<forall>y \<in> set ys. sortable y \<Longrightarrow>
   sorted_wrt (\<lambda>a b. cmp a b \<le> 0) (sort_insert cmp x ys)"
proof (induction ys)
  case (Cons y ys)
  show ?case
  proof (cases "cmp x y \<le> 0")
    case True
    have "cmp x z \<le> 0" if "z \<in> set ys" for z
      using transitive [of x y z] True that Cons.prems by auto
    then show ?thesis using True Cons.prems by auto
  next
    case False
    then have yx: "cmp y x \<le> 0" using total [of x y] Cons.prems by auto
    have "set (sort_insert cmp x ys) = insert x (set ys)"
      by (metis mset_sort_insert set_mset_add_mset_insert set_mset_mset)
    then show ?thesis using False yx Cons by auto
  qed
qed simp

lemma sorted_js_sort: "\<forall>x \<in> set xs. sortable x \<Longrightarrow> sorted_wrt (\<lambda>a b. cmp a b \<le> 0) (js_sort cmp xs)"
proof (induction xs)
  case (Cons x xs)
  have "set (foldr (sort_insert cmp) xs []) = set xs"
    using set_js_sort [of cmp xs] by (simp add: js_sort_def)
  then show ?case using Cons by (auto simp: js_sort_def intro: sorted_sort_insert)
qed (simp add: js_sort_def)

lemma hd_js_sort_least:
  assumes "x \<in> set xs" "\<forall>x \<in> set xs. sortable x"
  shows "cmp (hd (js_sort cmp xs)) x \<le> 0"
proof -
  have x: "x \<in> set (js_sort cmp xs)" using assms(1) by simp
  have refl: "cmp x x \<le> 0" using total assms by blast
  show ?thesis
    using x refl sorted_js_sort [OF assms(2)] by (cases "js_sort cmp xs") auto
qed

text \<open>Everything taken from the front of the sorted list precedes everything left out.\<close>

lemma take_js_sort_first:
  assumes "x \<in> set (take n (js_sort cmp xs))" "y \<in> set (drop n (js_sort cmp xs))" "\<forall>x \<in> set xs. sortable x"
  shows "cmp x y \<le> 0"
  using sorted_js_sort [OF assms(3)] assms(1,2)
  by (metis append_take_drop_id sorted_wrt_append)

end

end
