(* ===== verification/Crawl_Peer.thy ===== *)
theory Crawl_Peer
  imports P2p_Message Js_Object
begin

text \<open>
  One visit to a peer (\<open>crawlPeerOnce\<close> of \<open>worker/src/crawl.js\<close>): connect, send \<open>version\<close>
  and \<open>sendaddrv2\<close>, answer \<open>version\<close> with \<open>verack\<close> and \<open>verack\<close> with \<open>getaddr\<close>, collect
  addresses until the deadline, the end of the stream or the first addresses after \<open>getaddr\<close>.

  The platform is a parameter: how each promise that is raced against a timer ends, the values
  of the clock, which writes fail, and the random nonce. Every pass through the receive loop
  consumes one element of the list of passes the platform offers; when the list is used up the
  visit is still waiting (\<open>None\<close>). A write resolves or rejects; one that does neither is outside
  the model. Port and timeout are the numbers of the configuration. The results: a visit reports exactly what the intact
  messages of the stream say, writes its messages in protocol order, and ends at the deadline.
\<close>

section \<open>The platform\<close>

text \<open>How \<open>Promise.race\<close> of a promise and its timer ends.\<close>

datatype 'a race = Settled "'a res" | TimedOut

definition withTimeout :: "'a race \<Rightarrow> jsstr \<Rightarrow> 'a res" where
  "withTimeout p onTimeoutMessage =
     (case p of Settled r \<Rightarrow> r | TimedOut \<Rightarrow> Inl (Error onTimeoutMessage))"

text \<open>What \<open>reader.read()\<close> resolves to.\<close>

datatype read_result = Done | Chunk bytes

text \<open>One pass: \<open>Date.now()\<close> in the loop condition and in \<open>remaining\<close>, and the read.\<close>

record pass =
  p_now :: nat
  p_now2 :: nat
  p_read :: "read_result race"

record peer_io =
  io_connect :: "jserr option"   \<comment> \<open>an exception of \<open>getConnect()\<close> or \<open>connect()\<close>\<close>
  io_opened :: "unit race"
  io_start :: nat                \<comment> \<open>\<open>Date.now()\<close> when the deadline is set\<close>
  io_nonce :: bytes
  io_now :: nat                  \<comment> \<open>\<open>Date.now()\<close> in the version payload\<close>
  io_wfail :: "nat \<Rightarrow> bool"       \<comment> \<open>whether the write after so many writes rejects\<close>
  io_passes :: "pass list"

section \<open>State of the visit\<close>

record visit =
  theirVersion :: "version_info option"
  sentVerack :: bool
  gotTheirVerack :: bool
  sentGetaddr :: bool
  addresses :: "addr2 list"
  rbuf :: bytes
  written :: "bytes list"

definition visit0 :: visit where
  "visit0 = \<lparr>theirVersion = None, sentVerack = False, gotTheirVerack = False, sentGetaddr = False,
             addresses = [], rbuf = [], written = []\<rparr>"

text \<open>
  A step returns the state and whether it ended normally; an exception keeps the state the
  variables had when it was thrown, since the \<open>catch\<close> block goes on with them.
\<close>

definition write_message :: "(nat \<Rightarrow> bool) \<Rightarrow> bytes \<Rightarrow> visit \<Rightarrow> visit \<times> bool" where
  "write_message wfail msg st =
     (if wfail (length (written st)) then (st, False)
      else (st\<lparr>written := written st @ [msg]\<rparr>, True))"

section \<open>Received messages\<close>

definition legacy_addr :: "addr \<Rightarrow> addr2" where
  "legacy_addr a =
     \<lparr>d_network = (if js_includes (a_ip a) (js '':'') then js ''ipv6'' else js ''ipv4''),
      d_ip = Some (a_ip a), d_key = a_ip a, d_port = a_port a, d_time = a_time a,
      d_services = a_services a\<rparr>"

definition handle_message :: "message \<Rightarrow> visit \<Rightarrow> visit res" where
  "handle_message msg st =
     (if m_command msg = js ''version'' then
        bindE (p2pParseVersionPayload (m_payload msg)) (\<lambda>v. Inr (st\<lparr>theirVersion := Some v\<rparr>))
      else if m_command msg = js ''verack'' then Inr (st\<lparr>gotTheirVerack := True\<rparr>)
      else if m_command msg = js ''addr'' then
        bindE (p2pParseAddrPayload (m_payload msg)) (\<lambda>as.
          Inr (st\<lparr>addresses := addresses st @ map legacy_addr as\<rparr>))
      else if m_command msg = js ''addrv2'' then
        bindE (p2pParseAddrV2Payload (m_payload msg)) (\<lambda>as.
          Inr (st\<lparr>addresses := addresses st @ as\<rparr>))
      else Inr st)"

lemma handle_message_rbuf: "handle_message msg st = Inr st' \<Longrightarrow> rbuf st' = rbuf st"
  by (auto simp: handle_message_def elim!: bindE_InrE split: if_splits)

function drain :: "visit \<Rightarrow> visit \<times> bool" where
  "drain st =
     (case p2pTryExtractMessage (rbuf st) of
        Inl _ \<Rightarrow> (st, False)
      | Inr (None, rest) \<Rightarrow> (st\<lparr>rbuf := rest\<rparr>, True)
      | Inr (Some msg, rest) \<Rightarrow>
          (case handle_message msg (st\<lparr>rbuf := rest\<rparr>) of
             Inl _ \<Rightarrow> (st\<lparr>rbuf := rest\<rparr>, False)
           | Inr st' \<Rightarrow> drain st'))"
  by pat_completeness auto
termination
proof (relation "measure (\<lambda>st. length (rbuf st))")
  fix st b m rest msg st'
  assume t: "p2pTryExtractMessage (rbuf st) = Inr b" "(m, rest) = b" "m = Some msg"
    and h: "handle_message msg (st\<lparr>rbuf := rest\<rparr>) = Inr st'"
  have "rbuf st' = rest" using handle_message_rbuf [OF h] by simp
  moreover have "length rest < length (rbuf st)"
    using t try_extract_result [of "rbuf st"] by auto
  ultimately show "(st', st) \<in> measure (\<lambda>st. length (rbuf st))" by simp
qed simp

declare drain.simps [simp del]

section \<open>The receive loop\<close>

definition answer_version :: "(nat \<Rightarrow> bool) \<Rightarrow> visit \<Rightarrow> visit \<times> bool" where
  "answer_version wfail st =
     (if theirVersion st \<noteq> None \<and> \<not> sentVerack st then
        (let (st', ok) = write_message wfail (p2pPackMessage (js ''verack'') []) st
         in if ok then (st'\<lparr>sentVerack := True\<rparr>, True) else (st', False))
      else (st, True))"

definition answer_verack :: "(nat \<Rightarrow> bool) \<Rightarrow> visit \<Rightarrow> visit \<times> bool" where
  "answer_verack wfail st =
     (if gotTheirVerack st \<and> \<not> sentGetaddr st then
        (let (st', ok) = write_message wfail (p2pPackMessage (js ''getaddr'') []) st
         in if ok then (st'\<lparr>sentGetaddr := True\<rparr>, True) else (st', False))
      else (st, True))"

text \<open>One chunk: \<open>(state, whether to go round again)\<close>.\<close>

definition on_chunk :: "(nat \<Rightarrow> bool) \<Rightarrow> bytes \<Rightarrow> visit \<Rightarrow> visit \<times> bool" where
  "on_chunk wfail chunk st =
     (let (st1, ok1) = drain (st\<lparr>rbuf := rbuf st @ chunk\<rparr>)
      in if \<not> ok1 then (st1, False)
         else let (st2, ok2) = answer_version wfail st1
              in if \<not> ok2 then (st2, False)
                 else let (st3, ok3) = answer_verack wfail st2
                      in if \<not> ok3 then (st3, False)
                         else (st3, \<not> (sentGetaddr st3 \<and> addresses st3 \<noteq> [])))"

fun receive_loop :: "(nat \<Rightarrow> bool) \<Rightarrow> jsnum \<Rightarrow> pass list \<Rightarrow> visit \<Rightarrow> visit option" where
  "receive_loop wfail deadline [] st = None"
| "receive_loop wfail deadline (p # ps) st =
     (if \<not> jlt (jint (int (p_now p))) deadline then Some st
      else if jle (jsub deadline (jint (int (p_now2 p)))) (jint 0) then Some st
      else case withTimeout (p_read p) (js ''read timeout'') of
             Inl _ \<Rightarrow> Some st
           | Inr Done \<Rightarrow> Some st
           | Inr (Chunk chunk) \<Rightarrow>
               (let (st', again) = on_chunk wfail chunk st
                in if again then receive_loop wfail deadline ps st' else Some st'))"

text \<open>What \<open>setUint16\<close> stores for a number.\<close>

definition to_uint16 :: "jsnum \<Rightarrow> nat" where
  "to_uint16 n = (case n of Fin q \<Rightarrow> nat (trunc q mod 65536) | _ \<Rightarrow> 0)"

text \<open>The \<open>try\<close> block: announce, then receive.\<close>

definition user_agent :: jsstr where
  "user_agent = js ''/elektron-node-map-worker:1.0/''"

definition converse :: "peer_io \<Rightarrow> jsstr \<Rightarrow> jsnum \<Rightarrow> jsnum \<Rightarrow> visit option" where
  "converse io ip port deadline =
     (case p2pBuildVersionPayload ip (to_uint16 port) user_agent (io_nonce io) (io_now io) of
        Inl _ \<Rightarrow> Some visit0
      | Inr payload \<Rightarrow>
          (let (st1, ok1) = write_message (io_wfail io) (p2pPackMessage (js ''version'') payload) visit0
           in if \<not> ok1 then Some st1
              else let (st2, ok2) = write_message (io_wfail io) (p2pPackMessage (js ''sendaddrv2'') []) st1
                   in if \<not> ok2 then Some st2
                      else receive_loop (io_wfail io) deadline (io_passes io) st2))"

record peer_result =
  r_services :: nat
  r_subver :: jsstr
  r_startHeight :: nat
  r_addresses :: "addr2 list"

definition visit_result :: "visit \<Rightarrow> peer_result option" where
  "visit_result st =
     (case theirVersion st of
        None \<Rightarrow> None
      | Some v \<Rightarrow> Some \<lparr>r_services = v_services v, r_subver = v_subver v,
                       r_startHeight = v_startHeight v, r_addresses = addresses st\<rparr>)"

text \<open>\<open>Some (Inl e)\<close> is a rejected promise, \<open>Some (Inr None)\<close> is \<open>null\<close>.\<close>

definition crawlPeerOnce ::
    "(jsstr \<Rightarrow> jsnum \<Rightarrow> peer_result option res) option \<Rightarrow> peer_io \<Rightarrow> jsstr \<Rightarrow> jsnum \<Rightarrow> jsnum
     \<Rightarrow> peer_result option res option" where
  "crawlPeerOnce fetcher io ip port totalTimeoutMs =
     (case fetcher of
        Some f \<Rightarrow> Some (f ip port)
      | None \<Rightarrow>
          (case io_connect io of
             Some e \<Rightarrow> Some (Inl e)
           | None \<Rightarrow>
               (case withTimeout (io_opened io) (js ''connect timeout'') of
                  Inl _ \<Rightarrow> Some (Inr None)
                | Inr _ \<Rightarrow>
                    map_option (\<lambda>st. Inr (visit_result st))
                      (converse io ip port (jadd (jint (int (io_start io))) totalTimeoutMs)))))"

section \<open>What the messages of a stream say\<close>

definition version_in :: "message \<Rightarrow> version_info option" where
  "version_in m =
     (if m_command m = js ''version'' then
        (case p2pParseVersionPayload (m_payload m) of Inr v \<Rightarrow> Some v | Inl _ \<Rightarrow> None)
      else None)"

definition addrs_in :: "message \<Rightarrow> addr2 list" where
  "addrs_in m =
     (if m_command m = js ''addr'' then
        (case p2pParseAddrPayload (m_payload m) of Inr as \<Rightarrow> map legacy_addr as | Inl _ \<Rightarrow> [])
      else if m_command m = js ''addrv2'' then
        (case p2pParseAddrV2Payload (m_payload m) of Inr as \<Rightarrow> as | Inl _ \<Rightarrow> [])
      else [])"

definition last_version :: "message list \<Rightarrow> version_info option" where
  "last_version ms = (case rev (List.map_filter version_in ms) of [] \<Rightarrow> None | v # _ \<Rightarrow> Some v)"

text \<open>The state agrees with the messages \<open>ms\<close> and their remainder.\<close>

definition heard :: "visit \<Rightarrow> message list \<Rightarrow> bool" where
  "heard st ms \<longleftrightarrow> theirVersion st = last_version ms \<and> addresses st = concat (map addrs_in ms)
     \<and> (gotTheirVerack st \<longleftrightarrow> js ''verack'' \<in> m_command ` set ms)"

lemma last_version_snoc:
  "last_version (ms @ [m]) = (case version_in m of None \<Rightarrow> last_version ms | Some v \<Rightarrow> Some v)"
  by (simp add: last_version_def List.map_filter_def split: option.split)

lemma commands_distinct [simp]:
  "js ''version'' \<noteq> js ''verack''" "js ''version'' \<noteq> js ''addr''" "js ''version'' \<noteq> js ''addrv2''"
  "js ''verack'' \<noteq> js ''addr''" "js ''verack'' \<noteq> js ''addrv2''" "js ''addr'' \<noteq> js ''addrv2''"
  "js ''verack'' \<noteq> js ''version''"
  by simp_all

lemma handle_message_total:
  assumes "length (m_payload m) \<le> 4000000"
  shows "\<exists>st'. handle_message m st = Inr st' \<and> rbuf st' = rbuf st \<and> written st' = written st
     \<and> sentVerack st' = sentVerack st \<and> sentGetaddr st' = sentGetaddr st
     \<and> (\<forall>ms. heard st ms \<longrightarrow> heard st' (ms @ [m]))"
proof -
  have al: "array_len (m_payload m)" using assms by (simp add: array_len_def)
  obtain v as bs where r: "p2pParseVersionPayload (m_payload m) = Inr v"
    "p2pParseAddrPayload (m_payload m) = Inr as" "p2pParseAddrV2Payload (m_payload m) = Inr bs"
    using p2pParseVersionPayload_returns [of "m_payload m"] p2pParseAddrPayload_returns [of "m_payload m"]
      p2pParseAddrV2Payload_returns [OF al] by (auto simp: returns_iff)
  show ?thesis
    unfolding handle_message_def r
    by (auto simp: heard_def last_version_snoc version_in_def addrs_in_def r simp del: js_simps)
qed

lemma drain_heard:
  "extract_all (rbuf st) = Inr (ms, rest) \<Longrightarrow>
   \<exists>st'. drain st = (st', True) \<and> rbuf st' = rest \<and> written st' = written st
     \<and> sentVerack st' = sentVerack st \<and> sentGetaddr st' = sentGetaddr st
     \<and> (\<forall>ns. heard st ns \<longrightarrow> heard st' (ns @ ms))"
proof (induction "rbuf st" arbitrary: st ms rule: measure_induct_rule [of length])
  case less
  show ?case
  proof (cases "rbuf st" rule: try_extract_cases)
    case (none r)
    then show ?thesis
      using less.prems extract_all_None [OF none]
      by (simp add: drain.simps [of st] heard_def)
  next
    case (some m r)
    obtain ms' where ms: "extract_all r = Inr (ms', rest)" "ms = m # ms'"
      using less.prems extract_all_Some [OF some(1)] by (auto elim!: bindE_InrE)
    have "length (m_payload m) \<le> 4000000" using try_extract_sound [OF some(1)] by blast
    from handle_message_total [OF this, of "st\<lparr>rbuf := r\<rparr>"]
    obtain s1 where h: "handle_message m (st\<lparr>rbuf := r\<rparr>) = Inr s1" "rbuf s1 = r" "written s1 = written st"
      "sentVerack s1 = sentVerack st" "sentGetaddr s1 = sentGetaddr st"
      "\<forall>ns. heard (st\<lparr>rbuf := r\<rparr>) ns \<longrightarrow> heard s1 (ns @ [m])" by auto
    have hs: "heard (st\<lparr>rbuf := r\<rparr>) ns = heard st ns" for ns by (simp add: heard_def)
    have "drain st = drain s1" using some h(1) by (simp add: drain.simps [of st])
    moreover obtain s2 where "drain s1 = (s2, True)" "rbuf s2 = rest" "written s2 = written s1"
      "sentVerack s2 = sentVerack s1" "sentGetaddr s2 = sentGetaddr s1"
      "\<forall>ns. heard s1 ns \<longrightarrow> heard s2 (ns @ ms')"
      using less.hyps [of s1] ms(1) h(2) some(2) by auto
    moreover have "\<forall>ns. heard st ns \<longrightarrow> heard s2 (ns @ ms)"
      using h(6) calculation(7) ms(2) hs by (metis append.assoc append_Cons append_Nil)
    ultimately show ?thesis using h by auto
  qed
qed

section \<open>Invariant of the visit\<close>

abbreviation verack_msg :: bytes where
  "verack_msg \<equiv> p2pPackMessage (js ''verack'') []"

abbreviation getaddr_msg :: bytes where
  "getaddr_msg \<equiv> p2pPackMessage (js ''getaddr'') []"

definition announce :: "bytes \<Rightarrow> bytes list" where
  "announce vp = [p2pPackMessage (js ''version'') vp, p2pPackMessage (js ''sendaddrv2'') []]"

text \<open>The answers written after the announcement, and what each was an answer to.\<close>

definition orderly :: "bytes \<Rightarrow> visit \<Rightarrow> bool" where
  "orderly vp st \<longleftrightarrow>
     (\<exists>xs. written st = announce vp @ xs \<and> distinct xs \<and> set xs \<subseteq> {verack_msg, getaddr_msg}
        \<and> (verack_msg \<in> set xs \<longleftrightarrow> sentVerack st) \<and> (getaddr_msg \<in> set xs \<longleftrightarrow> sentGetaddr st))
     \<and> (sentVerack st \<longrightarrow> theirVersion st \<noteq> None) \<and> (sentGetaddr st \<longrightarrow> gotTheirVerack st)"

definition visit_inv :: "bytes \<Rightarrow> visit \<Rightarrow> bytes \<Rightarrow> bool" where
  "visit_inv vp st stream \<longleftrightarrow>
     orderly vp st \<and> (\<exists>ms. extract_all stream = Inr (ms, rbuf st) \<and> heard st ms)"

lemma answers_distinct: "verack_msg \<noteq> getaddr_msg"
proof
  assume "verack_msg = getaddr_msg"
  moreover have "length (pack_command (js ''verack'')) = length (pack_command (js ''getaddr''))"
    using pack_command_ascii(3) [of "js ''verack''"] pack_command_ascii(3) [of "js ''getaddr''"]
    by (simp add: plain_command_def)
  ultimately have "pack_command (js ''verack'') = pack_command (js ''getaddr'')"
    by (simp add: p2pPackMessage_def del: js_simps)
  then show False
    using pack_command_ascii(2) [of "js ''verack''"] pack_command_ascii(2) [of "js ''getaddr''"]
    by (simp add: plain_command_def)
qed

lemma last_version_append: "last_version ms \<noteq> None \<Longrightarrow> last_version (ms @ ns) \<noteq> None"
proof (induction ns rule: rev_induct)
  case (snoc n ns)
  then show ?case
    using last_version_snoc [of "ms @ ns" n] by (auto split: option.splits)
qed simp

lemma drain_inv:
  assumes "visit_inv vp st stream"
  shows "\<exists>st'. drain (st\<lparr>rbuf := rbuf st @ chunk\<rparr>) = (st', True) \<and> visit_inv vp st' (stream @ chunk)"
proof -
  obtain ms where ms: "extract_all stream = Inr (ms, rbuf st)" "heard st ms" and o: "orderly vp st"
    using assms by (auto simp: visit_inv_def)
  obtain ns rest where ns: "extract_all (rbuf st @ chunk) = Inr (ns, rest)"
    using extract_all_returns [of "rbuf st @ chunk"] by (auto simp: returns_iff)
  have e: "extract_all (stream @ chunk) = Inr (ms @ ns, rest)"
    using extract_all_append [of stream chunk] ms(1) ns by simp
  obtain st' where d: "drain (st\<lparr>rbuf := rbuf st @ chunk\<rparr>) = (st', True)" "rbuf st' = rest"
      "written st' = written st" "sentVerack st' = sentVerack st" "sentGetaddr st' = sentGetaddr st"
    and h: "heard (st\<lparr>rbuf := rbuf st @ chunk\<rparr>) ms \<longrightarrow> heard st' (ms @ ns)"
    using drain_heard [of "st\<lparr>rbuf := rbuf st @ chunk\<rparr>" ns rest] ns by auto
  have h': "heard st' (ms @ ns)" using h ms(2) by (simp add: heard_def)
  have "theirVersion st \<noteq> None \<Longrightarrow> theirVersion st' \<noteq> None" "gotTheirVerack st \<Longrightarrow> gotTheirVerack st'"
    using h' ms(2) last_version_append [of ms ns] by (auto simp: heard_def)
  then have "orderly vp st'"
    using o d by (simp add: orderly_def)
  then show ?thesis using d h' e by (auto simp: visit_inv_def)
qed

lemma written_answer_version:
  assumes "visit_inv vp st stream" "answer_version w st = (st', ok)"
  shows "visit_inv vp st' stream"
proof (cases "theirVersion st \<noteq> None \<and> \<not> sentVerack st \<and> \<not> w (length (written st))")
  case True
  then have st': "st' = st\<lparr>written := written st @ [verack_msg], sentVerack := True\<rparr>"
    using assms(2) by (auto simp: answer_version_def write_message_def)
  obtain xs where "written st = announce vp @ xs" "distinct xs" "set xs \<subseteq> {verack_msg, getaddr_msg}"
      "verack_msg \<notin> set xs" "getaddr_msg \<in> set xs \<longleftrightarrow> sentGetaddr st" "sentGetaddr st \<longrightarrow> gotTheirVerack st"
    using assms(1) True by (auto simp: visit_inv_def orderly_def)
  then have "orderly vp st'"
    unfolding orderly_def st' using True answers_distinct
    by (intro conjI exI [of _ "xs @ [verack_msg]"]) auto
  then show ?thesis
    using assms(1) st' by (simp add: visit_inv_def heard_def)
next
  case False
  then have "st' = st"
    using assms(2) by (auto simp: answer_version_def write_message_def split: if_splits)
  then show ?thesis using assms(1) by simp
qed

lemma written_answer_verack:
  assumes "visit_inv vp st stream" "answer_verack w st = (st', ok)"
  shows "visit_inv vp st' stream"
proof (cases "gotTheirVerack st \<and> \<not> sentGetaddr st \<and> \<not> w (length (written st))")
  case True
  then have st': "st' = st\<lparr>written := written st @ [getaddr_msg], sentGetaddr := True\<rparr>"
    using assms(2) by (auto simp: answer_verack_def write_message_def)
  obtain xs where "written st = announce vp @ xs" "distinct xs" "set xs \<subseteq> {verack_msg, getaddr_msg}"
      "getaddr_msg \<notin> set xs" "verack_msg \<in> set xs \<longleftrightarrow> sentVerack st" "sentVerack st \<longrightarrow> theirVersion st \<noteq> None"
    using assms(1) True by (auto simp: visit_inv_def orderly_def)
  then have "orderly vp st'"
    unfolding orderly_def st' using True answers_distinct
    by (intro conjI exI [of _ "xs @ [getaddr_msg]"]) auto
  then show ?thesis
    using assms(1) st' by (simp add: visit_inv_def heard_def)
next
  case False
  then have "st' = st"
    using assms(2) by (auto simp: answer_verack_def write_message_def split: if_splits)
  then show ?thesis using assms(1) by simp
qed

lemma on_chunk_inv:
  assumes "visit_inv vp st stream" "on_chunk w chunk st = (st', again)"
  shows "visit_inv vp st' (stream @ chunk)"
proof -
  obtain s1 where d: "drain (st\<lparr>rbuf := rbuf st @ chunk\<rparr>) = (s1, True)" and i: "visit_inv vp s1 (stream @ chunk)"
    using drain_inv [OF assms(1)] by blast
  obtain s2 ok2 s3 ok3 where a: "answer_version w s1 = (s2, ok2)" "answer_verack w s2 = (s3, ok3)"
    by (meson surj_pair)
  have "visit_inv vp s2 (stream @ chunk)" "visit_inv vp s3 (stream @ chunk)"
    using written_answer_version [OF i a(1)] written_answer_verack [OF _ a(2)] by blast+
  moreover have "st' = s2 \<or> st' = s3"
    using assms(2) d a by (auto simp: on_chunk_def split: if_splits)
  ultimately show ?thesis by blast
qed

text \<open>The chunks the platform offers, in order.\<close>

definition offered :: "pass list \<Rightarrow> bytes list" where
  "offered ps = List.map_filter
     (\<lambda>p. case p_read p of Settled (Inr (Chunk c)) \<Rightarrow> Some c | _ \<Rightarrow> None) ps"

lemma receive_loop_inv:
  "visit_inv vp st stream \<Longrightarrow> receive_loop w deadline ps st = Some st' \<Longrightarrow>
   \<exists>n. visit_inv vp st' (stream @ concat (take n (offered ps)))"
proof (induction ps arbitrary: st stream)
  case (Cons p ps)
  consider (stop) "receive_loop w deadline (p # ps) st = Some st"
    | (chunk) c s again where "p_read p = Settled (Inr (Chunk c))" "on_chunk w c st = (s, again)"
        "receive_loop w deadline (p # ps) st = (if again then receive_loop w deadline ps s else Some s)"
  proof (cases "\<exists>c. jlt (jint (int (p_now p))) deadline \<and> \<not> jle (jsub deadline (jint (int (p_now2 p)))) (jint 0)
        \<and> p_read p = Settled (Inr (Chunk c))")
    case True
    then obtain c where "jlt (jint (int (p_now p))) deadline"
      "\<not> jle (jsub deadline (jint (int (p_now2 p)))) (jint 0)" "p_read p = Settled (Inr (Chunk c))"
      by blast
    moreover obtain s again where "on_chunk w c st = (s, again)" by (meson surj_pair)
    ultimately show ?thesis by (intro chunk) (simp_all add: withTimeout_def)
  next
    case False
    then show ?thesis
      by (intro stop) (auto simp: withTimeout_def split: race.splits sum.splits read_result.splits)
  qed
  then show ?case
  proof cases
    case stop
    then show ?thesis using Cons.prems by (intro exI [of _ 0]) simp
  next
    case chunk
    have i: "visit_inv vp s (stream @ c)" using on_chunk_inv [OF Cons.prems(1) chunk(2)] .
    have off: "offered (p # ps) = c # offered ps"
      using chunk(1) by (simp add: offered_def map_filter_Cons)
    show ?thesis
    proof (cases again)
      case True
      then obtain n where "visit_inv vp st' ((stream @ c) @ concat (take n (offered ps)))"
        using Cons.IH [OF i] chunk(3) Cons.prems(2) by auto
      then show ?thesis by (intro exI [of _ "Suc n"]) (simp add: off)
    next
      case False
      then show ?thesis using i chunk(3) Cons.prems(2) by (intro exI [of _ 1]) (simp add: off)
    qed
  qed
qed simp

lemma extract_all_Nil: "extract_all [] = Inr ([], [])"
  by (simp add: extract_all_None p2pTryExtractMessage_judge [of "[]"] indexOfMagic_def)

lemma visit_inv_announced:
  "visit_inv vp (visit0\<lparr>written := announce vp\<rparr>) []"
  by (simp add: visit_inv_def orderly_def heard_def visit0_def extract_all_Nil last_version_def
      List.map_filter_def)

text \<open>A conversation either broke off before it began or kept the invariant to its end.\<close>

lemma converse_cases:
  assumes "converse io ip port deadline = Some st"
  obtains (mute) "heard st []" "written st = []"
    | (half) vp where "heard st []" "written st = [p2pPackMessage (js ''version'') vp]"
        "p2pBuildVersionPayload ip (to_uint16 port) user_agent (io_nonce io) (io_now io) = Inr vp"
    | (full) vp n where "visit_inv vp st (concat (take n (offered (io_passes io))))"
        "p2pBuildVersionPayload ip (to_uint16 port) user_agent (io_nonce io) (io_now io) = Inr vp"
proof (cases "p2pBuildVersionPayload ip (to_uint16 port) user_agent (io_nonce io) (io_now io)")
  case (Inl e)
  then show ?thesis
    using assms mute
    by (auto simp: converse_def visit0_def heard_def last_version_def List.map_filter_def)
next
  case (Inr vp)
  let ?w = "io_wfail io"
  consider "?w 0" | "\<not> ?w 0" "?w 1" | "\<not> ?w 0" "\<not> ?w 1" by blast
  then show ?thesis
  proof cases
    case 1
    then show ?thesis
      using assms mute Inr
      by (auto simp: converse_def write_message_def visit0_def heard_def last_version_def List.map_filter_def)
  next
    case 2
    then show ?thesis
      using assms half Inr
      by (auto simp: converse_def write_message_def visit0_def heard_def last_version_def List.map_filter_def)
  next
    case 3
    then have "receive_loop ?w deadline (io_passes io) (visit0\<lparr>written := announce vp\<rparr>) = Some st"
      using assms Inr by (simp add: converse_def write_message_def visit0_def announce_def)
    from receive_loop_inv [OF visit_inv_announced this] show ?thesis
      using full Inr by auto
  qed
qed

lemma receive_loop_ends:
  "p \<in> set ps \<Longrightarrow> \<not> jlt (jint (int (p_now p))) deadline \<Longrightarrow> receive_loop w deadline ps st \<noteq> None"
proof (induction ps arbitrary: st)
  case (Cons q ps)
  show ?case
  proof (cases "p = q")
    case False
    then have "p \<in> set ps" using Cons.prems(1) by simp
    then have "receive_loop w deadline ps s \<noteq> None" for s using Cons.IH Cons.prems(2) by blast
    then show ?thesis by (auto split: sum.split read_result.split prod.split simp: Let_def)
  qed (use Cons.prems(2) in simp)
qed simp

lemma crawlPeerOnce_ends:
  assumes "p \<in> set (io_passes io)"
    "\<not> jlt (jint (int (p_now p))) (jadd (jint (int (io_start io))) totalTimeoutMs)"
  shows "crawlPeerOnce fetcher io ip port totalTimeoutMs \<noteq> None"
  using receive_loop_ends [OF assms, of "io_wfail io"]
  by (auto simp: crawlPeerOnce_def converse_def Let_def split: option.splits sum.splits prod.splits)

section \<open>Properties\<close>

text \<open>C9. A visit reports exactly what the peer said: there is a prefix of the offered chunks such
  that the result is \<open>null\<close> if no \<open>version\<close> message is among the intact messages of their
  concatenation, and otherwise carries the services, user agent and height of the last one
  together with all addresses of all \<open>addr\<close> and \<open>addrv2\<close> messages, in order.\<close>

theorem visit_reports_stream:
  assumes "crawlPeerOnce None io ip port totalTimeoutMs = Some (Inr res)"
  shows "\<exists>n ms rest. extract_all (concat (take n (offered (io_passes io)))) = Inr (ms, rest)
     \<and> res = map_option (\<lambda>v. \<lparr>r_services = v_services v, r_subver = v_subver v,
                 r_startHeight = v_startHeight v, r_addresses = concat (map addrs_in ms)\<rparr>) (last_version ms)"
proof -
  have nil: "extract_all (concat (take 0 (offered (io_passes io)))) = Inr ([], [])"
    "last_version [] = None"
    by (simp_all add: extract_all_Nil last_version_def List.map_filter_def)
  have r: "visit_result st = map_option (\<lambda>v. \<lparr>r_services = v_services v, r_subver = v_subver v,
      r_startHeight = v_startHeight v, r_addresses = concat (map addrs_in ms)\<rparr>) (last_version ms)"
    if "heard st ms" for st ms
    using that by (simp add: visit_result_def heard_def split: option.split)
  consider (closed) "res = None"
    | (opened) st where "converse io ip port (jadd (jint (int (io_start io))) totalTimeoutMs) = Some st" "res = visit_result st"
    using assms by (auto simp: crawlPeerOnce_def split: option.splits sum.splits)
  then show ?thesis
  proof cases
    case closed
    then show ?thesis using nil by (intro exI [of _ 0] exI [of _ "[]"]) simp
  next
    case opened
    from opened(1) show ?thesis
    proof (cases rule: converse_cases)
      case mute
      then show ?thesis using nil r [of st "[]"] opened(2) by (intro exI [of _ 0] exI [of _ "[]"]) simp
    next
      case (half vp)
      then show ?thesis using nil r [of st "[]"] opened(2) by (intro exI [of _ 0] exI [of _ "[]"]) simp
    next
      case (full vp n)
      then show ?thesis using r opened(2) by (auto simp: visit_inv_def)
    qed
  qed
qed

text \<open>C15. The conversation follows the protocol: the visit writes \<open>version\<close> and \<open>sendaddrv2\<close>
  first, then \<open>verack\<close> and \<open>getaddr\<close> at most once each, \<open>verack\<close> only when it has received a
  \<open>version\<close>, \<open>getaddr\<close> only when it has received a \<open>verack\<close>, and nothing else; if it cannot
  encode the address or a write fails early, it has written less, but nothing different.\<close>

theorem handshake_order:
  assumes "converse io ip port deadline = Some st"
  shows "written st = [] \<or>
    (\<exists>vp. p2pBuildVersionPayload ip (to_uint16 port) user_agent (io_nonce io) (io_now io) = Inr vp
       \<and> (written st = [p2pPackMessage (js ''version'') vp] \<or> orderly vp st))"
  using assms by (cases rule: converse_cases) (auto simp: visit_inv_def)


text \<open>A visit in which the peer sends three stray bytes and then nothing until the deadline.\<close>

definition sample_io :: peer_io where
  "sample_io = \<lparr>io_connect = None, io_opened = Settled (Inr ()), io_start = 1000, io_nonce = replicate 8 7,
     io_now = 1000, io_wfail = (\<lambda>_. False),
     io_passes = [\<lparr>p_now = 1001, p_now2 = 1001, p_read = Settled (Inr (Chunk [1, 2, 3]))\<rparr>,
                  \<lparr>p_now = 7000, p_now2 = 7000, p_read = TimedOut\<rparr>]\<rparr>"

lemma sample_drain: "drain (st\<lparr>rbuf := [1, 2, 3]\<rparr>) = (st\<lparr>rbuf := [1, 2, 3]\<rparr>, True)"
  by (simp add: drain.simps [of "st\<lparr>rbuf := [1, 2, 3]\<rparr>"] p2pTryExtractMessage_judge [of "[1, 2, 3]"]
      indexOfMagic_def)

lemma sample_converse:
  assumes "p2pBuildVersionPayload ip (to_uint16 port) user_agent (replicate 8 7) 1000 = Inr vp"
  shows "converse sample_io ip port (jint 6000)
     = Some (visit0\<lparr>written := announce vp, rbuf := [1, 2, 3]\<rparr>)"
  using assms sample_drain [of "visit0\<lparr>written := announce vp\<rparr>"]
  by (simp add: converse_def sample_io_def write_message_def visit0_def announce_def withTimeout_def
      jsub_jint safe_int_def on_chunk_def answer_version_def answer_verack_def del: js_simps)

lemma sample_version: "\<exists>vp. p2pBuildVersionPayload (js ''1.2.3.4'') (to_uint16 (jint 5333)) user_agent (replicate 8 7) 1000 = Inr vp"
  by (simp add: p2pBuildVersionPayload_def p2pEncodeAddr_def sample_ips p2pEncodeIp_any Let_def del: js_simps)

theorem visit_reports_stream_witness:
  "\<exists>n ms rest. extract_all (concat (take n (offered (io_passes sample_io)))) = Inr (ms, rest)
     \<and> None = map_option (\<lambda>v. \<lparr>r_services = v_services v, r_subver = v_subver v,
                 r_startHeight = v_startHeight v, r_addresses = concat (map addrs_in ms)\<rparr>) (last_version ms)"
proof -
  obtain vp where "p2pBuildVersionPayload (js ''1.2.3.4'') (to_uint16 (jint 5333)) user_agent (replicate 8 7) 1000 = Inr vp"
    using sample_version by blast
  from sample_converse [OF this]
  have "crawlPeerOnce None sample_io (js ''1.2.3.4'') (jint 5333) (jint 5000) = Some (Inr None)"
    by (simp add: crawlPeerOnce_def withTimeout_def visit_result_def visit0_def sample_io_def jadd_jint safe_int_def del: js_simps)
  then show ?thesis by (rule visit_reports_stream)
qed

theorem handshake_order_witness:
  "\<exists>st. converse sample_io (js ''1.2.3.4'') (jint 5333) (jint 6000) = Some st \<and> (written st = [] \<or>
    (\<exists>vp. p2pBuildVersionPayload (js ''1.2.3.4'') (to_uint16 (jint 5333)) user_agent (io_nonce sample_io) (io_now sample_io) = Inr vp
       \<and> (written st = [p2pPackMessage (js ''version'') vp] \<or> orderly vp st)))"
proof -
  obtain vp where "p2pBuildVersionPayload (js ''1.2.3.4'') (to_uint16 (jint 5333)) user_agent (replicate 8 7) 1000 = Inr vp"
    using sample_version by blast
  from sample_converse [OF this] show ?thesis using handshake_order by blast
qed


end
