(* ===== verification/Worker_Dns.thy ===== *)
theory Worker_Dns
  imports Js_Object Js_Utf8
begin

text \<open>
  Seed lookups over DNS-over-HTTPS (\<open>worker/src/dns.js\<close>). The resolver is a parameter
  (\<open>dns_io\<close>): what the request with a given number and URL yields, in the documented shape of
  its JSON replies, and which of two concurrent lookups fails first. Operations that talk to
  the network take the number of requests made so far and return it with their result
  (\<open>'a net\<close>), so that requests can be counted.

  The loop over rounds counts in doubles and may run forever (\<open>None\<close>). The results: how many
  requests a pass makes, that it returns for every number of rounds that a double can count to,
  and that it collects exactly the addresses of all replies. Pauses between rounds have no
  effect on the result and are left out.
\<close>

section \<open>Numbered requests\<close>

type_synonym 'a net = "nat \<Rightarrow> 'a res \<times> nat"

definition bindN :: "'a net \<Rightarrow> ('a \<Rightarrow> 'b net) \<Rightarrow> 'b net" where
  "bindN m f n = (case m n of (Inl e, n') \<Rightarrow> (Inl e, n') | (Inr x, n') \<Rightarrow> f x n')"

definition returnN :: "'a \<Rightarrow> 'a net" where
  "returnN x n = (Inr x, n)"

lemma bindN_simps [simp]:
  "m n = (Inl e, n') \<Longrightarrow> bindN m f n = (Inl e, n')"
  "m n = (Inr x, n') \<Longrightarrow> bindN m f n = f x n'"
  by (simp_all add: bindN_def)

lemma bindN_cases:
  assumes "bindN m f n = (r, n')"
  obtains (error) e where "m n = (Inl e, n')" "r = Inl e"
    | (good) x n1 where "m n = (Inr x, n1)" "f x n1 = (r, n')"
  using assms by (auto simp: bindN_def split: prod.splits sum.splits)

text \<open>A response: \<open>res.ok\<close>, and what \<open>await res.json()\<close> yields.\<close>

record 'b http =
  h_ok :: bool
  h_json :: "'b res"

section \<open>Lookups\<close>

record doh_answer =
  ans_type :: nat
  ans_data :: jsstr

record doh_body =
  Answer :: "doh_answer list option"

record dns_io =
  dns_reply :: "nat \<Rightarrow> jsstr \<Rightarrow> doh_body http res"
  dns_second_first :: "nat \<Rightarrow> bool"   \<comment> \<open>of two failing lookups, whether the second fails first\<close>

definition DOH_URL :: jsstr where
  "DOH_URL = js ''https://cloudflare-dns.com/dns-query''"

definition doh_url :: "jsstr \<Rightarrow> jsstr \<Rightarrow> jsstr" where
  "doh_url name ty = DOH_URL @ js ''?name='' @ name @ js ''&type='' @ ty"

definition doh_records :: "jsstr \<Rightarrow> doh_body http \<Rightarrow> jsstr list res" where
  "doh_records ty r =
     (if \<not> h_ok r then Inr []
      else bindE (h_json r) (\<lambda>body.
        let answers = (case Answer body of Some as \<Rightarrow> as | None \<Rightarrow> []);
            wantType = (if ty = js ''A'' then 1 else 28)
        in Inr (map ans_data (filter (\<lambda>a. ans_type a = wantType) answers))))"

definition dohLookup :: "dns_io \<Rightarrow> jsstr \<Rightarrow> jsstr \<Rightarrow> jsstr list net" where
  "dohLookup io host ty n =
     (case encodeURIComponent host of
        Inl e \<Rightarrow> (Inl e, n)
      | Inr name \<Rightarrow> (bindE (dns_reply io n (doh_url name ty)) (doh_records ty), Suc n))"

text \<open>\<open>Promise.all\<close> of two promises.\<close>

definition promise_all2 :: "bool \<Rightarrow> 'a res \<Rightarrow> 'b res \<Rightarrow> ('a \<times> 'b) res" where
  "promise_all2 second_first a b =
     (case (a, b) of
        (Inr x, Inr y) \<Rightarrow> Inr (x, y)
      | (Inl e, Inr _) \<Rightarrow> Inl e
      | (Inr _, Inl e) \<Rightarrow> Inl e
      | (Inl e, Inl e') \<Rightarrow> Inl (if second_first then e' else e))"

definition fetchSeedIpsOnce :: "dns_io \<Rightarrow> jsstr \<Rightarrow> jsstr list net" where
  "fetchSeedIpsOnce io host n =
     (let (a, n1) = dohLookup io host (js ''A'') n;
          (aaaa, n2) = dohLookup io host (js ''AAAA'') n1
      in (bindE (promise_all2 (dns_second_first io n) a aaaa) (\<lambda>(a, aaaa). Inr (new_Set (a @ aaaa))), n2))"

text \<open>\<open>for (const host of hosts) for (const ip of await fetchSeedIpsOnce(host)) seen.add(ip)\<close>\<close>

fun collect_hosts :: "dns_io \<Rightarrow> jsstr list \<Rightarrow> jsstr list \<Rightarrow> jsstr list net" where
  "collect_hosts io [] seen = returnN seen"
| "collect_hosts io (host # hosts) seen =
     bindN (fetchSeedIpsOnce io host) (\<lambda>ips. collect_hosts io hosts (fold set_add ips seen))"

partial_function (option) sample_rounds ::
    "dns_io \<Rightarrow> jsstr list \<Rightarrow> jsnum \<Rightarrow> jsnum \<Rightarrow> jsstr list \<Rightarrow> nat \<Rightarrow> (jsstr list res \<times> nat) option" where
  "sample_rounds io hosts rounds i seen n =
     (if jlt i (jmax (jint 1) rounds) then
        (case collect_hosts io hosts seen n of
           (Inl e, n') \<Rightarrow> Some (Inl e, n')
         | (Inr seen', n') \<Rightarrow> sample_rounds io hosts rounds (jadd i (jint 1)) seen' n')
      else Some (Inr seen, n))"

declare sample_rounds.simps [code]

definition sampleSeedIps ::
    "dns_io \<Rightarrow> jsstr list \<Rightarrow> jsnum \<Rightarrow> nat \<Rightarrow> (jsstr list res \<times> nat) option" where
  "sampleSeedIps io hosts rounds n = sample_rounds io hosts rounds (jint 0) [] n"

definition resolveExtraSeedIps :: "dns_io \<Rightarrow> jsstr list \<Rightarrow> jsstr list net" where
  "resolveExtraSeedIps io hosts = collect_hosts io hosts []"

section \<open>What a pass collects\<close>

text \<open>The addresses the two replies to one host hold, when request number \<open>n\<close> is the first.\<close>

definition seed_answers :: "dns_io \<Rightarrow> nat \<Rightarrow> jsstr \<Rightarrow> jsstr set" where
  "seed_answers io n host = (case fetchSeedIpsOnce io host n of (Inr ips, _) \<Rightarrow> set ips | _ \<Rightarrow> {})"

fun pass_answers :: "dns_io \<Rightarrow> nat \<Rightarrow> jsstr list \<Rightarrow> jsstr set" where
  "pass_answers io n [] = {}"
| "pass_answers io n (host # hosts) = seed_answers io n host \<union> pass_answers io (n + 2) hosts"

lemma dohLookup_count: "dohLookup io host ty n = (r, n') \<Longrightarrow> n \<le> n' \<and> n' \<le> Suc n"
  by (auto simp: dohLookup_def split: sum.splits)

lemma dohLookup_Inr: "dohLookup io host ty n = (Inr x, n') \<Longrightarrow> n' = Suc n"
  by (auto simp: dohLookup_def split: sum.splits)

lemma fetchSeedIpsOnce_count:
  assumes "fetchSeedIpsOnce io host n = (r, n')"
  shows "n \<le> n'" "n' \<le> n + 2" "r = Inr ips \<Longrightarrow> n' = n + 2"
proof -
  obtain a n1 b where d: "dohLookup io host (js ''A'') n = (a, n1)" "dohLookup io host (js ''AAAA'') n1 = (b, n')"
    and r: "r = bindE (promise_all2 (dns_second_first io n) a b) (\<lambda>(a, aaaa). Inr (new_Set (a @ aaaa)))"
    using assms by (auto simp: fetchSeedIpsOnce_def Let_def split: prod.splits)
  show "n \<le> n'" "n' \<le> n + 2"
    using dohLookup_count [OF d(1)] dohLookup_count [OF d(2)] by auto
  assume "r = Inr ips"
  then obtain x y where "a = Inr x" "b = Inr y"
    using r by (cases a; cases b) (auto simp: promise_all2_def split: if_splits)
  then show "n' = n + 2" using dohLookup_Inr d by fastforce
qed

lemma collect_hosts_correct:
  assumes "collect_hosts io hosts seen n = (r, n')"
  shows "n' \<le> n + 2 * length hosts"
    "r = Inr ips \<Longrightarrow> n' = n + 2 * length hosts \<and> set ips = set seen \<union> pass_answers io n hosts"
    "r = Inr ips \<Longrightarrow> distinct seen \<Longrightarrow> distinct ips"
  using assms
proof (induction hosts arbitrary: seen n)
  case Nil
  {
    case 1 then show ?case by (simp add: returnN_def)
  next
    case 2 then show ?case by (simp add: returnN_def)
  next
    case 3 then show ?case by (simp add: returnN_def)
  }
next
  case (Cons host hosts)
  {
    case 1
    from 1 [simplified] show ?case
    proof (cases rule: bindN_cases)
      case (error e)
      then show ?thesis using fetchSeedIpsOnce_count(2) [OF error(1)] by simp
    next
      case (good x n1)
      then show ?thesis using fetchSeedIpsOnce_count(2) [OF good(1)] Cons.IH(1) [OF good(2)] by simp
    qed
  next
    case 2
    from 2(2) [simplified] obtain x n1 where v: "fetchSeedIpsOnce io host n = (Inr x, n1)"
      "collect_hosts io hosts (fold set_add x seen) n1 = (r, n')"
      by (cases rule: bindN_cases) (use 2(1) in auto)
    have "n1 = n + 2" using fetchSeedIpsOnce_count(3) [OF v(1) refl] .
    then show ?case
      using Cons.IH(2) [OF 2(1) v(2)] v(1) by (auto simp: seed_answers_def set_fold_set_add)
  next
    case 3
    from 3(3) [simplified] obtain x n1 where v: "fetchSeedIpsOnce io host n = (Inr x, n1)"
      "collect_hosts io hosts (fold set_add x seen) n1 = (r, n')"
      by (cases rule: bindN_cases) (use 3(1) in auto)
    show ?case using Cons.IH(3) [OF 3(1) _ v(2)] 3(2) by (simp add: distinct_fold_set_add)
  }
qed

fun rounds_answers :: "dns_io \<Rightarrow> nat \<Rightarrow> jsstr list \<Rightarrow> nat \<Rightarrow> jsstr set" where
  "rounds_answers io n hosts 0 = {}"
| "rounds_answers io n hosts (Suc k) =
     pass_answers io n hosts \<union> rounds_answers io (n + 2 * length hosts) hosts k"

text \<open>\<open>k\<close> rounds still to go.\<close>

definition rounds_spec ::
    "dns_io \<Rightarrow> jsstr list \<Rightarrow> nat \<Rightarrow> jsstr list \<Rightarrow> nat \<Rightarrow> jsstr list res \<times> nat \<Rightarrow> bool" where
  "rounds_spec io hosts k seen n out \<longleftrightarrow>
     snd out \<le> n + 2 * length hosts * k
     \<and> (\<forall>ips. fst out = Inr ips \<longrightarrow>
          snd out = n + 2 * length hosts * k \<and> set ips = set seen \<union> rounds_answers io n hosts k
          \<and> (distinct seen \<longrightarrow> distinct ips))"

lemma sample_rounds_returns:
  assumes "max 1 r \<le> 2 ^ 53" "0 \<le> i" "i + int k = max 1 r"
  shows "\<exists>out. sample_rounds io hosts (jint r) (jint i) seen n = Some out \<and> rounds_spec io hosts k seen n out"
  using assms(2,3)
proof (induction k arbitrary: i seen n)
  case 0
  then have "\<not> i < max 1 r" by simp
  then show ?case by (subst sample_rounds.simps) (simp add: rounds_spec_def)
next
  case (Suc k)
  have lt: "i < max 1 r" using Suc.prems by simp
  have inc: "jadd (jint i) (jint 1) = jint (i + 1)"
    using Suc.prems assms(1) by (intro jadd_jint) (simp add: safe_int_def)
  obtain x n1 where c: "collect_hosts io hosts seen n = (x, n1)" by (meson surj_pair)
  show ?case
  proof (cases x)
    case (Inl e)
    then show ?thesis
      using lt c collect_hosts_correct(1) [OF c]
      by (subst sample_rounds.simps) (auto simp: rounds_spec_def)
  next
    case (Inr seen')
    have n1: "n1 = n + 2 * length hosts" and s': "set seen' = set seen \<union> pass_answers io n hosts"
      and d: "distinct seen \<longrightarrow> distinct seen'"
      using collect_hosts_correct(2,3) [OF c Inr] by auto
    obtain out where o: "sample_rounds io hosts (jint r) (jint (i + 1)) seen' n1 = Some out"
      "rounds_spec io hosts k seen' n1 out"
      using Suc.IH [of "i + 1" seen' n1] Suc.prems by auto
    have "sample_rounds io hosts (jint r) (jint i) seen n = Some out"
      using lt c Inr inc o(1) by (subst sample_rounds.simps) simp
    moreover have "rounds_spec io hosts (Suc k) seen n out"
      using o(2) n1 s' d by (auto simp: rounds_spec_def algebra_simps)
    ultimately show ?thesis by blast
  qed
qed

text \<open>Without a number of rounds no seeder is asked.\<close>

lemma sampleSeedIps_NaN: "sampleSeedIps io hosts NaN n = Some (Inr [], n)"
  unfolding sampleSeedIps_def by (subst sample_rounds.simps) (simp add: jint_def)

lemma sampleSeedIps_returns:
  assumes "r \<le> 2 ^ 53"
  shows "\<exists>res n'. sampleSeedIps io hosts (jint r) n = Some (res, n')
     \<and> n' \<le> n + 2 * length hosts * nat (max 1 r)
     \<and> (\<forall>ips. res = Inr ips \<longrightarrow> n' = n + 2 * length hosts * nat (max 1 r) \<and> distinct ips
          \<and> set ips = rounds_answers io n hosts (nat (max 1 r)))"
proof -
  have "max 1 r \<le> 2 ^ 53" "0 + int (nat (max 1 r)) = max 1 r" using assms by auto
  from sample_rounds_returns [OF this(1) order_refl this(2), of io hosts "[]" n]
  show ?thesis by (auto simp: sampleSeedIps_def rounds_spec_def)
qed


definition sample_dns :: dns_io where
  "sample_dns = \<lparr>dns_reply = (\<lambda>n url. Inr \<lparr>h_ok = True, h_json = Inr \<lparr>Answer =
       Some [\<lparr>ans_type = (if even n then 1 else 28), ans_data = [65 + n]\<rparr>]\<rparr>\<rparr>), dns_second_first = (\<lambda>_. False)\<rparr>"


end
