(* ===== verification/Worker_Geo.thy ===== *)
theory Worker_Geo
  imports Worker_Dns
begin

text \<open>
  GeoIP resolution (\<open>worker/src/geo.js\<close>): three services tried in turn for one address, and
  the cached, bounded resolution of a list of addresses. The services are a parameter: what the
  request with a given number and URL yields, as a JSON value. Country names and codes are text
  in the documented replies of all three services and are read as such.

  The results: an address is resolved by the first service that knows it; fresh cache entries
  are reused without a request; the number of lookups is bounded, with up to three requests
  for each.
\<close>

section \<open>JSON values\<close>

datatype json = JNull | JBool bool | JNum jsnum | JStr jsstr | JArr "json list" | JObj "(jsstr \<times> json) list"

text \<open>\<open>j.k\<close> for a \<open>j\<close> that is not \<open>null\<close>; \<open>None\<close> is \<open>undefined\<close>\<close>

definition jprop :: "json \<Rightarrow> jsstr \<Rightarrow> json option" where
  "jprop j k = (case j of JObj ob \<Rightarrow> map_of ob k | _ \<Rightarrow> None)"

fun js_truthy :: "json \<Rightarrow> bool" where
  "js_truthy JNull = False"
| "js_truthy (JBool b) = b"
| "js_truthy (JNum x) = (x \<noteq> NaN \<and> x \<noteq> jint 0)"
| "js_truthy (JStr s) = (s \<noteq> [])"
| "js_truthy (JArr _) = True"
| "js_truthy (JObj _) = True"

definition str_prop :: "json \<Rightarrow> jsstr \<Rightarrow> jsstr option" where
  "str_prop j k = (case jprop j k of Some (JStr s) \<Rightarrow> Some s | _ \<Rightarrow> None)"

text \<open>\<open>typeof j.k === 'number' ? j.k : null\<close>\<close>

definition num_prop :: "json \<Rightarrow> jsstr \<Rightarrow> jsnum option" where
  "num_prop j k = (case jprop j k of Some (JNum x) \<Rightarrow> Some x | _ \<Rightarrow> None)"

definition truthy_str :: "jsstr option \<Rightarrow> bool" where
  "truthy_str s = (case s of Some t \<Rightarrow> t \<noteq> [] | None \<Rightarrow> False)"

section \<open>One address\<close>

record geo =
  g_country :: "jsstr option"
  g_countryCode :: "jsstr option"
  g_lat :: "jsnum option"
  g_lon :: "jsnum option"
  g_at :: "nat option"

type_synonym geo_io = "nat \<Rightarrow> jsstr \<Rightarrow> json http res"

definition fetchJson :: "geo_io \<Rightarrow> jsstr \<Rightarrow> nat \<Rightarrow> json \<times> nat" where
  "fetchJson io url n =
     (case io n url of
        Inl _ \<Rightarrow> JNull
      | Inr r \<Rightarrow> if \<not> h_ok r then JNull
                 else (case h_json r of Inl _ \<Rightarrow> JNull | Inr j \<Rightarrow> j), Suc n)"

definition ip_api_url :: "jsstr \<Rightarrow> jsstr" where
  "ip_api_url ip =
     js ''http://ip-api.com/json/'' @ ip @ js ''?fields=status,message,country,countryCode,lat,lon,query''"

definition ip_api_geo :: "json \<Rightarrow> geo option" where
  "ip_api_geo i =
     (if js_truthy i \<and> jprop i (js ''status'') = Some (JStr (js ''success''))
         \<and> truthy_str (str_prop i (js ''countryCode''))
      then Some \<lparr>g_country = str_prop i (js ''country''), g_countryCode = str_prop i (js ''countryCode''),
                 g_lat = num_prop i (js ''lat''), g_lon = num_prop i (js ''lon''), g_at = None\<rparr>
      else None)"

definition ipwho_url :: "jsstr \<Rightarrow> jsstr" where
  "ipwho_url ip = js ''https://ipwho.is/'' @ ip"

definition ipwho_geo :: "json \<Rightarrow> geo option" where
  "ipwho_geo w =
     (if js_truthy w \<and> jprop w (js ''success'') = Some (JBool True)
         \<and> truthy_str (str_prop w (js ''country_code''))
      then Some \<lparr>g_country = str_prop w (js ''country''), g_countryCode = str_prop w (js ''country_code''),
                 g_lat = num_prop w (js ''latitude''), g_lon = num_prop w (js ''longitude''), g_at = None\<rparr>
      else None)"

definition ipapi_co_url :: "jsstr \<Rightarrow> jsstr" where
  "ipapi_co_url ip = js ''https://ipapi.co/'' @ ip @ js ''/json/''"

definition ipapi_co_geo :: "json \<Rightarrow> geo option" where
  "ipapi_co_geo a =
     (if js_truthy a
         \<and> \<not> (case jprop a (js ''error'') of Some e \<Rightarrow> js_truthy e | None \<Rightarrow> False)
         \<and> truthy_str (str_prop a (js ''country_code''))
      then Some \<lparr>g_country = str_prop a (js ''country_name''), g_countryCode = str_prop a (js ''country_code''),
                 g_lat = num_prop a (js ''latitude''), g_lon = num_prop a (js ''longitude''), g_at = None\<rparr>
      else None)"

definition lookupGeoOne :: "geo_io \<Rightarrow> jsstr \<Rightarrow> nat \<Rightarrow> geo option \<times> nat" where
  "lookupGeoOne io ip n =
     (let (i, n1) = fetchJson io (ip_api_url ip) n
      in case ip_api_geo i of
           Some g \<Rightarrow> (Some g, n1)
         | None \<Rightarrow>
             (let (w, n2) = fetchJson io (ipwho_url ip) n1
              in case ipwho_geo w of
                   Some g \<Rightarrow> (Some g, n2)
                 | None \<Rightarrow>
                     (let (a, n3) = fetchJson io (ipapi_co_url ip) n2
                      in case ipapi_co_geo a of
                           Some g \<Rightarrow> (Some g, n3)
                         | None \<Rightarrow> (None, n3))))"

section \<open>A list of addresses\<close>

definition is_fresh :: "nat \<Rightarrow> jsnum \<Rightarrow> geo \<Rightarrow> bool" where
  "is_fresh now ttlSeconds cached =
     jlt (jint (int now - int (case g_at cached of Some t \<Rightarrow> t | None \<Rightarrow> 0))) ttlSeconds"

fun split_cached ::
    "nat \<Rightarrow> jsnum \<Rightarrow> geo obj \<Rightarrow> jsstr list \<Rightarrow> geo obj \<Rightarrow> jsstr list \<Rightarrow> geo obj \<times> jsstr list" where
  "split_cached now ttlSeconds geoCache [] result toLookup = (result, toLookup)"
| "split_cached now ttlSeconds geoCache (ip # ips) result toLookup =
     (case obj_get geoCache ip of
        Some cached \<Rightarrow>
          if is_fresh now ttlSeconds cached
          then split_cached now ttlSeconds geoCache ips (obj_put ip cached result) toLookup
          else split_cached now ttlSeconds geoCache ips result (toLookup @ [ip])
      | None \<Rightarrow> split_cached now ttlSeconds geoCache ips result (toLookup @ [ip]))"

fun lookup_all :: "geo_io \<Rightarrow> nat \<Rightarrow> jsstr list \<Rightarrow> geo obj \<Rightarrow> nat \<Rightarrow> geo obj \<times> nat" where
  "lookup_all io now [] result n = (result, n)"
| "lookup_all io now (ip # ips) result n =
     (case lookupGeoOne io ip n of
        (Some g, n') \<Rightarrow> lookup_all io now ips (obj_put ip (g\<lparr>g_at := Some now\<rparr>) result) n'
      | (None, n') \<Rightarrow> lookup_all io now ips result n')"

definition resolveGeo ::
    "geo_io \<Rightarrow> nat \<Rightarrow> jsstr list \<Rightarrow> geo obj \<Rightarrow> jsnum \<Rightarrow> jsnum \<Rightarrow> nat \<Rightarrow> geo obj \<times> nat" where
  "resolveGeo io now ips geoCache ttlDays maxLookups n =
     (let ttlSeconds = jmul ttlDays (jint 86400);
          (result, toLookup) = split_cached now ttlSeconds geoCache ips [] []
      in lookup_all io now (slice_to toLookup maxLookups) result n)"

section \<open>The services in turn\<close>

text \<open>What the three services say about an address when asked from request number \<open>n\<close> on.\<close>

definition geo_answers :: "geo_io \<Rightarrow> jsstr \<Rightarrow> nat \<Rightarrow> geo option list" where
  "geo_answers io ip n =
     [ip_api_geo (fst (fetchJson io (ip_api_url ip) n)),
      ipwho_geo (fst (fetchJson io (ipwho_url ip) (n + 1))),
      ipapi_co_geo (fst (fetchJson io (ipapi_co_url ip) (n + 2)))]"

lemma snd_fetchJson [simp]: "snd (fetchJson io url n) = Suc n"
  by (simp add: fetchJson_def)

text \<open>
  The services are asked in order until one answers: the result is the first answer and the
  number of requests is its position, three if there is none.
\<close>

lemma lookupGeoOne_answers:
  "lookupGeoOne io ip n =
     (let as = geo_answers io ip n; k = length (takeWhile (\<lambda>a. a = None) as)
      in (if k < 3 then as ! k else None, n + min 3 (Suc k)))"
proof -
  let ?i = "fst (fetchJson io (ip_api_url ip) n)" and ?w = "fst (fetchJson io (ipwho_url ip) (Suc n))"
    and ?a = "fst (fetchJson io (ipapi_co_url ip) (Suc (Suc n)))"
  have "lookupGeoOne io ip n =
    (case ip_api_geo ?i of Some g \<Rightarrow> (Some g, Suc n) | None \<Rightarrow>
      (case ipwho_geo ?w of Some g \<Rightarrow> (Some g, n + 2) | None \<Rightarrow>
        (case ipapi_co_geo ?a of Some g \<Rightarrow> (Some g, n + 3) | None \<Rightarrow> (None, n + 3))))"
    by (simp add: lookupGeoOne_def Let_def split_beta split: option.split)
  then show ?thesis by (simp add: geo_answers_def split: option.split)
qed

lemma geo_answers_located: "Some g \<in> set (geo_answers io ip n) \<Longrightarrow> truthy_str (g_countryCode g)"
  by (auto simp: geo_answers_def ip_api_geo_def ipwho_geo_def ipapi_co_geo_def split: if_splits)

lemma lookupGeoOne_result:
  assumes "lookupGeoOne io ip n = (r, n')"
  shows "n' \<le> n + 3" "n < n'" "r = Some g \<Longrightarrow> truthy_str (g_countryCode g)"
proof -
  let ?as = "geo_answers io ip n"
  let ?k = "length (takeWhile (\<lambda>a. a = None) ?as)"
  have eq: "r = (if ?k < 3 then ?as ! ?k else None)" "n' = n + min 3 (Suc ?k)"
    using assms by (simp_all add: lookupGeoOne_answers Let_def)
  show "n' \<le> n + 3" "n < n'" using eq(2) by simp_all
  assume "r = Some g"
  then have "?k < length ?as" "?as ! ?k = Some g"
    using eq(1) by (simp_all add: geo_answers_def split: if_splits)
  then show "truthy_str (g_countryCode g)" by (metis geo_answers_located nth_mem)
qed

section \<open>Cache and lookups\<close>

definition cached_fresh :: "nat \<Rightarrow> jsnum \<Rightarrow> geo obj \<Rightarrow> jsstr \<Rightarrow> geo option" where
  "cached_fresh now ttlSeconds geoCache ip =
     (case obj_get geoCache ip of
        Some c \<Rightarrow> if is_fresh now ttlSeconds c then Some c else None
      | None \<Rightarrow> None)"

lemma split_cached_lookup:
  "snd (split_cached now ttl cache ips result toLookup)
     = toLookup @ filter (\<lambda>ip. cached_fresh now ttl cache ip = None) ips"
  by (induction ips arbitrary: result toLookup) (auto simp: cached_fresh_def split: option.split)

lemma split_cached_result:
  "obj_get (fst (split_cached now ttl cache ips result toLookup)) k
     = (if k \<in> set ips \<and> cached_fresh now ttl cache k \<noteq> None then cached_fresh now ttl cache k
        else obj_get result k)"
  by (induction ips arbitrary: result toLookup)
    (auto simp: cached_fresh_def obj_get_put split: option.splits)

lemma split_cached_wf: "obj_wf result \<Longrightarrow> obj_wf (fst (split_cached now ttl cache ips result toLookup))"
  by (induction ips arbitrary: result toLookup) (auto split: option.split)

definition newly_found :: "nat \<Rightarrow> geo option \<Rightarrow> bool" where
  "newly_found now e \<longleftrightarrow> (\<exists>g. e = Some g \<and> g_at g = Some now \<and> truthy_str (g_countryCode g))"

lemma lookup_all_step:
  assumes "lookup_all io now ips result n = (r, n')"
  shows "n' \<le> n + 3 * length ips \<and> (obj_wf result \<longrightarrow> obj_wf r)
     \<and> (\<forall>k. obj_get r k = obj_get result k \<or> k \<in> set ips \<and> newly_found now (obj_get r k))"
  using assms
proof (induction ips arbitrary: result n)
  case (Cons ip ips)
  obtain x n1 where l: "lookupGeoOne io ip n = (x, n1)" by (meson surj_pair)
  let ?res = "case x of None \<Rightarrow> result | Some g \<Rightarrow> obj_put ip (g\<lparr>g_at := Some now\<rparr>) result"
  have "lookup_all io now ips ?res n1 = (r, n')"
    using Cons.prems l by (simp split: option.splits)
  note IH = Cons.IH [OF this]
  have g: "obj_get ?res k = obj_get result k \<or> k = ip \<and> newly_found now (obj_get ?res k)" for k
    using lookupGeoOne_result(3) [OF l]
    by (auto simp: newly_found_def obj_get_put split: option.splits)
  have "obj_get r k = obj_get result k \<or> k \<in> set (ip # ips) \<and> newly_found now (obj_get r k)" for k
    using g [of k] IH [THEN conjunct2, THEN conjunct2, THEN spec, of k] by auto
  moreover have "obj_wf result \<longrightarrow> obj_wf ?res" by (simp split: option.split)
  moreover have "n' \<le> n + 3 * length (ip # ips)" using lookupGeoOne_result(1) [OF l] IH by simp
  ultimately show ?case using IH by blast
qed auto

lemma lookup_all_result:
  assumes "lookup_all io now ips result n = (r, n')"
  shows "n' \<le> n + 3 * length ips"
    "obj_get r k = obj_get result k \<or> k \<in> set ips \<and> newly_found now (obj_get r k)"
    "obj_wf result \<Longrightarrow> obj_wf r"
  using lookup_all_step [OF assms] by blast+

text \<open>
  A call resolves: fresh entries as they are, at most the first \<open>m\<close> of the others anew.
\<close>

definition geo_resolved ::
    "nat \<Rightarrow> jsnum \<Rightarrow> geo obj \<Rightarrow> jsstr list \<Rightarrow> jsstr list \<Rightarrow> geo obj \<Rightarrow> bool" where
  "geo_resolved now ttl cache ips asked res \<longleftrightarrow>
     obj_wf res
     \<and> (\<forall>ip. obj_get res ip \<noteq> None \<longrightarrow> ip \<in> set ips)
     \<and> (\<forall>ip \<in> set ips. cached_fresh now ttl cache ip \<noteq> None \<longrightarrow> obj_get res ip = cached_fresh now ttl cache ip)
     \<and> (\<forall>ip g. cached_fresh now ttl cache ip = None \<longrightarrow> obj_get res ip = Some g \<longrightarrow>
          ip \<in> set asked \<and> g_at g = Some now \<and> truthy_str (g_countryCode g))"

lemma resolveGeo_result:
  fixes now cache ips ttlDays
  defines "ttl \<equiv> jmul ttlDays (jint 86400)"
  defines "stale \<equiv> filter (\<lambda>ip. cached_fresh now (jmul ttlDays (jint 86400)) cache ip = None) ips"
  assumes "resolveGeo io now ips cache ttlDays maxLookups n = (res, n')"
  shows "n' \<le> n + 3 * length (slice_to stale maxLookups)"
    "geo_resolved now ttl cache ips (slice_to stale maxLookups) res"
proof -
  let ?r0 = "fst (split_cached now ttl cache ips [] [])"
  let ?asked = "slice_to stale maxLookups"
  have st: "snd (split_cached now ttl cache ips [] []) = stale"
    by (simp add: split_cached_lookup stale_def ttl_def)
  have la: "lookup_all io now ?asked ?r0 n = (res, n')"
    using assms(3) st by (simp add: resolveGeo_def Let_def ttl_def split_beta)
  note la_facts = lookup_all_result [OF la]
  show "n' \<le> n + 3 * length ?asked" using la_facts(1) .
  have r0: "obj_get ?r0 k = (if k \<in> set ips \<and> cached_fresh now ttl cache k \<noteq> None
      then cached_fresh now ttl cache k else None)" for k
    by (simp add: split_cached_result)
  have asked: "k \<in> set ips \<and> cached_fresh now ttl cache k = None" if "k \<in> set ?asked" for k
    using that set_slice_to [of stale maxLookups] by (auto simp: stale_def ttl_def)
  show "geo_resolved now ttl cache ips ?asked res"
    unfolding geo_resolved_def
  proof (intro conjI allI ballI impI)
    show "obj_wf res" by (rule la_facts(3) [OF split_cached_wf]) simp
    show "ip \<in> set ips" if "obj_get res ip \<noteq> None" for ip
      using that la_facts(2) [of ip] r0 [of ip] asked [of ip] by (auto split: if_splits)
    show "obj_get res ip = cached_fresh now ttl cache ip"
      if "ip \<in> set ips" "cached_fresh now ttl cache ip \<noteq> None" for ip
      using that la_facts(2) [of ip] r0 [of ip] asked [of ip] by auto
    show "ip \<in> set ?asked" "g_at g = Some now" "truthy_str (g_countryCode g)"
      if "cached_fresh now ttl cache ip = None" "obj_get res ip = Some g" for ip g
      using that la_facts(2) [of ip] r0 [of ip] by (auto simp: newly_found_def split: if_splits)
  qed
qed

section \<open>Properties\<close>

text \<open>C39. Resolution reuses and is bounded: with a limit of \<open>m\<close> it makes at most three requests for
  each of the first \<open>m\<close> addresses that have no fresh cache entry, none for the others; fresh
  entries are returned unchanged, and every other entry of the result is new, dated now, has a
  country and belongs to one of those \<open>m\<close> addresses.\<close>

theorem resolveGeo_bounded:
  assumes "resolveGeo io now ips cache ttlDays (jint m) n = (res, n')" "0 \<le> m"
  shows "let ttl = jmul ttlDays (jint 86400);
             asked = take (nat m) (filter (\<lambda>ip. cached_fresh now ttl cache ip = None) ips)
         in n' \<le> n + 3 * length asked \<and> geo_resolved now ttl cache ips asked res"
  using resolveGeo_result [OF assms(1)] assms(2) by (simp add: slice_to_jint)

definition sample_geo_io :: geo_io where
  "sample_geo_io n url =
     (if n < 2 then Inl TypeError
      else Inr \<lparr>h_ok = True, h_json = Inr (JObj [(js ''country_code'', JStr (js ''DE''))])\<rparr>)"

definition sample_geo :: geo where
  "sample_geo = \<lparr>g_country = None, g_countryCode = Some (js ''FR''), g_lat = None, g_lon = None, g_at = Some 900\<rparr>"

lemma sample_resolve:
  "\<exists>res. resolveGeo sample_geo_io 1000 [js ''1.1.1.1'', js ''2.2.2.2''] [(js ''1.1.1.1'', sample_geo)]
     (jint 30) (jint 1) 0 = (res, 3)"
  by (simp add: resolveGeo_def sample_geo_io_def sample_geo_def is_fresh_def jmul_jint safe_int_def
      slice_to_jint lookupGeoOne_def fetchJson_def ip_api_geo_def ipwho_geo_def ipapi_co_geo_def
      jprop_def str_prop_def truthy_str_def)

theorem resolveGeo_bounded_witness:
  "\<exists>res. let ips = [js ''1.1.1.1'', js ''2.2.2.2'']; cache = [(js ''1.1.1.1'', sample_geo)];
      ttl = jmul (jint 30) (jint 86400);
      asked = take (nat 1) (filter (\<lambda>ip. cached_fresh 1000 ttl cache ip = None) ips)
    in resolveGeo sample_geo_io 1000 ips cache (jint 30) (jint 1) 0 = (res, 3)
       \<and> 3 \<le> 0 + 3 * length asked \<and> geo_resolved 1000 ttl cache ips asked res"
proof -
  obtain res where "resolveGeo sample_geo_io 1000 [js ''1.1.1.1'', js ''2.2.2.2'']
      [(js ''1.1.1.1'', sample_geo)] (jint 30) (jint 1) 0 = (res, 3)"
    using sample_resolve by blast
  from resolveGeo_bounded [OF this] this show ?thesis
    unfolding Let_def by (intro exI [of _ res]) (simp del: js_simps)
qed

end
