(* ===== verification/Crawl_Store.thy ===== *)
theory Crawl_Store
  imports Crawl_Peer Worker_Geo
begin

text \<open>
  One round of discovery (\<open>advanceCrawl\<close> of \<open>worker/src/crawl.js\<close>): seed addresses become
  roots of the peer store, a bounded batch of known peers is visited, the addresses they report
  are added one hop further out, and peers not seen for long are dropped.

  The store is an object whose records have optional members: \<open>None\<close> is an absent or
  \<open>null\<close> member. Times are whole seconds, the numbers of the configuration are doubles.
  Resolver and peers are parameters, numbered by the requests made so far. The result is
  \<open>None\<close> while a lookup or visit is still under way, an exception, or the new store.

  Two arguments carry the proofs: the locale \<open>record_invariant\<close> (a property of records that
  every update keeps holds throughout the store after a round) and \<open>improves\<close> (what a round may
  do to a record it keeps). The store is shown to implement a map from peers to the time they
  were last seen.
\<close>

section \<open>Store and configuration\<close>

record peer =
  k_firstSeen :: "nat option"
  k_lastSeen :: "nat option"
  k_depth :: "nat option"
  k_network :: "jsstr option"
  k_ip :: "jsstr option"
  k_port :: "nat option"
  k_parent :: "jsstr option"
  k_lastCrawled :: "nat option"
  k_lastCrawlOk :: "bool option"
  k_lastCrawlAddrCount :: "nat option"
  k_services :: "nat option"
  k_subver :: "jsstr option"
  k_startHeight :: "nat option"

definition blank_peer :: peer where
  "blank_peer = \<lparr>k_firstSeen = None, k_lastSeen = None, k_depth = None, k_network = None, k_ip = None,
     k_port = None, k_parent = None, k_lastCrawled = None, k_lastCrawlOk = None,
     k_lastCrawlAddrCount = None, k_services = None, k_subver = None, k_startHeight = None\<rparr>"

type_synonym store = "peer obj"

record config =
  seedHosts :: "jsstr list"
  extraSeedHosts :: "jsstr list"
  dnsRounds :: jsnum
  dnsDelayMs :: jsnum
  p2pPort :: jsnum
  maxDepth :: jsnum
  maxPeersPerRun :: jsnum
  maxGeoLookupsPerRun :: jsnum
  connectTimeoutMs :: jsnum
  totalTimeoutMs :: jsnum
  geoTtlDays :: jsnum
  staleAfterDays :: jsnum
  onlineWindowHours :: jsnum
  refreshSeconds :: jsnum
  corsOrigin :: jsstr

text \<open>\<open>v ?? dflt\<close>\<close>

definition nullish :: "'a option \<Rightarrow> 'a \<Rightarrow> 'a" where
  "nullish v dflt = (case v of Some x \<Rightarrow> x | None \<Rightarrow> dflt)"

lemma nullish_simps [simp]: "nullish None d = d" "nullish (Some x) d = x"
  by (simp_all add: nullish_def)

section \<open>Roots\<close>

definition self_heal :: "jsstr \<Rightarrow> peer \<Rightarrow> peer" where
  "self_heal ip r =
     (let r1 = (if \<not> truthy_str (k_network r)
                then r\<lparr>k_network := Some (inferNetwork ip (k_network r) (k_ip r))\<rparr> else r)
      in if \<not> truthy_str (k_ip r1) then r1\<lparr>k_ip := Some ip\<rparr> else r1)"

definition new_root :: "nat \<Rightarrow> jsstr \<Rightarrow> peer" where
  "new_root now ip =
     blank_peer\<lparr>k_firstSeen := Some now, k_depth := Some 0,
       k_network := Some (if js_includes ip (js '':'') then js ''ipv6'' else js ''ipv4''), k_ip := Some ip\<rparr>"

definition known_root :: "jsstr \<Rightarrow> peer \<Rightarrow> peer" where
  "known_root ip r = self_heal ip (r\<lparr>k_depth := Some (min (nullish (k_depth r) 0) 0)\<rparr>)"

definition note_root :: "nat \<Rightarrow> jsstr \<Rightarrow> store \<Rightarrow> store" where
  "note_root now ip store =
     (let r = (case obj_get store ip of None \<Rightarrow> new_root now ip | Some r \<Rightarrow> known_root ip r)
      in obj_put ip (r\<lparr>k_lastSeen := Some now\<rparr>) store)"

section \<open>Candidates\<close>

record cand =
  cd_key :: jsstr
  cd_ip :: jsstr
  cd_lastCrawled :: nat
  cd_depth :: nat
  cd_verified :: bool
  cd_network :: jsstr

text \<open>What the filter writes into every record it looks at.\<close>

definition heal_record :: "jsstr \<Rightarrow> peer \<Rightarrow> peer" where
  "heal_record key r =
     (let r1 = (if \<not> truthy_str (k_network r)
                then r\<lparr>k_network := Some (inferNetwork key (k_network r) (k_ip r))\<rparr> else r)
      in if \<not> truthy_str (k_ip r1)
            \<and> (k_network r1 = Some (js ''ipv4'') \<or> k_network r1 = Some (js ''ipv6'')
               \<or> k_network r1 = Some (js ''cjdns''))
         then r1\<lparr>k_ip := Some key\<rparr> else r1)"

definition heal_store :: "store \<Rightarrow> store" where
  "heal_store store = map (\<lambda>(key, r). (key, heal_record key r)) store"

definition eligible :: "config \<Rightarrow> peer \<Rightarrow> bool" where
  "eligible cfg r \<longleftrightarrow>
     (k_network r = Some (js ''ipv4'') \<or> k_network r = Some (js ''ipv6''))
     \<and> jlt (jint (int (nullish (k_depth r) 0))) (maxDepth cfg)"

definition mk_cand :: "jsstr \<times> peer \<Rightarrow> cand" where
  "mk_cand = (\<lambda>(key, r).
     \<lparr>cd_key = key, cd_ip = nullish (k_ip r) key, cd_lastCrawled = nullish (k_lastCrawled r) 0,
      cd_depth = nullish (k_depth r) 0, cd_verified = (k_lastCrawlOk r = Some True),
      cd_network = nullish (k_network r) []\<rparr>)"

definition crawl_order :: "cand \<Rightarrow> cand \<Rightarrow> int" where
  "crawl_order a b =
     (if cd_verified a \<noteq> cd_verified b then (if cd_verified a then - 1 else 1)
      else if cd_network a \<noteq> cd_network b then (if cd_network a = js ''ipv4'' then - 1 else 1)
      else int (cd_lastCrawled a) - int (cd_lastCrawled b))"

definition eligible_cands :: "config \<Rightarrow> store \<Rightarrow> cand list" where
  "eligible_cands cfg store = map mk_cand (filter (\<lambda>(_, r). eligible cfg r) (js_entries store))"

definition candidates :: "config \<Rightarrow> store \<Rightarrow> cand list" where
  "candidates cfg store =
     slice_to (js_sort crawl_order (eligible_cands cfg store)) (jmax (jint 0) (maxPeersPerRun cfg))"

section \<open>Visits\<close>

definition new_addr :: "nat \<Rightarrow> jsstr \<Rightarrow> nat \<Rightarrow> addr2 \<Rightarrow> peer" where
  "new_addr now key childDepth addr =
     blank_peer\<lparr>k_firstSeen := Some now, k_lastSeen := Some now, k_depth := Some childDepth,
       k_network := Some (d_network addr), k_ip := d_ip addr, k_port := Some (d_port addr),
       k_parent := Some key\<rparr>"

definition known_addr :: "nat \<Rightarrow> nat \<Rightarrow> peer \<Rightarrow> peer" where
  "known_addr now childDepth r =
     r\<lparr>k_lastSeen := Some now, k_depth := Some (min (nullish (k_depth r) childDepth) childDepth)\<rparr>"

definition note_addr :: "nat \<Rightarrow> jsstr \<Rightarrow> nat \<Rightarrow> addr2 \<Rightarrow> store \<Rightarrow> store" where
  "note_addr now key childDepth addr store =
     (let addrKey = d_key addr
      in if addrKey = key then store
         else case obj_get store addrKey of
                None \<Rightarrow> obj_put addrKey (new_addr now key childDepth addr) store
              | Some r \<Rightarrow> obj_put addrKey (known_addr now childDepth r) store)"

definition note_failure :: "nat \<Rightarrow> peer \<Rightarrow> peer" where
  "note_failure now r = r\<lparr>k_lastCrawled := Some now, k_lastCrawlOk := Some False\<rparr>"

definition note_success :: "nat \<Rightarrow> peer_result \<Rightarrow> peer \<Rightarrow> peer" where
  "note_success now result r =
     r\<lparr>k_lastCrawled := Some now, k_lastCrawlOk := Some True,
       k_lastCrawlAddrCount := Some (length (r_addresses result)), k_lastSeen := Some now,
       k_services := Some (r_services result), k_subver := Some (r_subver result),
       k_startHeight := Some (r_startHeight result)\<rparr>"

definition note_visit :: "nat \<Rightarrow> cand \<Rightarrow> peer \<Rightarrow> peer_result option \<Rightarrow> store \<Rightarrow> store" where
  "note_visit now c r result store =
     (case result of
        None \<Rightarrow> obj_put (cd_key c) (note_failure now r) store
      | Some res \<Rightarrow>
          fold (note_addr now (cd_key c) (cd_depth c + 1)) (r_addresses res)
            (obj_put (cd_key c) (note_success now res r) store))"

type_synonym fetcher = "(jsstr \<Rightarrow> jsnum \<Rightarrow> peer_result option res) option"

text \<open>
  \<open>store[key]\<close> exists for every candidate; reading a member of \<open>undefined\<close> would throw.
\<close>

fun crawl_all ::
    "fetcher \<Rightarrow> (nat \<Rightarrow> peer_io) \<Rightarrow> config \<Rightarrow> nat \<Rightarrow> cand list \<Rightarrow> store \<Rightarrow> nat \<Rightarrow> (store res \<times> nat) option" where
  "crawl_all fetcher peers cfg now [] store n = Some (Inr store, n)"
| "crawl_all fetcher peers cfg now (c # cs) store n =
     (case obj_get store (cd_key c) of
        None \<Rightarrow> Some (Inl TypeError, n)
      | Some r \<Rightarrow>
          (let port = (case k_port r of Some p \<Rightarrow> jint (int p) | None \<Rightarrow> p2pPort cfg)
           in case crawlPeerOnce fetcher (peers n) (cd_ip c) port (totalTimeoutMs cfg) of
                None \<Rightarrow> None
              | Some (Inl e) \<Rightarrow> Some (Inl e, Suc n)
              | Some (Inr result) \<Rightarrow>
                  crawl_all fetcher peers cfg now cs (note_visit now c r result store) (Suc n)))"

section \<open>Pruning and the whole round\<close>

definition is_stale :: "jsnum \<Rightarrow> peer \<Rightarrow> bool" where
  "is_stale cutoff r = jlt (jint (int (nullish (k_lastSeen r) 0))) cutoff"

definition prune_key :: "jsnum \<Rightarrow> jsstr \<Rightarrow> store \<Rightarrow> store" where
  "prune_key cutoff key store =
     (case obj_get store key of
        Some r \<Rightarrow> if is_stale cutoff r then AList.delete key store else store
      | None \<Rightarrow> store)"

definition prune :: "jsnum \<Rightarrow> store \<Rightarrow> store" where
  "prune cutoff store = fold (prune_key cutoff) (js_keys store) store"

definition stale_cutoff :: "config \<Rightarrow> nat \<Rightarrow> jsnum" where
  "stale_cutoff cfg now = jsub (jint (int now)) (jmul (staleAfterDays cfg) (jint 86400))"

definition crawl_roots :: "nat \<Rightarrow> jsstr list \<Rightarrow> store \<Rightarrow> store" where
  "crawl_roots now roots store = fold (note_root now) roots store"

definition advanceCrawl ::
    "fetcher \<Rightarrow> dns_io \<Rightarrow> (nat \<Rightarrow> peer_io) \<Rightarrow> config \<Rightarrow> nat \<Rightarrow> store \<Rightarrow> nat \<Rightarrow> (store res \<times> nat) option" where
  "advanceCrawl fetcher dns peers cfg now store n =
     (case sampleSeedIps dns (seedHosts cfg) (dnsRounds cfg) n of
        None \<Rightarrow> None
      | Some (Inl e, n1) \<Rightarrow> Some (Inl e, n1)
      | Some (Inr seeds, n1) \<Rightarrow>
          (case resolveExtraSeedIps dns (extraSeedHosts cfg) n1 of
             (Inl e, n2) \<Rightarrow> Some (Inl e, n2)
           | (Inr extra, n2) \<Rightarrow>
               (let rooted = crawl_roots now (new_Set (seeds @ extra)) store;
                    healed = heal_store rooted
                in case crawl_all fetcher peers cfg now (candidates cfg healed) healed n2 of
                     None \<Rightarrow> None
                   | Some (Inl e, n3) \<Rightarrow> Some (Inl e, n3)
                   | Some (Inr crawled, n3) \<Rightarrow> Some (Inr (prune (stale_cutoff cfg now) crawled), n3))))"

section \<open>The order of the candidates\<close>

definition reachable_net :: "cand \<Rightarrow> bool" where
  "reachable_net c \<longleftrightarrow> cd_network c = js ''ipv4'' \<or> cd_network c = js ''ipv6''"

interpretation crawl: comparison crawl_order reachable_net
proof
  fix x y z :: cand
  assume r: "reachable_net x" "reachable_net y"
  show "crawl_order x y \<le> 0 \<or> crawl_order y x \<le> 0"
    using r by (auto simp: crawl_order_def reachable_net_def)
  assume "reachable_net z" "crawl_order x y \<le> 0" "crawl_order y z \<le> 0"
  with r show "crawl_order x z \<le> 0"
    by (auto simp: crawl_order_def reachable_net_def split: if_splits)
qed

lemma mk_cand_simps [simp]:
  "cd_key (mk_cand kr) = fst kr" "cd_depth (mk_cand kr) = nullish (k_depth (snd kr)) 0"
  "cd_network (mk_cand kr) = nullish (k_network (snd kr)) []"
  "cd_verified (mk_cand kr) \<longleftrightarrow> k_lastCrawlOk (snd kr) = Some True"
  "cd_lastCrawled (mk_cand kr) = nullish (k_lastCrawled (snd kr)) 0"
  by (simp_all add: mk_cand_def split_beta)

lemma eligible_cand:
  assumes "c \<in> set (eligible_cands cfg store)"
  obtains k r where "(k, r) \<in> set store" "eligible cfg r" "c = mk_cand (k, r)"
proof -
  obtain kr where kr: "kr \<in> set store" "eligible cfg (snd kr)" "c = mk_cand kr"
    using assms by (auto simp: eligible_cands_def simp del: js_simps)
  then show ?thesis using that [of "fst kr" "snd kr"] by simp
qed

lemma eligible_reachable: "c \<in> set (eligible_cands cfg store) \<Longrightarrow> reachable_net c"
  by (erule eligible_cand) (auto simp: eligible_def reachable_net_def simp del: js_simps)

lemma eligible_depth:
  "c \<in> set (eligible_cands cfg store) \<Longrightarrow> jlt (jint (int (cd_depth c))) (maxDepth cfg)"
  by (erule eligible_cand) (simp add: eligible_def del: js_simps)

lemma candidates_eligible: "c \<in> set (candidates cfg store) \<Longrightarrow> c \<in> set (eligible_cands cfg store)"
  using set_slice_to by (fastforce simp: candidates_def)

lemma candidates_prefix: "\<exists>n. candidates cfg store = take n (js_sort crawl_order (eligible_cands cfg store))"
  unfolding candidates_def by (rule slice_to_prefix)

lemma length_candidates: "maxPeersPerRun cfg = jint m \<Longrightarrow> length (candidates cfg store) \<le> nat m"
  by (simp add: candidates_def length_slice_to_jint)

lemma candidates_precede:
  assumes "c \<in> set (candidates cfg store)" "e \<in> set (eligible_cands cfg store)" "e \<notin> set (candidates cfg store)"
  shows "crawl_order c e \<le> 0"
proof -
  let ?xs = "eligible_cands cfg store"
  obtain n where n: "candidates cfg store = take n (js_sort crawl_order ?xs)" using candidates_prefix by blast
  have "e \<in> set (js_sort crawl_order ?xs)" using assms(2) by simp
  then have "e \<in> set (drop n (js_sort crawl_order ?xs))"
    using assms(3) n by (metis Un_iff append_take_drop_id set_append)
  then show ?thesis
    using crawl.take_js_sort_first [of c n ?xs e] assms(1) n eligible_reachable by auto
qed

section \<open>Invariants of all records\<close>

definition all_peers :: "(jsstr \<Rightarrow> peer \<Rightarrow> bool) \<Rightarrow> store \<Rightarrow> bool" where
  "all_peers P store \<longleftrightarrow> obj_wf store \<and> (\<forall>k r. obj_get store k = Some r \<longrightarrow> P k r)"

lemma all_peers_put: "all_peers P store \<Longrightarrow> P k r \<Longrightarrow> all_peers P (obj_put k r store)"
  by (simp add: all_peers_def obj_get_put)

lemma map_of_delete: "obj_get (AList.delete k ob) k' = (if k' = k then None else obj_get ob k')"
  by (simp add: delete_conv')

lemma heal_store_get: "obj_get (heal_store store) k = map_option (heal_record k) (obj_get store k)"
  by (induction store) (auto simp: heal_store_def)

lemma obj_wf_heal [simp]: "obj_wf (heal_store store) = obj_wf store"
  by (simp add: obj_wf_def heal_store_def split_beta comp_def)

lemma obj_wf_prune_key [simp]: "obj_wf store \<Longrightarrow> obj_wf (prune_key cutoff k store)"
  by (simp add: prune_key_def split: option.split)

lemma prune_key_get:
  "obj_get (prune_key cutoff k store) k' =
     (if k' = k then (case obj_get store k of Some r \<Rightarrow> if is_stale cutoff r then None else Some r | None \<Rightarrow> None)
      else obj_get store k')"
  by (simp add: prune_key_def map_of_delete split: option.split)

lemma fold_prune_get:
  "obj_get (fold (prune_key cutoff) ks store) k =
     (case obj_get store k of
        Some r \<Rightarrow> if k \<in> set ks \<and> is_stale cutoff r then None else Some r
      | None \<Rightarrow> None)"
  by (induction ks arbitrary: store) (auto simp: prune_key_get split: option.split)

lemma prune_get:
  "obj_get (prune cutoff store) k =
     (case obj_get store k of Some r \<Rightarrow> if is_stale cutoff r then None else Some r | None \<Rightarrow> None)"
proof -
  have "k \<in> set (js_keys store)" if "obj_get store k = Some r" for r
    using map_of_SomeD [OF that] by force
  then show ?thesis by (auto simp: prune_def fold_prune_get split: option.split)
qed

lemma prune_wf [simp]: "obj_wf store \<Longrightarrow> obj_wf (prune cutoff store)"
proof -
  have "obj_wf st \<Longrightarrow> obj_wf (fold (prune_key cutoff) ks st)" for ks st
    by (induction ks arbitrary: st) simp_all
  then show "obj_wf store \<Longrightarrow> obj_wf (prune cutoff store)" by (simp add: prune_def)
qed

text \<open>The contract of a property of records that every operation of a round keeps.\<close>

locale record_invariant =
  fixes P :: "jsstr \<Rightarrow> peer \<Rightarrow> bool" and cfg :: config and now :: nat
  assumes root_new: "P ip (new_root now ip\<lparr>k_lastSeen := Some now\<rparr>)"
    and root_known: "P ip r \<Longrightarrow> P ip (known_root ip r\<lparr>k_lastSeen := Some now\<rparr>)"
    and healed: "P k r \<Longrightarrow> P k (heal_record k r)"
    and failure: "P k r \<Longrightarrow> P k (note_failure now r)"
    and success: "P k r \<Longrightarrow> P k (note_success now res r)"
    and addr_new: "jlt (jint (int d)) (maxDepth cfg) \<Longrightarrow> d_key addr \<noteq> key \<Longrightarrow>
      P (d_key addr) (new_addr now key (Suc d) addr)"
    and addr_known: "jlt (jint (int d)) (maxDepth cfg) \<Longrightarrow> P k r \<Longrightarrow> P k (known_addr now (Suc d) r)"
begin

lemma note_root_keeps: "all_peers P store \<Longrightarrow> all_peers P (note_root now ip store)"
  unfolding note_root_def Let_def
  by (rule all_peers_put) (auto simp: all_peers_def root_new root_known split: option.split)

lemma crawl_roots_keeps: "all_peers P store \<Longrightarrow> all_peers P (crawl_roots now roots store)"
  unfolding crawl_roots_def by (induction roots arbitrary: store) (simp_all add: note_root_keeps)

lemma heal_store_keeps: "all_peers P store \<Longrightarrow> all_peers P (heal_store store)"
  by (auto simp: all_peers_def heal_store_get healed)

lemma note_addr_keeps:
  "jlt (jint (int d)) (maxDepth cfg) \<Longrightarrow> all_peers P store \<Longrightarrow> all_peers P (note_addr now key (Suc d) addr store)"
  unfolding note_addr_def Let_def
  by (cases "obj_get store (d_key addr)")
    (auto simp: addr_new addr_known all_peers_def obj_get_put)

lemma note_visit_keeps:
  assumes "jlt (jint (int (cd_depth c))) (maxDepth cfg)" "all_peers P store" "obj_get store (cd_key c) = Some r"
  shows "all_peers P (note_visit now c r result store)"
proof -
  have "P (cd_key c) r" using assms(2,3) by (simp add: all_peers_def)
  moreover have "all_peers P st \<Longrightarrow> all_peers P (fold (note_addr now (cd_key c) (Suc (cd_depth c))) as st)" for as st
    by (induction as arbitrary: st) (simp_all add: note_addr_keeps [OF assms(1)])
  ultimately show ?thesis
    using assms(2) by (auto simp: note_visit_def all_peers_put failure success split: option.split)
qed

lemma crawl_all_keeps:
  "crawl_all fetcher peers cfg now cs store n = Some (Inr store', n') \<Longrightarrow>
   \<forall>c \<in> set cs. jlt (jint (int (cd_depth c))) (maxDepth cfg) \<Longrightarrow> all_peers P store \<Longrightarrow> all_peers P store'"
proof (induction cs arbitrary: store n)
  case (Cons c cs)
  obtain r result where r: "obj_get store (cd_key c) = Some r"
    "crawl_all fetcher peers cfg now cs (note_visit now c r result store) (Suc n) = Some (Inr store', n')"
    using Cons.prems(1) by (auto simp: Let_def split: option.splits sum.splits)
  have "all_peers P (note_visit now c r result store)"
    using Cons.prems(2,3) by (intro note_visit_keeps [OF _ _ r(1)]) auto
  then show ?case using Cons.IH [OF r(2)] Cons.prems(2) by simp
qed simp

lemma prune_keeps: "all_peers P store \<Longrightarrow> all_peers P (prune cutoff store)"
  by (auto simp: all_peers_def prune_get split: option.splits if_splits)

lemma advanceCrawl_keeps:
  assumes "advanceCrawl fetcher dns peers cfg now store n = Some (Inr store', n')" "all_peers P store"
  shows "all_peers P store'"
proof -
  obtain roots healed n2 crawled where h: "healed = heal_store (crawl_roots now roots store)"
    and c: "crawl_all fetcher peers cfg now (candidates cfg healed) healed n2 = Some (Inr crawled, n')"
    and s: "store' = prune (stale_cutoff cfg now) crawled"
    using assms(1) by (auto simp: advanceCrawl_def Let_def split: option.splits sum.splits prod.splits)
  have "all_peers P healed" using h assms(2) by (simp add: heal_store_keeps crawl_roots_keeps)
  moreover have "\<forall>c \<in> set (candidates cfg healed). jlt (jint (int (cd_depth c))) (maxDepth cfg)"
    using candidates_eligible eligible_depth by blast
  ultimately show ?thesis using crawl_all_keeps [OF c] prune_keeps s by blast
qed

end

section \<open>What every record satisfies\<close>

text \<open>
  The depth is zero or one more than a depth below the limit; the first sighting is not after
  the last, and neither is in the future; a verified peer has been asked and has answered; and
  no peer is its own parent.
\<close>

definition peer_ok :: "config \<Rightarrow> nat \<Rightarrow> jsstr \<Rightarrow> peer \<Rightarrow> bool" where
  "peer_ok cfg now k r \<longleftrightarrow>
     (\<exists>d. k_depth r = Some d \<and> (0 < d \<longrightarrow> jlt (jint (int (d - 1))) (maxDepth cfg)))
     \<and> (\<exists>f t. k_firstSeen r = Some f \<and> k_lastSeen r = Some t \<and> f \<le> t \<and> t \<le> now)
     \<and> (k_lastCrawlOk r = Some True \<longrightarrow>
          k_lastCrawled r \<noteq> None \<and> k_services r \<noteq> None \<and> k_subver r \<noteq> None \<and> k_startHeight r \<noteq> None)
     \<and> k_parent r \<noteq> Some k"

definition store_ok :: "config \<Rightarrow> nat \<Rightarrow> store \<Rightarrow> bool" where
  "store_ok cfg now = all_peers (peer_ok cfg now)"

lemma peer_ok_depth: "jlt (jint (int d)) (maxDepth cfg) \<Longrightarrow> e \<le> Suc d \<Longrightarrow> 0 < e \<Longrightarrow>
  jlt (jint (int (e - 1))) (maxDepth cfg)"
  by (cases "maxDepth cfg") (auto simp: jint_def)

lemma heal_record_other [simp]:
  "k_depth (heal_record k r) = k_depth r" "k_firstSeen (heal_record k r) = k_firstSeen r"
  "k_lastSeen (heal_record k r) = k_lastSeen r" "k_lastCrawlOk (heal_record k r) = k_lastCrawlOk r"
  "k_lastCrawled (heal_record k r) = k_lastCrawled r" "k_services (heal_record k r) = k_services r"
  "k_subver (heal_record k r) = k_subver r" "k_startHeight (heal_record k r) = k_startHeight r"
  "k_parent (heal_record k r) = k_parent r" "k_port (heal_record k r) = k_port r"
  by (simp_all add: heal_record_def Let_def del: js_simps)

lemma known_root_other [simp]:
  "k_depth (known_root k r) = Some 0" "k_firstSeen (known_root k r) = k_firstSeen r"
  "k_lastSeen (known_root k r) = k_lastSeen r" "k_lastCrawlOk (known_root k r) = k_lastCrawlOk r"
  "k_lastCrawled (known_root k r) = k_lastCrawled r" "k_services (known_root k r) = k_services r"
  "k_subver (known_root k r) = k_subver r" "k_startHeight (known_root k r) = k_startHeight r"
  "k_parent (known_root k r) = k_parent r" "k_port (known_root k r) = k_port r"
  by (simp_all add: known_root_def self_heal_def Let_def)

interpretation known: record_invariant "peer_ok cfg now" cfg now for cfg now
proof
  fix ip k key :: jsstr and r :: peer and res :: peer_result and addr :: addr2 and d :: nat
  show "peer_ok cfg now ip (new_root now ip\<lparr>k_lastSeen := Some now\<rparr>)"
    by (simp add: peer_ok_def new_root_def blank_peer_def)
  show "peer_ok cfg now ip r \<Longrightarrow> peer_ok cfg now ip (known_root ip r\<lparr>k_lastSeen := Some now\<rparr>)"
    by (auto simp: peer_ok_def)
  show "peer_ok cfg now k r \<Longrightarrow> peer_ok cfg now k (heal_record k r)"
    by (simp add: peer_ok_def)
  show "peer_ok cfg now k r \<Longrightarrow> peer_ok cfg now k (note_failure now r)"
    by (simp add: peer_ok_def note_failure_def)
  show "peer_ok cfg now k r \<Longrightarrow> peer_ok cfg now k (note_success now res r)"
    by (auto simp: peer_ok_def note_success_def)
  assume lt: "jlt (jint (int d)) (maxDepth cfg)"
  show "d_key addr \<noteq> key \<Longrightarrow> peer_ok cfg now (d_key addr) (new_addr now key (Suc d) addr)"
    using lt by (simp add: peer_ok_def new_addr_def blank_peer_def)
  show "peer_ok cfg now k r \<Longrightarrow> peer_ok cfg now k (known_addr now (Suc d) r)"
    using peer_ok_depth [OF lt] by (auto simp: peer_ok_def known_addr_def min_def)
qed

lemma peer_ok_later: "peer_ok cfg t k r \<Longrightarrow> t \<le> now \<Longrightarrow> peer_ok cfg now k r"
  unfolding peer_ok_def by (meson le_trans)

lemma store_ok_later: "store_ok cfg t store \<Longrightarrow> t \<le> now \<Longrightarrow> store_ok cfg now store"
  unfolding store_ok_def all_peers_def by (blast intro: peer_ok_later)

lemma store_ok_Nil [simp]: "store_ok cfg now []"
  by (simp add: store_ok_def all_peers_def)

section \<open>The parts of a round\<close>

text \<open>The visits of a round: candidates with what came of them.\<close>

fun visited ::
    "fetcher \<Rightarrow> (nat \<Rightarrow> peer_io) \<Rightarrow> config \<Rightarrow> (jsstr \<Rightarrow> jsnum) \<Rightarrow> nat \<Rightarrow> (cand \<times> peer_result option) list \<Rightarrow> bool" where
  "visited fetcher peers cfg port n [] = True"
| "visited fetcher peers cfg port n ((c, result) # vs) \<longleftrightarrow>
     crawlPeerOnce fetcher (peers n) (cd_ip c) (port (cd_key c)) (totalTimeoutMs cfg) = Some (Inr result)
     \<and> visited fetcher peers cfg port (Suc n) vs"

definition peer_port :: "config \<Rightarrow> store \<Rightarrow> jsstr \<Rightarrow> jsnum" where
  "peer_port cfg store k =
     (case obj_get store k of
        Some r \<Rightarrow> (case k_port r of Some p \<Rightarrow> jint (int p) | None \<Rightarrow> p2pPort cfg)
      | None \<Rightarrow> p2pPort cfg)"

text \<open>The abstract view of the store: when each peer was last seen.\<close>

definition seen_map :: "store \<Rightarrow> jsstr \<rightharpoonup> nat" where
  "seen_map store k = map_option (\<lambda>r. nullish (k_lastSeen r) 0) (obj_get store k)"

definition touch :: "nat \<Rightarrow> jsstr set \<Rightarrow> (jsstr \<rightharpoonup> nat) \<Rightarrow> (jsstr \<rightharpoonup> nat)" where
  "touch now ks m k = (if k \<in> ks then Some now else m k)"

definition expire :: "jsnum \<Rightarrow> (jsstr \<rightharpoonup> nat) \<Rightarrow> (jsstr \<rightharpoonup> nat)" where
  "expire cutoff m k =
     (case m k of Some t \<Rightarrow> if jlt (jint (int t)) cutoff then None else Some t | None \<Rightarrow> None)"

text \<open>The peers heard of in a visit: itself, if it answered, and all others it reported.\<close>

definition heard_of :: "cand \<times> peer_result option \<Rightarrow> jsstr set" where
  "heard_of v = (case v of
      (c, None) \<Rightarrow> {}
    | (c, Some res) \<Rightarrow> insert (cd_key c) (d_key ` set (r_addresses res)))"

lemma touch_touch [simp]: "touch now A (touch now B m) = touch now (A \<union> B) m"
  by (auto simp: touch_def)

lemma touch_empty [simp]: "touch now {} m = m"
  by (auto simp: touch_def)

lemma seen_note_root: "seen_map (note_root now ip store) = touch now {ip} (seen_map store)"
  by (auto simp: seen_map_def touch_def note_root_def Let_def obj_get_put)

lemma seen_crawl_roots: "seen_map (crawl_roots now roots store) = touch now (set roots) (seen_map store)"
  unfolding crawl_roots_def
  by (induction roots arbitrary: store) (simp_all add: seen_note_root Un_commute)

lemma seen_heal: "seen_map (heal_store store) = seen_map store"
  by (auto simp: seen_map_def heal_store_get option.map_comp comp_def)

lemma seen_note_addr:
  "seen_map (note_addr now key d addr store)
     = touch now (if d_key addr = key then {} else {d_key addr}) (seen_map store)"
  by (auto simp: seen_map_def touch_def note_addr_def Let_def obj_get_put new_addr_def known_addr_def
      blank_peer_def split: option.split)

lemma seen_note_addrs:
  "seen_map (fold (note_addr now key d) as store) = touch now (d_key ` set as - {key}) (seen_map store)"
  by (induction as arbitrary: store) (auto simp: seen_note_addr touch_def)

lemma seen_note_visit:
  assumes "obj_get store (cd_key c) = Some r"
  shows "seen_map (note_visit now c r result store) = touch now (heard_of (c, result)) (seen_map store)"
proof (cases result)
  case None
  then show ?thesis
    using assms by (auto simp: heard_of_def note_visit_def note_failure_def seen_map_def obj_get_put)
next
  case (Some res)
  have "seen_map (obj_put (cd_key c) (note_success now res r) store) = touch now {cd_key c} (seen_map store)"
    by (auto simp: seen_map_def touch_def note_success_def obj_get_put)
  then show ?thesis
    using Some by (auto simp: heard_of_def note_visit_def seen_note_addrs touch_def)
qed

lemma seen_prune: "seen_map (prune cutoff store) = expire cutoff (seen_map store)"
  by (auto simp: seen_map_def expire_def prune_get is_stale_def split: option.split)

section \<open>Records only improve\<close>

text \<open>
  What a round may do to a record it keeps: first sighting, parent and port stay, the depth
  does not grow, the last sighting stays or becomes now.
\<close>

definition improves :: "nat \<Rightarrow> peer \<Rightarrow> peer \<Rightarrow> bool" where
  "improves now r r' \<longleftrightarrow>
     k_firstSeen r' = k_firstSeen r \<and> k_parent r' = k_parent r \<and> k_port r' = k_port r
     \<and> (k_lastSeen r' = k_lastSeen r \<or> k_lastSeen r' = Some now)
     \<and> (\<forall>d. k_depth r = Some d \<longrightarrow> (\<exists>d'. k_depth r' = Some d' \<and> d' \<le> d))"

definition store_improves :: "nat \<Rightarrow> store \<Rightarrow> store \<Rightarrow> bool" where
  "store_improves now st st' \<longleftrightarrow>
     (\<forall>k r. obj_get st k = Some r \<longrightarrow> (\<exists>r'. obj_get st' k = Some r' \<and> improves now r r'))"

lemma improves_refl [simp]: "improves now r r"
  by (simp add: improves_def)

lemma improves_trans: "improves now r s \<Longrightarrow> improves now s t \<Longrightarrow> improves now r t"
  unfolding improves_def by (metis le_trans)

lemma store_improves_refl [simp]: "store_improves now st st"
  by (simp add: store_improves_def)

lemma store_improves_trans:
  "store_improves now a b \<Longrightarrow> store_improves now b c \<Longrightarrow> store_improves now a c"
  unfolding store_improves_def by (meson improves_trans)

lemma store_improves_put:
  "(\<And>r. obj_get st k = Some r \<Longrightarrow> improves now r r') \<Longrightarrow> store_improves now st (obj_put k r' st)"
  by (auto simp: store_improves_def obj_get_put)

lemma improves_updates:
  "improves now r (known_root k r\<lparr>k_lastSeen := Some now\<rparr>)" "improves now r (heal_record k r)"
  "improves now r (note_failure now r)" "improves now r (note_success now res r)"
  "improves now r (known_addr now d r)"
  by (auto simp: improves_def note_failure_def note_success_def known_addr_def)

lemma note_root_improves: "store_improves now st (note_root now ip st)"
  unfolding note_root_def Let_def by (rule store_improves_put) (simp add: improves_updates)

lemma fold_improves: "(\<And>x st. store_improves now st (f x st)) \<Longrightarrow> store_improves now st (fold f xs st)"
  by (induction xs arbitrary: st) (auto intro: store_improves_trans)

lemma crawl_roots_improves: "store_improves now st (crawl_roots now roots st)"
  unfolding crawl_roots_def by (rule fold_improves) (rule note_root_improves)

lemma heal_store_improves: "store_improves now st (heal_store st)"
  by (auto simp: store_improves_def heal_store_get improves_updates)

lemma note_addr_improves: "store_improves now st (note_addr now key d addr st)"
  by (auto simp: note_addr_def Let_def improves_updates intro!: store_improves_put split: option.split)

lemma note_visit_improves:
  assumes "obj_get st (cd_key c) = Some r"
  shows "store_improves now st (note_visit now c r result st)"
proof -
  have "store_improves now st (obj_put (cd_key c) (note_failure now r) st)"
    "store_improves now st (obj_put (cd_key c) (note_success now res r) st)" for res
    using assms by (auto intro!: store_improves_put simp: improves_updates)
  then show ?thesis
    by (auto simp: note_visit_def intro: store_improves_trans [OF _ fold_improves] note_addr_improves
        split: option.split)
qed

lemma peer_port_improves:
  "store_improves now st st' \<Longrightarrow> obj_get st k = Some r \<Longrightarrow> peer_port cfg st' k = peer_port cfg st k"
  by (auto simp: store_improves_def improves_def peer_port_def dest!: spec split: option.splits)

section \<open>The visits of a round\<close>

lemma crawl_all_visits:
  assumes "crawl_all fetcher peers cfg now cs st n = Some (Inr st', n')"
    and "store_improves now st0 st" "\<forall>c \<in> set cs. obj_get st0 (cd_key c) \<noteq> None"
  shows "store_improves now st st' \<and> n' = n + length cs
     \<and> (\<exists>vs. map fst vs = cs \<and> visited fetcher peers cfg (peer_port cfg st0) n vs
          \<and> seen_map st' = touch now (\<Union> (heard_of ` set vs)) (seen_map st))"
  using assms
proof (induction cs arbitrary: st n)
  case (Cons c cs)
  obtain r result where r: "obj_get st (cd_key c) = Some r"
    and v: "crawlPeerOnce fetcher (peers n) (cd_ip c) (peer_port cfg st (cd_key c)) (totalTimeoutMs cfg)
        = Some (Inr result)"
    and rest: "crawl_all fetcher peers cfg now cs (note_visit now c r result st) (Suc n) = Some (Inr st', n')"
    using Cons.prems(1) by (auto simp: Let_def peer_port_def split: option.splits sum.splits)
  note step = note_visit_improves [OF r, of now result]
  obtain r0 where "obj_get st0 (cd_key c) = Some r0" using Cons.prems(3) by auto
  then have port: "peer_port cfg st (cd_key c) = peer_port cfg st0 (cd_key c)"
    using peer_port_improves Cons.prems(2) by blast
  obtain vs where i: "store_improves now (note_visit now c r result st) st'" "n' = Suc n + length cs"
    and vs: "map fst vs = cs" "visited fetcher peers cfg (peer_port cfg st0) (Suc n) vs"
      "seen_map st' = touch now (\<Union> (heard_of ` set vs)) (seen_map (note_visit now c r result st))"
    using Cons.IH [OF rest store_improves_trans [OF Cons.prems(2) step]] Cons.prems(3) by auto
  show ?case
  proof (intro conjI exI [of _ "(c, result) # vs"])
    show "store_improves now st st'" using step i(1) by (rule store_improves_trans)
    show "seen_map st' = touch now (\<Union> (heard_of ` set ((c, result) # vs))) (seen_map st)"
      using vs(3) seen_note_visit [OF r] by (simp add: Un_commute)
  qed (use v vs i port in simp_all)
qed (auto intro: exI [of _ "[]"])

lemma crawl_all_count: "crawl_all fetcher peers cfg now cs st n = Some (x, n') \<Longrightarrow> n' \<le> n + length cs"
  by (induction cs arbitrary: st n)
    (fastforce simp: Let_def split: option.splits sum.splits)+

lemma candidates_present:
  "obj_wf store \<Longrightarrow> c \<in> set (candidates cfg store) \<Longrightarrow> obj_get store (cd_key c) \<noteq> None"
  by (drule candidates_eligible, erule eligible_cand) (simp add: obj_get_in)

lemma obj_wf_note_root [simp]: "obj_wf st \<Longrightarrow> obj_wf (note_root now ip st)"
  by (simp add: note_root_def Let_def)

lemma obj_wf_crawl_roots [simp]: "obj_wf st \<Longrightarrow> obj_wf (crawl_roots now roots st)"
  unfolding crawl_roots_def by (induction roots arbitrary: st) simp_all

text \<open>A round that returns a store, taken apart.\<close>

lemma advanceCrawl_parts:
  assumes "advanceCrawl fetcher dns peers cfg now store n = Some (Inr store', n')" "obj_wf store"
  obtains (parts) seeds n1 extra n2 healed crawled vs where
    "sampleSeedIps dns (seedHosts cfg) (dnsRounds cfg) n = Some (Inr seeds, n1)"
    "resolveExtraSeedIps dns (extraSeedHosts cfg) n1 = (Inr extra, n2)"
    "healed = heal_store (crawl_roots now (new_Set (seeds @ extra)) store)"
    "map fst vs = candidates cfg healed" "visited fetcher peers cfg (peer_port cfg healed) n2 vs"
    "seen_map crawled = touch now (\<Union> (heard_of ` set vs)) (seen_map healed)"
    "store_improves now healed crawled" "store' = prune (stale_cutoff cfg now) crawled"
    "n' = n2 + length (candidates cfg healed)"
proof -
  obtain seeds n1 extra n2 healed crawled where
    a: "sampleSeedIps dns (seedHosts cfg) (dnsRounds cfg) n = Some (Inr seeds, n1)"
      "resolveExtraSeedIps dns (extraSeedHosts cfg) n1 = (Inr extra, n2)"
      "healed = heal_store (crawl_roots now (new_Set (seeds @ extra)) store)"
    and c: "crawl_all fetcher peers cfg now (candidates cfg healed) healed n2 = Some (Inr crawled, n')"
    and p: "store' = prune (stale_cutoff cfg now) crawled"
    using assms(1) by (auto simp: advanceCrawl_def Let_def split: option.splits sum.splits prod.splits)
  have "\<forall>c \<in> set (candidates cfg healed). obj_get healed (cd_key c) \<noteq> None"
    using candidates_present [of healed] a(3) assms(2) by simp
  from crawl_all_visits [OF c store_improves_refl this] show ?thesis
    using that a p by blast
qed

section \<open>A visit that throws\<close>

lemma crawl_all_append:
  "crawl_all fetcher peers cfg now (xs @ ys) st n =
     (case crawl_all fetcher peers cfg now xs st n of
        Some (Inr st', n') \<Rightarrow> crawl_all fetcher peers cfg now ys st' n'
      | out \<Rightarrow> out)"
  by (induction xs arbitrary: st n) (auto simp: Let_def split: option.split sum.split)

lemma rejected_visit_aborts:
  assumes "sampleSeedIps dns (seedHosts cfg) (dnsRounds cfg) n = Some (Inr seeds, n1)"
    "resolveExtraSeedIps dns (extraSeedHosts cfg) n1 = (Inr extra, n2)"
    "healed = heal_store (crawl_roots now (new_Set (seeds @ extra)) store)" "obj_wf store"
    "candidates cfg healed = before @ c # rest"
    "crawl_all None peers cfg now before healed n2 = Some (Inr st, n3)"
    "io_connect (peers n3) = Some e"
  shows "advanceCrawl None dns peers cfg now store n = Some (Inl e, Suc n3)"
proof -
  have wf: "obj_wf healed" using assms(3,4) by simp
  have all: "\<forall>c \<in> set (candidates cfg healed). obj_get healed (cd_key c) \<noteq> None"
    using candidates_present [OF wf] by blast
  then have "store_improves now healed st"
    using crawl_all_visits [OF assms(6) store_improves_refl] assms(5) by simp
  moreover obtain r0 where "obj_get healed (cd_key c) = Some r0" using all assms(5) by fastforce
  ultimately obtain r where "obj_get st (cd_key c) = Some r" by (auto simp: store_improves_def)
  then have "crawl_all None peers cfg now (candidates cfg healed) healed n2 = Some (Inl e, Suc n3)"
    using assms(5-7) by (simp add: crawl_all_append crawlPeerOnce_def)
  then show ?thesis using assms(1-3) by (simp add: advanceCrawl_def)
qed

section \<open>Properties\<close>

text \<open>C2. The peer store stays well formed: whatever the seeders and peers answer, a round that
  returns keeps the invariant of the store. Keys are unique, no depth exceeds the limit by being
  more than one hop below a depth under it, sightings are ordered and not in the future, verified
  peers carry their details, no peer is its own parent; and no peer is left whose last sighting
  is older than the cutoff.\<close>

theorem store_invariant:
  assumes "advanceCrawl fetcher dns peers cfg now store n = Some (Inr store', n')"
    "store_ok cfg t store" "t \<le> now"
  shows "store_ok cfg now store'
     \<and> (\<forall>k r. obj_get store' k = Some r \<longrightarrow> \<not> is_stale (stale_cutoff cfg now) r)"
proof
  have ok: "store_ok cfg now store" using assms(2,3) by (rule store_ok_later)
  then show "store_ok cfg now store'"
    unfolding store_ok_def by (rule known.advanceCrawl_keeps [OF assms(1)])
  have "obj_wf store" using ok by (simp add: store_ok_def all_peers_def)
  then show "\<forall>k r. obj_get store' k = Some r \<longrightarrow> \<not> is_stale (stale_cutoff cfg now) r"
    by (cases rule: advanceCrawl_parts [OF assms(1)]) (auto simp: prune_get split: option.splits if_splits)
qed

text \<open>C3. A round implements the abstract specification of discovery, a map from peers to the time
  they were last seen: the round sets the time of every seed address, of every visited peer that
  answered and of every address such a peer reported, and then drops all entries older than the
  cutoff; nothing else changes the map. The visits are those of the chosen candidates, in
  order, each with the result of its own conversation.\<close>

theorem advanceCrawl_refines:
  assumes "advanceCrawl fetcher dns peers cfg now store n = Some (Inr store', n')" "obj_wf store"
  shows "\<exists>seeds n1 extra n2 healed vs.
     sampleSeedIps dns (seedHosts cfg) (dnsRounds cfg) n = Some (Inr seeds, n1)
     \<and> resolveExtraSeedIps dns (extraSeedHosts cfg) n1 = (Inr extra, n2)
     \<and> healed = heal_store (crawl_roots now (new_Set (seeds @ extra)) store)
     \<and> map fst vs = candidates cfg healed \<and> visited fetcher peers cfg (peer_port cfg healed) n2 vs
     \<and> seen_map store' = expire (stale_cutoff cfg now)
         (touch now (set seeds \<union> set extra \<union> \<Union> (heard_of ` set vs)) (seen_map store))"
  using assms
proof (cases rule: advanceCrawl_parts)
  case (parts seeds n1 extra n2 healed crawled vs)
  have "seen_map store' = expire (stale_cutoff cfg now)
         (touch now (set seeds \<union> set extra \<union> \<Union> (heard_of ` set vs)) (seen_map store))"
    using parts(3,6,8) by (simp add: seen_prune seen_heal seen_crawl_roots Un_ac)
  with parts(1-5) show ?thesis by blast
qed


lemma distinct_eligible: "obj_wf store \<Longrightarrow> distinct (map cd_key (eligible_cands cfg store))"
proof -
  assume "obj_wf store"
  then have "distinct (map fst (filter (\<lambda>(_, r). eligible cfg r) (js_entries store)))"
    by (intro distinct_map_filter obj_wf_entries)
  then show ?thesis by (simp add: eligible_cands_def comp_def)
qed

text \<open>Verified peers are never crowded out, and can crowd out all others: when at least as many
  verified peers are eligible as a round may visit, every visit goes to a verified peer.\<close>

lemma verified_fill_batch:
  assumes "obj_wf store" "maxPeersPerRun cfg = jint m"
    "nat m \<le> length (filter cd_verified (eligible_cands cfg store))" "c \<in> set (candidates cfg store)"
  shows "cd_verified c"
proof (rule ccontr)
  assume no: "\<not> cd_verified c"
  let ?el = "eligible_cands cfg store" and ?ch = "candidates cfg store"
  have "set (filter cd_verified ?el) \<subseteq> set ?ch"
  proof
    fix e assume "e \<in> set (filter cd_verified ?el)"
    then show "e \<in> set ?ch"
      using candidates_precede [OF assms(4), of e] no by (auto simp: crawl_order_def)
  qed
  then have "insert c (set (filter cd_verified ?el)) \<subseteq> set ?ch" using assms(4) by simp
  moreover have "c \<notin> set (filter cd_verified ?el)" using no by simp
  ultimately have "Suc (card (set (filter cd_verified ?el))) \<le> card (set ?ch)"
    by (metis card_insert_disjoint card_mono finite_set)
  moreover have "card (set (filter cd_verified ?el)) = length (filter cd_verified ?el)"
    using distinct_eligible [OF assms(1), of cfg]
    by (intro distinct_card distinct_filter) (simp add: distinct_map)
  moreover have "card (set ?ch) \<le> nat m"
    using card_length [of ?ch] length_candidates [OF assms(2), of store] by linarith
  ultimately show False using assms(3) by linarith
qed

text \<open>Records only improve: a stored peer is dropped only if its last sighting, or the present
  itself, lies before the cutoff; otherwise its first sighting, parent and port stay, its depth
  does not grow and its last sighting stays or becomes now.\<close>

lemma records_improve:
  assumes "advanceCrawl fetcher dns peers cfg now store n = Some (Inr store', n')" "obj_wf store"
    "obj_get store k = Some r"
  shows "case obj_get store' k of
       Some r' \<Rightarrow> improves now r r'
     | None \<Rightarrow> is_stale (stale_cutoff cfg now) r \<or> jlt (jint (int now)) (stale_cutoff cfg now)"
  using assms(1,2)
proof (cases rule: advanceCrawl_parts)
  case (parts seeds n1 extra n2 healed crawled vs)
  have "store_improves now store crawled"
    using crawl_roots_improves heal_store_improves parts(3,7) store_improves_trans by blast
  then obtain r' where r': "obj_get crawled k = Some r'" "improves now r r'"
    using assms(3) by (auto simp: store_improves_def)
  then have "k_lastSeen r' = k_lastSeen r \<or> k_lastSeen r' = Some now" by (simp add: improves_def)
  then show ?thesis using parts(8) r' by (auto simp: prune_get is_stale_def)
qed

lemma stale_cutoff_jint:
  "staleAfterDays cfg = jint s \<Longrightarrow> 0 \<le> s \<Longrightarrow> s \<le> 1000000 \<Longrightarrow> now \<le> 2 ^ 52 \<Longrightarrow>
   stale_cutoff cfg now = jint (int now - 86400 * s)"
  by (simp add: stale_cutoff_def jmul_jint jsub_jint safe_int_def algebra_simps)

lemma crawl_roots_depth:
  "ip \<in> set roots \<Longrightarrow> \<exists>r. obj_get (crawl_roots now roots store) ip = Some r \<and> k_depth r = Some 0 \<and> k_lastSeen r = Some now"
proof -
  have one: "\<exists>r. obj_get (note_root now ip st) ip = Some r \<and> k_depth r = Some 0 \<and> k_lastSeen r = Some now" for st
    by (auto simp: note_root_def Let_def obj_get_put new_root_def split: option.split)
  assume "ip \<in> set roots"
  then obtain xs ys where "roots = xs @ ip # ys" by (meson split_list)
  then have "crawl_roots now roots store = crawl_roots now ys (note_root now ip (crawl_roots now xs store))"
    by (simp add: crawl_roots_def)
  moreover obtain r where "obj_get (note_root now ip (crawl_roots now xs store)) ip = Some r"
    "k_depth r = Some 0" "k_lastSeen r = Some now" using one by blast
  ultimately show ?thesis
    using crawl_roots_improves [of now "note_root now ip (crawl_roots now xs store)" ys]
    by (fastforce simp: store_improves_def improves_def)
qed

text \<open>C40. Every seed address is in the resulting store, at depth zero and seen now, for a
  non-negative retention of whole days: neither visits nor pruning lose a root.\<close>

theorem roots_survive:
  assumes "advanceCrawl fetcher dns peers cfg now store n = Some (Inr store', n')" "obj_wf store"
    "staleAfterDays cfg = jint s" "0 \<le> s" "s \<le> 1000000" "now \<le> 2 ^ 52"
  shows "\<exists>seeds n1 extra n2. sampleSeedIps dns (seedHosts cfg) (dnsRounds cfg) n = Some (Inr seeds, n1)
     \<and> resolveExtraSeedIps dns (extraSeedHosts cfg) n1 = (Inr extra, n2)
     \<and> (\<forall>ip \<in> set seeds \<union> set extra.
          \<exists>r. obj_get store' ip = Some r \<and> k_depth r = Some 0 \<and> k_lastSeen r = Some now)"
  using assms(1,2)
proof (cases rule: advanceCrawl_parts)
  case (parts seeds n1 extra n2 healed crawled vs)
  have i': "store_improves now (crawl_roots now (new_Set (seeds @ extra)) store) crawled"
    using heal_store_improves parts(3,7) store_improves_trans by blast
  have "\<exists>r. obj_get store' ip = Some r \<and> k_depth r = Some 0 \<and> k_lastSeen r = Some now"
    if "ip \<in> set seeds \<union> set extra" for ip
  proof -
    have "ip \<in> set (new_Set (seeds @ extra))" using that by simp
    from crawl_roots_depth [OF this, of now store]
    obtain r where r: "obj_get (crawl_roots now (new_Set (seeds @ extra)) store) ip = Some r"
      "k_depth r = Some 0" "k_lastSeen r = Some now"
      by blast
    then obtain r' where r': "obj_get crawled ip = Some r'" "improves now r r'"
      using i' unfolding store_improves_def by blast
    then have "k_depth r' = Some 0" "k_lastSeen r' = Some now"
      using r(2,3) by (auto simp: improves_def)
    with r'(1) show ?thesis
      using parts(8) assms(4) by (simp add: prune_get is_stale_def stale_cutoff_jint [OF assms(3-6)])
  qed
  with parts(1,2) show ?thesis by blast
qed

text \<open>A peer whose clock passes the deadline of the visit.\<close>

definition patient :: "(nat \<Rightarrow> peer_io) \<Rightarrow> config \<Rightarrow> bool" where
  "patient peers cfg \<longleftrightarrow>
     (\<forall>n. \<exists>p \<in> set (io_passes (peers n)).
        \<not> jlt (jint (int (p_now p))) (jadd (jint (int (io_start (peers n)))) (totalTimeoutMs cfg)))"

lemma crawl_all_returns:
  "patient peers cfg \<Longrightarrow> crawl_all fetcher peers cfg now cs st n \<noteq> None"
proof (induction cs arbitrary: st n)
  case (Cons c cs)
  have v: "\<exists>y. crawlPeerOnce fetcher (peers n) ip port (totalTimeoutMs cfg) = Some y" for ip port
    using Cons.prems crawlPeerOnce_ends unfolding patient_def by blast
  show ?case
  proof (cases "obj_get st (cd_key c)")
    case (Some r)
    let ?port = "case k_port r of Some p \<Rightarrow> jint (int p) | None \<Rightarrow> p2pPort cfg"
    obtain y where "crawlPeerOnce fetcher (peers n) (cd_ip c) ?port (totalTimeoutMs cfg) = Some y"
      using v by blast
    then show ?thesis using Some Cons.IH [OF Cons.prems] by (cases y) (simp_all add: Let_def)
  qed simp
qed simp

text \<open>
  A round ends within its budget: for a whole number of DNS rounds and peers that let the
  deadline pass, it returns, with at most two requests per seed host and DNS round, two per extra
  host, and one connection per candidate.
\<close>

lemma advanceCrawl_ends:
  assumes "dnsRounds cfg = jint r" "r \<le> 2 ^ 53" "maxPeersPerRun cfg = jint m" "patient peers cfg"
  shows "\<exists>res n'. advanceCrawl fetcher dns peers cfg now store n = Some (res, n')
     \<and> n' \<le> n + 2 * length (seedHosts cfg) * nat (max 1 r) + 2 * length (extraSeedHosts cfg) + nat m"
proof -
  let ?a = "2 * length (seedHosts cfg) * nat (max 1 r)" and ?b = "2 * length (extraSeedHosts cfg)"
  obtain x n1 where s: "sampleSeedIps dns (seedHosts cfg) (dnsRounds cfg) n = Some (x, n1)" "n1 \<le> n + ?a"
    using sampleSeedIps_returns [OF assms(2), of dns "seedHosts cfg" n] assms(1) by auto
  obtain y n2 where e: "resolveExtraSeedIps dns (extraSeedHosts cfg) n1 = (y, n2)" by (meson surj_pair)
  have n2: "n2 \<le> n1 + ?b"
    using collect_hosts_correct(1) e by (simp add: resolveExtraSeedIps_def)
  show ?thesis
  proof (cases "\<exists>seeds extra. x = Inr seeds \<and> y = Inr extra")
    case False
    then show ?thesis
      using s e n2 by (cases x; cases y) (auto simp: advanceCrawl_def)
  next
    case True
    then obtain seeds extra where xy: "x = Inr seeds" "y = Inr extra" by blast
    let ?h = "heal_store (crawl_roots now (new_Set (seeds @ extra)) store)"
    obtain z n3 where c: "crawl_all fetcher peers cfg now (candidates cfg ?h) ?h n2 = Some (z, n3)"
      using crawl_all_returns [OF assms(4)] by (metis not_None_eq surj_pair)
    have "n3 \<le> n2 + nat m"
      using crawl_all_count [OF c] length_candidates [OF assms(3), of ?h] by linarith
    then have "n3 \<le> n + ?a + ?b + nat m" using s(2) n2 by linarith
    then show ?thesis using s e xy c by (cases z) (auto simp: advanceCrawl_def Let_def)
  qed
qed

text \<open>A round with one seed host, whose two addresses become roots, and one visit that reports a peer.\<close>

definition sample_config :: config where
  "sample_config = \<lparr>seedHosts = [js ''a''], extraSeedHosts = [], dnsRounds = jint 1, dnsDelayMs = jint 0,
     p2pPort = jint 8333, maxDepth = jint 8, maxPeersPerRun = jint 1, maxGeoLookupsPerRun = jint 8,
     connectTimeoutMs = jint 3000, totalTimeoutMs = jint 5000, geoTtlDays = jint 30,
     staleAfterDays = jint 30, onlineWindowHours = jint 6, refreshSeconds = jint 900, corsOrigin = js ''*''\<rparr>"

definition sample_addr2 :: addr2 where
  "sample_addr2 = \<lparr>d_network = js ''ipv4'', d_ip = Some (js ''c''), d_key = js ''c'', d_port = 8333,
     d_time = 0, d_services = 0\<rparr>"

definition sample_fetcher :: fetcher where
  "sample_fetcher = Some (\<lambda>ip port. Inr (Some \<lparr>r_services = 1, r_subver = js ''s'', r_startHeight = 7,
     r_addresses = [sample_addr2]\<rparr>))"

lemma sample_hosts: "encodeURIComponent (js ''a'') = Inr (js ''a'')"
  by (rule encodeURIComponent_unreserved) (simp add: uri_unreserved_def)

lemma sample_collect: "collect_hosts sample_dns [js ''a''] [] 0 = (Inr [[65], [66]], 2)"
  using sample_hosts
  by (simp add: bindN_def returnN_def fetchSeedIpsOnce_def dohLookup_def sample_dns_def doh_records_def promise_all2_def
      new_Set_def set_add_def)

lemma sample_seeds: "sampleSeedIps sample_dns [js ''a''] (jint 1) 0 = Some (Inr [[65], [66]], 2)"
  unfolding sampleSeedIps_def
  by (subst sample_rounds.simps, subst sample_rounds.simps)
    (simp add: sample_collect jadd_jint safe_int_def del: collect_hosts.simps js_simps)

definition sample_roots :: store where
  "sample_roots = [([65], new_root 1000 [65]\<lparr>k_lastSeen := Some 1000\<rparr>), ([66], new_root 1000 [66]\<lparr>k_lastSeen := Some 1000\<rparr>)]"

lemma sample_crawl_roots: "crawl_roots 1000 [[65], [66]] sample_roots = sample_roots"
  by (simp add: crawl_roots_def note_root_def sample_roots_def known_root_def self_heal_def new_root_def
      truthy_str_def)

lemma sample_heal: "heal_store sample_roots = sample_roots"
  by (simp add: heal_store_def sample_roots_def heal_record_def new_root_def truthy_str_def)

lemma sample_candidates:
  "candidates sample_config sample_roots = [mk_cand ([65], new_root 1000 [65]\<lparr>k_lastSeen := Some 1000\<rparr>)]"
  by (simp add: candidates_def eligible_cands_def sample_roots_def js_entries_def is_index_def is_digit_def
      digit_val_def eligible_def new_root_def blank_peer_def sample_config_def js_sort_def slice_to_jint
      crawl_order_def)

lemma sample_round:
  "\<exists>st. advanceCrawl sample_fetcher sample_dns peers sample_config 1000 sample_roots 0 = Some (Inr st, 3)"
proof -
  have "resolveExtraSeedIps sample_dns [] 2 = (Inr [], 2)" by (simp add: resolveExtraSeedIps_def returnN_def)
  moreover have "new_Set [[65], [66]] = [[65], [66::nat]]" by (simp add: new_Set_def set_add_def)
  moreover have "obj_get sample_roots [65] = Some (new_root 1000 [65]\<lparr>k_lastSeen := Some 1000\<rparr>)"
    by (simp add: sample_roots_def)
  ultimately show ?thesis
    using sample_seeds sample_crawl_roots sample_heal sample_candidates
    by (simp add: advanceCrawl_def sample_config_def [THEN arg_cong [of _ _ seedHosts]]
        sample_config_def [THEN arg_cong [of _ _ extraSeedHosts]]
        sample_config_def [THEN arg_cong [of _ _ dnsRounds]] crawlPeerOnce_def sample_fetcher_def del: js_simps)
qed

lemma sample_roots_ok: "store_ok sample_config 1000 sample_roots"
  by (auto simp: store_ok_def all_peers_def sample_roots_def obj_wf_def peer_ok_def new_root_def blank_peer_def
      split: if_splits)

lemma sample_roots_wf: "obj_wf sample_roots"
  using sample_roots_ok by (simp add: store_ok_def all_peers_def)

theorem store_invariant_witness:
  "\<exists>st. advanceCrawl sample_fetcher sample_dns (\<lambda>_. sample_io) sample_config 1000 sample_roots 0 = Some (Inr st, 3)
     \<and> store_ok sample_config 1000 st
     \<and> (\<forall>k r. obj_get st k = Some r \<longrightarrow> \<not> is_stale (stale_cutoff sample_config 1000) r)"
  using sample_round [of "\<lambda>_. sample_io"] store_invariant [OF _ sample_roots_ok order_refl] by blast

theorem advanceCrawl_refines_witness:
  "\<exists>st. advanceCrawl sample_fetcher sample_dns (\<lambda>_. sample_io) sample_config 1000 sample_roots 0 = Some (Inr st, 3)
     \<and> (\<exists>seeds n1 extra n2 healed vs.
     sampleSeedIps sample_dns (seedHosts sample_config) (dnsRounds sample_config) 0 = Some (Inr seeds, n1)
     \<and> resolveExtraSeedIps sample_dns (extraSeedHosts sample_config) n1 = (Inr extra, n2)
     \<and> healed = heal_store (crawl_roots 1000 (new_Set (seeds @ extra)) sample_roots)
     \<and> map fst vs = candidates sample_config healed
     \<and> visited sample_fetcher (\<lambda>_. sample_io) sample_config (peer_port sample_config healed) n2 vs
     \<and> seen_map st = expire (stale_cutoff sample_config 1000)
         (touch 1000 (set seeds \<union> set extra \<union> \<Union> (heard_of ` set vs)) (seen_map sample_roots)))"
proof -
  obtain st where st: "advanceCrawl sample_fetcher sample_dns (\<lambda>_. sample_io) sample_config 1000 sample_roots 0
      = Some (Inr st, 3)" using sample_round by blast
  show ?thesis using st advanceCrawl_refines [OF st sample_roots_wf] by (intro exI [of _ st] conjI)
qed

lemma sample_eligible:
  "eligible_cands sample_config sample_roots =
     [mk_cand ([65], new_root 1000 [65]\<lparr>k_lastSeen := Some 1000\<rparr>),
      mk_cand ([66], new_root 1000 [66]\<lparr>k_lastSeen := Some 1000\<rparr>)]"
  by (simp add: eligible_cands_def sample_roots_def js_entries_def is_index_def is_digit_def
      digit_val_def eligible_def new_root_def blank_peer_def sample_config_def)

lemma sample_config_simps:
  "maxPeersPerRun sample_config = jint 1" "staleAfterDays sample_config = jint 30"
  "dnsRounds sample_config = jint 1" "totalTimeoutMs sample_config = jint 5000"
  by (simp_all add: sample_config_def)


theorem roots_survive_witness:
  "\<exists>st. advanceCrawl sample_fetcher sample_dns (\<lambda>_. sample_io) sample_config 1000 sample_roots 0 = Some (Inr st, 3)
     \<and> (\<exists>seeds n1 extra n2. sampleSeedIps sample_dns (seedHosts sample_config) (dnsRounds sample_config) 0 = Some (Inr seeds, n1)
     \<and> resolveExtraSeedIps sample_dns (extraSeedHosts sample_config) n1 = (Inr extra, n2)
     \<and> (\<forall>ip \<in> set seeds \<union> set extra.
          \<exists>r. obj_get st ip = Some r \<and> k_depth r = Some 0 \<and> k_lastSeen r = Some 1000))"
proof -
  obtain st where st: "advanceCrawl sample_fetcher sample_dns (\<lambda>_. sample_io) sample_config 1000 sample_roots 0
      = Some (Inr st, 3)" using sample_round by blast
  show ?thesis
    by (rule exI [of _ st], rule conjI [OF st])
      (rule roots_survive [OF st sample_roots_wf sample_config_simps(2)], simp_all)
qed

lemma sample_patient: "patient (\<lambda>_. sample_io) sample_config"
  by (simp add: patient_def sample_io_def sample_config_simps jadd_jint safe_int_def)

end
