(* ===== verification/Snapshot.thy ===== *)
theory Snapshot
  imports Crawl_Store
begin

text \<open>
  The public snapshot (\<open>rebuildSnapshot\<close> of \<open>worker/src/snapshot.js\<close>): geolocate the store
  within the lookup budget, keep the peers seen within the online window, and count them by
  country and network. Coordinates are doubles; \<open>generatedAt\<close> is the time in milliseconds
  that the ISO string of the source denotes, \<open>None\<close> if a stored text is no date.

  The results: the nodes are exactly the online peers that can be shown, each described from its
  record and its location; the counts by network and by country agree with the nodes; the cache
  keeps what it had.
\<close>

section \<open>Definitions\<close>

record node =
  nd_network :: jsstr
  nd_ip :: "jsstr option"
  nd_address :: "jsstr option"
  nd_port :: "nat option"
  nd_firstSeen :: "nat option"
  nd_lastSeen :: "nat option"
  nd_subver :: "jsstr option"
  nd_startHeight :: "nat option"
  nd_depth :: "nat option"
  nd_parent :: "jsstr option"
  nd_country :: "jsstr option"
  nd_countryCode :: "jsstr option"
  nd_lat :: "jsnum option"
  nd_lon :: "jsnum option"

record country_count =
  cc_code :: jsstr
  cc_name :: "jsstr option"
  cc_count :: nat

record snapshot =
  sn_generatedAt :: "int option"
  sn_totalKnown :: nat
  sn_onlineCount :: nat
  sn_networkCounts :: "nat obj"
  sn_countries :: "country_count list"
  sn_nodes :: "node list"

definition on_map :: "jsstr \<Rightarrow> bool" where
  "on_map net \<longleftrightarrow> net = js ''ipv4'' \<or> net = js ''ipv6''"

abbreviation net_of :: "jsstr \<Rightarrow> peer \<Rightarrow> jsstr" where
  "net_of key r \<equiv> inferNetwork key (k_network r) (k_ip r)"

definition geoable_keys :: "store \<Rightarrow> jsstr list" where
  "geoable_keys store = map fst (filter (\<lambda>(key, r). on_map (net_of key r)) (js_entries store))"

definition mk_node :: "jsstr \<Rightarrow> peer \<Rightarrow> geo option \<Rightarrow> node" where
  "mk_node key r g =
     (let network = net_of key r;
          ip = (case k_ip r of
                  Some a \<Rightarrow> Some a
                | None \<Rightarrow> if network = js ''ipv4'' \<or> network = js ''ipv6'' \<or> network = js ''cjdns''
                          then Some key else None)
      in \<lparr>nd_network = network, nd_ip = ip,
          nd_address = (if network = js ''i2p'' then Some key else if network = js ''tor'' then None else ip),
          nd_port = k_port r, nd_firstSeen = k_firstSeen r, nd_lastSeen = k_lastSeen r,
          nd_subver = k_subver r, nd_startHeight = k_startHeight r, nd_depth = k_depth r,
          nd_parent = k_parent r,
          nd_country = Option.bind g g_country, nd_countryCode = Option.bind g g_countryCode,
          nd_lat = Option.bind g g_lat, nd_lon = Option.bind g g_lon\<rparr>)"

text \<open>\<open>if (!countryCounts[code]) countryCounts[code] = { code, name, count: 0 }; countryCounts[code].count++\<close>\<close>

definition count_country :: "jsstr \<Rightarrow> jsstr option \<Rightarrow> country_count obj \<Rightarrow> country_count obj" where
  "count_country code name counts =
     (let c = (case obj_get counts code of
                 Some c \<Rightarrow> c | None \<Rightarrow> \<lparr>cc_code = code, cc_name = name, cc_count = 0\<rparr>)
      in obj_put code (c\<lparr>cc_count := cc_count c + 1\<rparr>) counts)"

definition located :: "geo option \<Rightarrow> bool" where
  "located g = (case g of Some h \<Rightarrow> truthy_str (g_countryCode h) | None \<Rightarrow> False)"

text \<open>The body of the loop over the store: \<open>None\<close> is \<open>continue\<close>.\<close>

definition show_peer :: "geo obj \<Rightarrow> jsnum \<Rightarrow> jsstr \<Rightarrow> peer \<Rightarrow> (node \<times> (jsstr \<times> jsstr option) option) option" where
  "show_peer geoCache onlineCutoff key r =
     (if jlt (jint (int (nullish (k_lastSeen r) 0))) onlineCutoff then None
      else let network = net_of key r;
               g = (if on_map network then obj_get geoCache key else None)
           in if on_map network \<and> \<not> located g then None
              else Some (mk_node key r g,
                     case g of
                       Some h \<Rightarrow> (case g_countryCode h of
                                    Some code \<Rightarrow> if code \<noteq> [] then Some (code, g_country h) else None
                                  | None \<Rightarrow> None)
                     | None \<Rightarrow> None))"

fun collect_nodes ::
    "geo obj \<Rightarrow> jsnum \<Rightarrow> (jsstr \<times> peer) list \<Rightarrow> node list \<Rightarrow> country_count obj \<Rightarrow> node list \<times> country_count obj" where
  "collect_nodes geoCache onlineCutoff [] nodes counts = (nodes, counts)"
| "collect_nodes geoCache onlineCutoff ((key, r) # rest) nodes counts =
     (case show_peer geoCache onlineCutoff key r of
        None \<Rightarrow> collect_nodes geoCache onlineCutoff rest nodes counts
      | Some (node, tally) \<Rightarrow>
          collect_nodes geoCache onlineCutoff rest (nodes @ [node])
            (case tally of Some (code, name) \<Rightarrow> count_country code name counts | None \<Rightarrow> counts))"

definition most_nodes_first :: "country_count \<Rightarrow> country_count \<Rightarrow> int" where
  "most_nodes_first a b = int (cc_count b) - int (cc_count a)"

definition count_network :: "node \<Rightarrow> nat obj \<Rightarrow> nat obj" where
  "count_network n counts = obj_put (nd_network n) (nullish (obj_get counts (nd_network n)) 0 + 1) counts"

text \<open>\<open>now\<close> and \<open>now_ms\<close> are the readings of the clock at the start and at the end.\<close>

definition online_cutoff :: "config \<Rightarrow> nat \<Rightarrow> jsnum" where
  "online_cutoff cfg now = jsub (jint (int now)) (jmul (onlineWindowHours cfg) (jint 3600))"

definition rebuildSnapshot ::
    "geo_io \<Rightarrow> config \<Rightarrow> nat \<Rightarrow> nat \<Rightarrow> nat \<Rightarrow> store \<Rightarrow> geo obj \<Rightarrow> nat \<Rightarrow> (snapshot \<times> geo obj) \<times> nat" where
  "rebuildSnapshot io cfg now now_geo now_ms store geoCache n =
     (let (geo, n') = resolveGeo io now_geo (geoable_keys store) geoCache (geoTtlDays cfg) (maxGeoLookupsPerRun cfg) n;
          mergedGeoCache = obj_spread geoCache geo;
          (nodes, countryCounts) =
            collect_nodes mergedGeoCache (online_cutoff cfg now) (js_entries store) [] []
      in ((\<lparr>sn_generatedAt = Some (int now_ms), sn_totalKnown = length (js_keys store), sn_onlineCount = length nodes,
            sn_networkCounts = fold count_network nodes [],
            sn_countries = js_sort most_nodes_first (js_values countryCounts), sn_nodes = nodes\<rparr>,
           mergedGeoCache), n'))"

section \<open>Nodes\<close>

definition shown :: "geo obj \<Rightarrow> jsnum \<Rightarrow> jsstr \<times> peer \<Rightarrow> node option" where
  "shown cache cutoff e = map_option fst (show_peer cache cutoff (fst e) (snd e))"

definition tally_of :: "node \<Rightarrow> (jsstr \<times> jsstr option) option" where
  "tally_of n = map_option (\<lambda>code. (code, nd_country n)) (nd_countryCode n)"

lemma mk_node_simps [simp]:
  "nd_network (mk_node k r g) = net_of k r" "nd_countryCode (mk_node k r g) = Option.bind g g_countryCode"
  "nd_country (mk_node k r g) = Option.bind g g_country"
  by (simp_all add: mk_node_def Let_def del: js_simps)

abbreviation location :: "geo obj \<Rightarrow> jsstr \<Rightarrow> peer \<Rightarrow> geo option" where
  "location cache k r \<equiv> if on_map (net_of k r) then obj_get cache k else None"

definition visible :: "geo obj \<Rightarrow> jsnum \<Rightarrow> jsstr \<Rightarrow> peer \<Rightarrow> bool" where
  "visible cache cutoff k r \<longleftrightarrow>
     \<not> jlt (jint (int (nullish (k_lastSeen r) 0))) cutoff
     \<and> (on_map (net_of k r) \<longrightarrow> located (location cache k r))"

lemma tally_located:
  "g = None \<or> located g \<Longrightarrow>
   (case g of
      Some h \<Rightarrow> (case g_countryCode h of
                   Some code \<Rightarrow> if code \<noteq> [] then Some (code, g_country h) else None
                 | None \<Rightarrow> None)
    | None \<Rightarrow> None) = tally_of (mk_node k r g)"
  by (auto simp: tally_of_def located_def truthy_str_def split: option.splits)

lemma show_peer_alt:
  "show_peer cache cutoff k r =
     (if visible cache cutoff k r
      then Some (mk_node k r (location cache k r), tally_of (mk_node k r (location cache k r))) else None)"
proof (cases "visible cache cutoff k r")
  case True
  then have "location cache k r = None \<or> located (location cache k r)" by (auto simp: visible_def)
  from tally_located [OF this, of k r] show ?thesis
    using True by (simp add: visible_def show_peer_def Let_def)
next
  case False
  then show ?thesis by (simp add: visible_def show_peer_def Let_def) blast
qed

lemma visible_country:
  "visible cache cutoff k r \<Longrightarrow>
   (on_map (net_of k r) \<longleftrightarrow> nd_countryCode (mk_node k r (location cache k r)) \<noteq> None)
   \<and> nd_countryCode (mk_node k r (location cache k r)) \<noteq> Some []"
  by (cases "on_map (net_of k r)") (auto simp: visible_def located_def truthy_str_def split: option.splits)

lemma shown_alt:
  "shown cache cutoff (k, r) =
     (if visible cache cutoff k r then Some (mk_node k r (location cache k r)) else None)"
  by (simp add: shown_def show_peer_alt)

lemma collect_nodes_spec:
  "collect_nodes cache cutoff es ns counts =
     (let new = List.map_filter (shown cache cutoff) es
      in (ns @ new, fold (\<lambda>(code, name). count_country code name) (List.map_filter tally_of new) counts))"
proof (induction es arbitrary: ns counts)
  case Nil
  then show ?case by (simp add: List.map_filter_def)
next
  case (Cons e es)
  obtain k r where e: "e = (k, r)" by fastforce
  show ?case
  proof (cases "show_peer cache cutoff k r")
    case None
    then show ?thesis using Cons e by (simp add: shown_def map_filter_Cons)
  next
    case (Some nt)
    obtain n t where nt: "nt = (n, t)" by fastforce
    have "t = tally_of n" using Some nt by (auto simp: show_peer_alt split: if_splits)
    then show ?thesis
      using Cons Some nt e by (simp add: shown_def map_filter_Cons Let_def split: option.split)
  qed
qed

section \<open>Counts\<close>

definition occurs :: "jsstr \<Rightarrow> jsstr list \<Rightarrow> nat" where
  "occurs x xs = length (filter (\<lambda>y. y = x) xs)"

lemma occurs_snoc [simp]: "occurs x (xs @ [y]) = occurs x xs + (if y = x then 1 else 0)"
  by (simp add: occurs_def)

lemma occurs_pos: "0 < occurs x xs \<longleftrightarrow> x \<in> set xs"
  by (auto simp: occurs_def filter_empty_conv)

definition tallied :: "jsstr list \<Rightarrow> country_count obj \<Rightarrow> bool" where
  "tallied codes counts \<longleftrightarrow> obj_wf counts
     \<and> (\<forall>code. case obj_get counts code of
          None \<Rightarrow> occurs code codes = 0
        | Some c \<Rightarrow> cc_code c = code \<and> cc_count c = occurs code codes \<and> 0 < cc_count c)"

lemma tallied_step:
  assumes "tallied codes counts"
  shows "tallied (codes @ [code]) (count_country code name counts)"
proof -
  have t: "case obj_get counts x of None \<Rightarrow> occurs x codes = 0
      | Some c \<Rightarrow> cc_code c = x \<and> cc_count c = occurs x codes \<and> 0 < cc_count c" for x
    using assms by (simp add: tallied_def)
  have "case obj_get (count_country code name counts) x of None \<Rightarrow> occurs x (codes @ [code]) = 0
      | Some c \<Rightarrow> cc_code c = x \<and> cc_count c = occurs x (codes @ [code]) \<and> 0 < cc_count c" for x
  proof (cases "x = code")
    case True
    then show ?thesis using t [of code]
      by (cases "obj_get counts code") (simp_all add: count_country_def obj_get_put)
  next
    case False
    then show ?thesis using t [of x]
      by (cases "obj_get counts x") (simp_all add: count_country_def Let_def obj_get_put)
  qed
  then show ?thesis using assms by (simp add: tallied_def count_country_def Let_def)
qed

lemma tallied_fold:
  "tallied codes counts \<Longrightarrow>
   tallied (codes @ map fst ts) (fold (\<lambda>(code, name). count_country code name) ts counts)"
proof (induction ts arbitrary: codes counts)
  case (Cons t ts)
  have "tallied (codes @ [fst t]) (count_country (fst t) (snd t) counts)" using Cons.prems by (rule tallied_step)
  from Cons.IH [OF this] show ?case by (simp add: split_beta)
qed simp

lemma count_networks:
  "obj_wf counts \<Longrightarrow> (\<forall>net. nullish (obj_get counts net) 0 = occurs net nets \<and> obj_get counts net \<noteq> Some 0) \<Longrightarrow>
   obj_wf (fold count_network ns counts)
   \<and> (\<forall>net. nullish (obj_get (fold count_network ns counts) net) 0 = occurs net (nets @ map nd_network ns)
          \<and> obj_get (fold count_network ns counts) net \<noteq> Some 0)"
proof (induction ns arbitrary: counts nets)
  case (Cons n ns)
  have "obj_wf (count_network n counts)" using Cons.prems(1) by (simp add: count_network_def)
  moreover have "\<forall>net. nullish (obj_get (count_network n counts) net) 0 = occurs net (nets @ [nd_network n])
      \<and> obj_get (count_network n counts) net \<noteq> Some 0"
    using Cons.prems(2) by (simp add: count_network_def obj_get_put)
  ultimately show ?case using Cons.IH [of "count_network n counts" "nets @ [nd_network n]"] by simp
qed simp

interpretation ranking: comparison most_nodes_first "\<lambda>_. True"
  by unfold_locales (auto simp: most_nodes_first_def)

lemma sum_occurs: "distinct xs \<Longrightarrow> set ys \<subseteq> set xs \<Longrightarrow> sum_list (map (\<lambda>x. occurs x ys) xs) = length ys"
proof (induction ys)
  case Nil
  then show ?case by (simp add: occurs_def)
next
  case (Cons y ys)
  have "(\<Sum>x\<leftarrow>xs. occurs x (y # ys)) = (\<Sum>x\<leftarrow>xs. occurs x ys) + (\<Sum>x\<leftarrow>xs. if y = x then 1 else 0)"
    unfolding sum_list_addf [symmetric] by (rule arg_cong [of _ _ sum_list]) (simp add: occurs_def)
  moreover have "(\<Sum>x\<leftarrow>xs. if y = x then 1 else 0) = (1::nat)"
    using Cons.prems by (simp add: sum_list_distinct_conv_sum_set sum.delta)
  ultimately show ?case using Cons by simp
qed

section \<open>The snapshot\<close>

text \<open>A rebuilt snapshot, taken apart.\<close>

lemma rebuildSnapshot_parts:
  assumes "rebuildSnapshot io cfg now now_geo now_ms store cache n = ((snap, cache'), n')"
  obtains (parts) geo where
    "resolveGeo io now_geo (geoable_keys store) cache (geoTtlDays cfg) (maxGeoLookupsPerRun cfg) n = (geo, n')"
    "cache' = obj_spread cache geo"
    "sn_nodes snap = List.map_filter (shown cache' (online_cutoff cfg now)) (js_entries store)"
    "sn_countries snap = js_sort most_nodes_first (js_values
       (fold (\<lambda>(code, name). count_country code name) (List.map_filter tally_of (sn_nodes snap)) []))"
    "sn_networkCounts snap = fold count_network (sn_nodes snap) []"
    "sn_onlineCount snap = length (sn_nodes snap)" "sn_totalKnown snap = length store"
    "sn_generatedAt snap = Some (int now_ms)"
proof -
  obtain geo m where g: "resolveGeo io now_geo (geoable_keys store) cache (geoTtlDays cfg)
      (maxGeoLookupsPerRun cfg) n = (geo, m)" by (meson surj_pair)
  show ?thesis
    by (rule that [of geo])
      (use assms g in \<open>auto simp: rebuildSnapshot_def collect_nodes_spec Let_def js_keys_def\<close>)
qed

lemma rebuildSnapshot_wf:
  assumes "rebuildSnapshot io cfg now now_geo now_ms store cache n = ((snap, cache'), n')" "obj_wf cache"
  shows "obj_wf cache'"
  using assms(1)
proof (cases rule: rebuildSnapshot_parts)
  case (parts geo)
  show ?thesis
    unfolding parts(2) obj_spread_def by (rule obj_wf_fold_put) (rule obj_wf_js_entries [OF assms(2)])
qed

lemma if_Some_None_eq_Some: "(if P then Some x else None) = Some y \<longleftrightarrow> P \<and> y = x"
  by auto

lemma nodes_visible:
  assumes "obj_wf store"
  shows "n \<in> set (List.map_filter (shown cache cutoff) (js_entries store)) \<longleftrightarrow>
     (\<exists>k r. obj_get store k = Some r \<and> visible cache cutoff k r \<and> n = mk_node k r (location cache k r))"
proof -
  have "n \<in> set (List.map_filter (shown cache cutoff) (js_entries store)) \<longleftrightarrow>
     (\<exists>k r. (k, r) \<in> set store \<and> shown cache cutoff (k, r) = Some n)"
    by (simp add: set_map_filter_iff) (metis surj_pair)
  also have "\<dots> \<longleftrightarrow> (\<exists>k r. obj_get store k = Some r \<and> visible cache cutoff k r \<and> n = mk_node k r (location cache k r))"
    unfolding obj_get_in [OF assms] shown_alt by (simp only: if_Some_None_eq_Some)
  finally show ?thesis .
qed

lemma set_js_values: "obj_wf ob \<Longrightarrow> c \<in> set (js_values ob) \<longleftrightarrow> (\<exists>k. obj_get ob k = Some c)"
  unfolding js_values_def by (auto simp: obj_get_in [symmetric] intro: rev_image_eqI)

text \<open>The country codes of the nodes, in order.\<close>

definition node_codes :: "node list \<Rightarrow> jsstr list" where
  "node_codes ns = List.map_filter nd_countryCode ns"

lemma node_codes_tally: "map fst (List.map_filter tally_of ns) = node_codes ns"
  by (induction ns)
    (simp_all add: node_codes_def map_filter_Cons List.map_filter_simps tally_of_def split: option.split)

lemma talliedD:
  assumes "tallied codes counts" "obj_get counts x = Some c"
  shows "cc_code c = x \<and> cc_count c = occurs x codes \<and> 0 < cc_count c"
proof -
  have "case obj_get counts x of None \<Rightarrow> occurs x codes = 0
      | Some c \<Rightarrow> cc_code c = x \<and> cc_count c = occurs x codes \<and> 0 < cc_count c"
    using assms(1) by (simp add: tallied_def)
  then show ?thesis using assms(2) by simp
qed

lemma tallied_found: "tallied codes counts \<Longrightarrow> x \<in> set codes \<Longrightarrow> \<exists>c. obj_get counts x = Some c"
proof -
  assume t: "tallied codes counts" and "x \<in> set codes"
  then have "occurs x codes \<noteq> 0" using occurs_pos [of x codes] by simp
  moreover have "case obj_get counts x of None \<Rightarrow> occurs x codes = 0
      | Some c \<Rightarrow> cc_code c = x \<and> cc_count c = occurs x codes \<and> 0 < cc_count c"
    using t by (simp add: tallied_def)
  ultimately show ?thesis by (cases "obj_get counts x") auto
qed

lemma distinct_values_code:
  assumes "tallied codes counts"
  shows "distinct (map cc_code (js_values counts))"
proof -
  have wf: "obj_wf counts" using assms by (simp add: tallied_def)
  have code: "cc_code v = k" if "(k, v) \<in> set counts" for k v
    using talliedD [OF assms, of k v] that wf by (simp add: obj_get_in)
  have "map cc_code (js_values counts) = map fst (js_entries counts)"
    unfolding js_values_def by (auto simp: code)
  then show ?thesis using obj_wf_entries [OF wf] by simp
qed

lemma tallied_values:
  assumes "tallied codes counts"
  shows "c \<in> set (js_values counts) \<Longrightarrow> cc_count c = occurs (cc_code c) codes \<and> 0 < cc_count c"
    "cc_code ` set (js_values counts) = set codes"
proof -
  have wf: "obj_wf counts" using assms by (simp add: tallied_def)
  show 1: "cc_count c = occurs (cc_code c) codes \<and> 0 < cc_count c" if c: "c \<in> set (js_values counts)" for c
  proof -
    obtain k where k: "obj_get counts k = Some c" using set_js_values [OF wf, of c] c by blast
    then show ?thesis using talliedD [OF assms k] by simp
  qed
  show "cc_code ` set (js_values counts) = set codes"
  proof (intro equalityI subsetI)
    fix x assume "x \<in> cc_code ` set (js_values counts)"
    then show "x \<in> set codes" using 1 occurs_pos by (metis imageE)
  next
    fix x assume x: "x \<in> set codes"
    then obtain c where c: "obj_get counts x = Some c" "cc_code c = x"
      using tallied_found [OF assms] talliedD [OF assms] by blast
    have "c \<in> set (js_values counts)" using set_js_values [OF wf, of c] c(1) by blast
    then show "x \<in> cc_code ` set (js_values counts)" using c(2) by blast
  qed
qed

text \<open>The counts of a snapshot agree with its nodes.\<close>

definition counts_agree :: "snapshot \<Rightarrow> bool" where
  "counts_agree snap \<longleftrightarrow>
     obj_wf (sn_networkCounts snap)
     \<and> (\<forall>net. nullish (obj_get (sn_networkCounts snap) net) 0 = occurs net (map nd_network (sn_nodes snap)))
     \<and> (\<forall>c \<in> set (sn_countries snap). cc_count c = occurs (cc_code c) (node_codes (sn_nodes snap)) \<and> 0 < cc_count c)
     \<and> distinct (map cc_code (sn_countries snap)) \<and> cc_code ` set (sn_countries snap) = set (node_codes (sn_nodes snap))
     \<and> sorted_wrt (\<lambda>a b. cc_count b \<le> cc_count a) (sn_countries snap)
     \<and> sum_list (map cc_count (sn_countries snap)) = length (filter (\<lambda>nd. on_map (nd_network nd)) (sn_nodes snap))
     \<and> sn_onlineCount snap = length (sn_nodes snap)"

lemma rebuildSnapshot_counts:
  assumes "rebuildSnapshot io cfg now now_geo now_ms store cache n = ((snap, cache'), n')" "obj_wf store"
  shows "counts_agree snap"
  using assms(1)
proof (cases rule: rebuildSnapshot_parts)
  case (parts geo)
  let ?ns = "sn_nodes snap"
  let ?counts = "fold (\<lambda>(code, name). count_country code name) (List.map_filter tally_of ?ns) []"
  have "tallied [] []" by (simp add: tallied_def occurs_def)
  from tallied_fold [OF this, of "List.map_filter tally_of ?ns"]
  have t: "tallied (node_codes ?ns) ?counts" by (simp add: node_codes_tally)
  have val: "\<forall>c \<in> set (sn_countries snap). cc_count c = occurs (cc_code c) (node_codes ?ns) \<and> 0 < cc_count c"
  proof -
    have "set (sn_countries snap) = set (js_values ?counts)" using parts(4) by simp
    then show ?thesis using tallied_values(1) [OF t] by blast
  qed
  have dist: "distinct (map cc_code (sn_countries snap))"
    using distinct_values_code [OF t] parts(4) by (simp add: distinct_js_sort)
  have codes: "cc_code ` set (sn_countries snap) = set (node_codes ?ns)"
    using tallied_values(2) [OF t] parts(4) by simp
  have "sorted_wrt (\<lambda>a b. most_nodes_first a b \<le> 0) (sn_countries snap)"
    using ranking.sorted_js_sort [of "js_values ?counts"] parts(4) by simp
  then have sorted: "sorted_wrt (\<lambda>a b. cc_count b \<le> cc_count a) (sn_countries snap)"
    by (simp add: most_nodes_first_def)
  have "map cc_count (sn_countries snap) = map (\<lambda>x. occurs x (node_codes ?ns)) (map cc_code (sn_countries snap))"
    using val by simp
  then have "sum_list (map cc_count (sn_countries snap)) = length (node_codes ?ns)"
    using sum_occurs [OF dist, of "node_codes ?ns"] codes by (simp only: set_map order_refl)
  moreover have "length (node_codes ns) = length (filter (\<lambda>nd. on_map (nd_network nd)) ns)"
    if "\<forall>nd \<in> set ns. on_map (nd_network nd) \<longleftrightarrow> nd_countryCode nd \<noteq> None" for ns
    using that
    by (induction ns) (auto simp: node_codes_def map_filter_Cons List.map_filter_simps split: option.split)
  moreover have "\<forall>nd \<in> set ?ns. on_map (nd_network nd) \<longleftrightarrow> nd_countryCode nd \<noteq> None"
  proof
    fix nd assume "nd \<in> set ?ns"
    then obtain k r where "visible cache' (online_cutoff cfg now) k r" "nd = mk_node k r (location cache' k r)"
      unfolding parts(3) nodes_visible [OF assms(2)] by blast
    then show "on_map (nd_network nd) \<longleftrightarrow> nd_countryCode nd \<noteq> None"
      using visible_country [of cache' "online_cutoff cfg now" k r] by (simp only: mk_node_simps(1))
  qed
  ultimately have sum: "sum_list (map cc_count (sn_countries snap)) = length (filter (\<lambda>nd. on_map (nd_network nd)) ?ns)"
    by simp
  have "obj_wf (sn_networkCounts snap)"
    "\<forall>net. nullish (obj_get (sn_networkCounts snap) net) 0 = occurs net (map nd_network ?ns)"
    using count_networks [of "[]" "[]" ?ns] parts(5) by (simp_all add: occurs_def)
  then show ?thesis unfolding counts_agree_def using val dist codes sorted sum parts(6) by blast
qed

section \<open>Properties\<close>

text \<open>C16. The nodes of a snapshot are exactly the stored peers that were seen within the online window
  and, if they are IPv4 or IPv6 peers, have a country in the merged cache, each described from
  its own record; peers of other networks are never dropped for lack of a country.\<close>

theorem snapshot_nodes:
  assumes "rebuildSnapshot io cfg now now_geo now_ms store cache n = ((snap, cache'), n')" "obj_wf store"
  shows "(\<forall>nd. nd \<in> set (sn_nodes snap) \<longleftrightarrow>
       (\<exists>k r. obj_get store k = Some r
          \<and> \<not> jlt (jint (int (nullish (k_lastSeen r) 0))) (online_cutoff cfg now)
          \<and> (on_map (net_of k r) \<longrightarrow> located (obj_get cache' k))
          \<and> nd = mk_node k r (if on_map (net_of k r) then obj_get cache' k else None)))
     \<and> sn_onlineCount snap = length (sn_nodes snap) \<and> sn_totalKnown snap = length store"
  using assms(1)
proof (cases rule: rebuildSnapshot_parts)
  case (parts geo)
  show ?thesis
    using nodes_visible [OF assms(2), of _ cache' "online_cutoff cfg now"] parts(3,6,7)
    by (auto simp: visible_def)
qed

text \<open>C7. The counts of a snapshot agree with its nodes: \<open>networkCounts\<close> gives for every network the
  number of its nodes, \<open>countries\<close> has one entry for each country of a node, with the number of
  its nodes, in descending order, and the counts of the countries add up to the number of nodes
  on the map.\<close>

theorem snapshot_counts:
  assumes "rebuildSnapshot io cfg now now_geo now_ms store cache n = ((snap, cache'), n')" "obj_wf store"
  shows "(\<forall>net. nullish (obj_get (sn_networkCounts snap) net) 0 = occurs net (map nd_network (sn_nodes snap)))
     \<and> (\<forall>c \<in> set (sn_countries snap). cc_count c = occurs (cc_code c) (node_codes (sn_nodes snap)) \<and> 0 < cc_count c)
     \<and> distinct (map cc_code (sn_countries snap)) \<and> cc_code ` set (sn_countries snap) = set (node_codes (sn_nodes snap))
     \<and> sorted_wrt (\<lambda>a b. cc_count b \<le> cc_count a) (sn_countries snap)
     \<and> sum_list (map cc_count (sn_countries snap)) = length (filter (\<lambda>nd. on_map (nd_network nd)) (sn_nodes snap))"
  using rebuildSnapshot_counts [OF assms] unfolding counts_agree_def by blast

text \<open>The merged cache forgets nothing and the budget holds: an address that had a location
  still has one, a fresh one the same, every change is dated now, and a snapshot costs at most
  three requests for each lookup of the budget.\<close>

lemma snapshot_cache:
  assumes "rebuildSnapshot io cfg now now_geo now_ms store cache n = ((snap, cache'), n')" "obj_wf cache"
    "maxGeoLookupsPerRun cfg = jint m" "0 \<le> m"
  shows "n' \<le> n + 3 * nat m \<and> obj_wf cache'
     \<and> (\<forall>k. obj_get cache k \<noteq> None \<longrightarrow> obj_get cache' k \<noteq> None)
     \<and> (\<forall>k g. obj_get cache' k = Some g \<longrightarrow> obj_get cache k \<noteq> Some g \<longrightarrow>
          g_at g = Some now_geo \<and> located (Some g)
          \<and> cached_fresh now_geo (jmul (geoTtlDays cfg) (jint 86400)) cache k = None)"
  using assms(1)
proof (cases rule: rebuildSnapshot_parts)
  case (parts geo)
  let ?ttl = "jmul (geoTtlDays cfg) (jint 86400)"
  note res = resolveGeo_result [OF parts(1)]
  have wf: "obj_wf geo" using res(2) by (simp add: geo_resolved_def)
  have get: "obj_get cache' k = (case obj_get geo k of Some g \<Rightarrow> Some g | None \<Rightarrow> obj_get cache k)" for k
    using obj_spread_get [OF assms(2) wf] parts(2) by simp
  have "obj_wf cache'" using assms(1,2) by (rule rebuildSnapshot_wf)
  moreover have "n' \<le> n + 3 * nat m"
    using res(1) assms(3,4) by (simp add: slice_to_jint)
  moreover have "g_at g = Some now_geo \<and> located (Some g) \<and> cached_fresh now_geo ?ttl cache k = None"
    if "obj_get cache' k = Some g" "obj_get cache k \<noteq> Some g" for k g
  proof -
    have g: "obj_get geo k = Some g" using that get [of k] by (auto split: option.splits)
    have "cached_fresh now_geo ?ttl cache k = None"
    proof (rule ccontr)
      assume f: "cached_fresh now_geo ?ttl cache k \<noteq> None"
      then have "obj_get geo k = cached_fresh now_geo ?ttl cache k"
        using res(2) g unfolding geo_resolved_def by blast
      with f g have "obj_get cache k = Some g"
        by (auto simp: cached_fresh_def split: option.splits if_splits)
      with that(2) show False by contradiction
    qed
    moreover from this have "g_at g = Some now_geo" "truthy_str (g_countryCode g)"
      using res(2) g unfolding geo_resolved_def by blast+
    ultimately show ?thesis by (simp add: located_def)
  qed
  ultimately show ?thesis using get by (auto split: option.splits)
qed

abbreviation sample_rebuild :: "(snapshot \<times> geo obj) \<times> nat" where
  "sample_rebuild \<equiv> rebuildSnapshot sample_geo_io sample_config 1000 1000 1000000 sample_roots [] 0"

lemma sample_rebuild_parts: "\<exists>snap cache n. sample_rebuild = ((snap, cache), n)"
  by (metis surj_pair)

theorem snapshot_nodes_witness:
  "\<exists>snap cache n. sample_rebuild = ((snap, cache), n)
     \<and> (\<forall>nd. nd \<in> set (sn_nodes snap) \<longleftrightarrow>
       (\<exists>k r. obj_get sample_roots k = Some r
          \<and> \<not> jlt (jint (int (nullish (k_lastSeen r) 0))) (online_cutoff sample_config 1000)
          \<and> (on_map (net_of k r) \<longrightarrow> located (obj_get cache k))
          \<and> nd = mk_node k r (if on_map (net_of k r) then obj_get cache k else None)))
     \<and> sn_onlineCount snap = length (sn_nodes snap) \<and> sn_totalKnown snap = 2"
proof -
  obtain snap cache n where e: "sample_rebuild = ((snap, cache), n)" using sample_rebuild_parts by blast
  have "length sample_roots = 2" by (simp add: sample_roots_def)
  with snapshot_nodes [OF e sample_roots_wf] e show ?thesis by (intro exI [of _ snap] exI [of _ cache]) simp
qed

theorem snapshot_counts_witness:
  "\<exists>snap cache n. sample_rebuild = ((snap, cache), n)
     \<and> sorted_wrt (\<lambda>a b. cc_count b \<le> cc_count a) (sn_countries snap)
     \<and> sum_list (map cc_count (sn_countries snap)) = length (filter (\<lambda>nd. on_map (nd_network nd)) (sn_nodes snap))"
proof -
  obtain snap cache n where e: "sample_rebuild = ((snap, cache), n)" using sample_rebuild_parts by blast
  with snapshot_counts [OF e sample_roots_wf] show ?thesis by blast
qed

end
