(* ===== verification/Worker.thy ===== *)
theory Worker
  imports Snapshot
begin

text \<open>
  The worker's entry points (\<open>worker/src/index.js\<close>): configuration from the environment, the
  key-value namespace, the discovery and snapshot run, the HTTP handler and the cron handler.

  The namespace is a record of three slots. A slot is empty, holds text that is no JSON, or
  holds a value; a value is stored as \<open>JSON.stringify\<close> and \<open>JSON.parse\<close> leave it (properties
  in enumeration order, numbers that JSON cannot write become \<open>null\<close>). The platform is a
  parameter (\<open>worker_io\<close>): resolver, peers, GeoIP services, readings of the clock, and which
  operations on the namespace reject; a rejected one leaves the namespace as it was. The
  environment maps variable names to text. A run that is still waiting is \<open>None\<close>.
\<close>

section \<open>Configuration\<close>

type_synonym env = "jsstr \<Rightarrow> jsstr option"

definition csv :: "jsstr option \<Rightarrow> jsstr \<Rightarrow> jsstr list" where
  "csv v fallback =
     (let raw = nullish v fallback
      in filter (\<lambda>s. s \<noteq> []) (map js_trim (js_split (js '','') raw)))"

definition env_number :: "env \<Rightarrow> jsstr \<Rightarrow> int \<Rightarrow> jsnum" where
  \<comment> \<open>\<open>Number(env.NAME ?? dflt)\<close>\<close>
  "env_number env name dflt = (case env name of Some s \<Rightarrow> Number s | None \<Rightarrow> jint dflt)"

definition loadConfig :: "env \<Rightarrow> config" where
  "loadConfig env =
     \<lparr>seedHosts = csv (env (js ''SEED_HOST'')) (js ''seeder.eleknet.org,seed0.eleknet.org''),
      extraSeedHosts = csv (env (js ''EXTRA_SEED_HOSTS'')) (js ''node1.elektron-net.org,node2.elektron-net.org''),
      dnsRounds = env_number env (js ''DNS_QUERY_ROUNDS'') 1,
      dnsDelayMs = env_number env (js ''DNS_QUERY_DELAY_MS'') 0,
      p2pPort = env_number env (js ''P2P_PORT'') 8333,
      maxDepth = env_number env (js ''CRAWL_MAX_DEPTH'') 8,
      maxPeersPerRun = env_number env (js ''CRAWL_MAX_PEERS_PER_RUN'') 6,
      maxGeoLookupsPerRun = env_number env (js ''GEOIP_MAX_LOOKUPS_PER_RUN'') 8,
      connectTimeoutMs = env_number env (js ''CRAWL_CONNECT_TIMEOUT_MS'') 3000,
      totalTimeoutMs = env_number env (js ''CRAWL_TOTAL_TIMEOUT_MS'') 6000,
      geoTtlDays = env_number env (js ''GEOIP_TTL_DAYS'') 30,
      staleAfterDays = env_number env (js ''STALE_AFTER_DAYS'') 30,
      onlineWindowHours = env_number env (js ''ONLINE_WINDOW_HOURS'') 6,
      refreshSeconds = env_number env (js ''REFRESH_SECONDS'') 900,
      corsOrigin = nullish (env (js ''CORS_ORIGIN'')) (js ''*'')\<rparr>"

section \<open>The key-value namespace\<close>

datatype 'v slot = Absent | NotJson | Holds 'v

record kv =
  kv_peers :: "store slot"
  kv_geo :: "geo obj slot"
  kv_snapshot :: "snapshot slot"

definition kvGetJson :: "'v slot \<Rightarrow> 'v option" where
  \<comment> \<open>\<open>None\<close>: the fallback is used\<close>
  "kvGetJson s = (case s of Holds v \<Rightarrow> Some v | _ \<Rightarrow> None)"

definition json_geo :: "geo \<Rightarrow> geo" where
  "json_geo g = g\<lparr>g_lat := json_number (g_lat g), g_lon := json_number (g_lon g)\<rparr>"

definition json_node :: "node \<Rightarrow> node" where
  "json_node nd = nd\<lparr>nd_lat := json_number (nd_lat nd), nd_lon := json_number (nd_lon nd)\<rparr>"

definition json_store :: "store \<Rightarrow> store" where
  "json_store store = js_entries store"

definition json_cache :: "geo obj \<Rightarrow> geo obj" where
  "json_cache cache = map (\<lambda>(k, g). (k, json_geo g)) (js_entries cache)"

definition json_snapshot :: "snapshot \<Rightarrow> snapshot" where
  "json_snapshot snap = snap\<lparr>sn_networkCounts := js_entries (sn_networkCounts snap),
     sn_nodes := map json_node (sn_nodes snap)\<rparr>"

section \<open>Discovery and snapshot\<close>

datatype kvop = GetPeers | PutPeers | GetSnapshot | GetGeo | PutGeo | PutSnapshot

record worker_io =
  w_dns :: dns_io
  w_peers :: "nat \<Rightarrow> peer_io"
  w_geo :: geo_io
  w_kv :: "kvop \<Rightarrow> jserr option"
  w_now_crawl :: nat       \<comment> \<open>seconds, in \<open>advanceCrawl\<close>\<close>
  w_now_check :: nat       \<comment> \<open>milliseconds, when the snapshot's age is checked\<close>
  w_now_snapshot :: nat    \<comment> \<open>seconds, in \<open>rebuildSnapshot\<close>\<close>
  w_now_geo :: nat         \<comment> \<open>seconds, in \<open>resolveGeo\<close>\<close>
  w_now_generated :: nat   \<comment> \<open>milliseconds, \<open>generatedAt\<close>\<close>

definition date_parse :: "int option \<Rightarrow> jsnum" where
  "date_parse d = (case d of Some ms \<Rightarrow> jint ms | None \<Rightarrow> NaN)"

definition isStale :: "config \<Rightarrow> nat \<Rightarrow> snapshot option \<Rightarrow> bool" where
  "isStale cfg now_ms existing =
     (case existing of
        None \<Rightarrow> True
      | Some snap \<Rightarrow>
          jge (jsub (jdivc (jint (int now_ms)) 1000) (jdivc (date_parse (sn_generatedAt snap)) 1000))
            (refreshSeconds cfg))"

text \<open>An operation on the namespace that may reject, and what follows it.\<close>

type_synonym 'a run = "('a res \<times> kv \<times> nat) option"

definition kv_then :: "worker_io \<Rightarrow> kvop \<Rightarrow> kv \<Rightarrow> nat \<Rightarrow> 'a run \<Rightarrow> 'a run" where
  "kv_then io op kv n k = (case w_kv io op of Some e \<Rightarrow> Some (Inl e, kv, n) | None \<Rightarrow> k)"

definition refresh_snapshot :: "worker_io \<Rightarrow> config \<Rightarrow> store \<Rightarrow> kv \<Rightarrow> nat \<Rightarrow> snapshot run" where
  "refresh_snapshot io cfg store kv n =
     kv_then io GetSnapshot kv n
       (let existing = kvGetJson (kv_snapshot kv)
        in case (isStale cfg (w_now_check io) existing, existing) of
             (False, Some snap) \<Rightarrow> Some (Inr snap, kv, n)
           | _ \<Rightarrow>
               kv_then io GetGeo kv n
                 (let geoCache = nullish (kvGetJson (kv_geo kv)) [];
                      ((snapshot, mergedGeo), n') =
                        rebuildSnapshot (w_geo io) cfg (w_now_snapshot io) (w_now_geo io) (w_now_generated io)
                          store geoCache n
                  in kv_then io PutGeo kv n'
                       (let kv1 = kv\<lparr>kv_geo := Holds (json_cache mergedGeo)\<rparr>
                        in kv_then io PutSnapshot kv1 n'
                             (Some (Inr snapshot, kv1\<lparr>kv_snapshot := Holds (json_snapshot snapshot)\<rparr>, n')))))"

definition runDiscoveryAndSnapshot :: "worker_io \<Rightarrow> config \<Rightarrow> kv \<Rightarrow> nat \<Rightarrow> snapshot run" where
  "runDiscoveryAndSnapshot io cfg kv n =
     kv_then io GetPeers kv n
       (case advanceCrawl None (w_dns io) (w_peers io) cfg (w_now_crawl io)
               (nullish (kvGetJson (kv_peers kv)) []) n of
          None \<Rightarrow> None
        | Some (Inl e, n1) \<Rightarrow> Some (Inl e, kv, n1)
        | Some (Inr store, n1) \<Rightarrow>
            kv_then io PutPeers kv n1
              (refresh_snapshot io cfg store (kv\<lparr>kv_peers := Holds (json_store store)\<rparr>) n1))"

section \<open>Requests\<close>

datatype body = NoBody | Text jsstr | JsonSnapshot snapshot | JsonError jsstr

record reply =
  rs_status :: nat
  rs_headers :: "(jsstr \<times> jsstr) list"
  rs_body :: body

record http_request =
  rq_method :: jsstr
  rq_params :: "(jsstr \<times> jsstr) list"   \<comment> \<open>the decoded query, in order\<close>

definition corsHeaders :: "jsstr \<Rightarrow> (jsstr \<times> jsstr) list" where
  "corsHeaders origin =
     [(js ''Access-Control-Allow-Origin'', origin),
      (js ''Access-Control-Allow-Methods'', js ''GET, OPTIONS''),
      (js ''Access-Control-Allow-Headers'', js ''Content-Type'')]"

definition jsonResponse :: "body \<Rightarrow> config \<Rightarrow> nat \<Rightarrow> reply" where
  "jsonResponse b cfg status =
     \<lparr>rs_status = status,
      rs_headers = (js ''Content-Type'', js ''application/json'') # corsHeaders (corsOrigin cfg),
      rs_body = (case b of JsonSnapshot snap \<Rightarrow> JsonSnapshot (json_snapshot snap) | _ \<Rightarrow> b)\<rparr>"

definition no_snapshot_yet :: jsstr where
  "no_snapshot_yet = js ''no snapshot available yet -- wait for the first cron run or hit ?cron=1''"

definition wants_cron :: "http_request \<Rightarrow> bool" where
  "wants_cron req \<longleftrightarrow> map_of (rq_params req) (js ''cron'') = Some (js ''1'')"

definition forbidden :: "env \<Rightarrow> http_request \<Rightarrow> bool" where
  "forbidden env req \<longleftrightarrow>
     truthy_str (env (js ''CRON_SECRET'')) \<and> map_of (rq_params req) (js ''secret'') \<noteq> env (js ''CRON_SECRET'')"

text \<open>The read of the snapshot is the only operation of a plain request.\<close>

definition fetch_handler :: "worker_io \<Rightarrow> env \<Rightarrow> http_request \<Rightarrow> kv \<Rightarrow> nat \<Rightarrow> reply run" where
  "fetch_handler io env req kv n =
     (let cfg = loadConfig env
      in if rq_method req = js ''OPTIONS'' then
           Some (Inr \<lparr>rs_status = 200, rs_headers = corsHeaders (corsOrigin cfg), rs_body = NoBody\<rparr>, kv, n)
         else if wants_cron req then
           if forbidden env req then
             Some (Inr \<lparr>rs_status = 403, rs_headers = [], rs_body = Text (js ''forbidden'')\<rparr>, kv, n)
           else map_option (\<lambda>(r, kv', n'). (bindE r (\<lambda>snap. Inr (jsonResponse (JsonSnapshot snap) cfg 200)), kv', n'))
                  (runDiscoveryAndSnapshot io cfg kv n)
         else
           kv_then io GetSnapshot kv n
             (case kvGetJson (kv_snapshot kv) of
                None \<Rightarrow> Some (Inr (jsonResponse (JsonError no_snapshot_yet) cfg 503), kv, n)
              | Some snap \<Rightarrow> Some (Inr (jsonResponse (JsonSnapshot snap) cfg 200), kv, n)))"

text \<open>\<open>ctx.waitUntil(...)\<close>: the run goes on by itself and its result is dropped.\<close>

definition scheduled :: "worker_io \<Rightarrow> env \<Rightarrow> kv \<Rightarrow> nat \<Rightarrow> (kv \<times> nat) option" where
  "scheduled io env kv n = map_option snd (runDiscoveryAndSnapshot io (loadConfig env) kv n)"

section \<open>What the namespace keeps\<close>

lemma all_peers_entries: "all_peers P store \<Longrightarrow> all_peers P (json_store store)"
  by (simp add: all_peers_def json_store_def map_of_js_entries obj_wf_js_entries)

lemma store_ok_json: "store_ok cfg t store \<Longrightarrow> store_ok cfg t (json_store store)"
  unfolding store_ok_def by (rule all_peers_entries)

lemma obj_wf_json_cache: "obj_wf cache \<Longrightarrow> obj_wf (json_cache cache)"
  using obj_wf_entries by (simp add: obj_wf_def json_cache_def split_beta comp_def)

lemma json_node_simps [simp]:
  "nd_network (json_node nd) = nd_network nd" "nd_countryCode (json_node nd) = nd_countryCode nd"
  by (simp_all add: json_node_def)

lemma node_codes_json: "node_codes (map json_node ns) = node_codes ns"
  by (induction ns) (simp_all add: node_codes_def map_filter_Cons List.map_filter_simps split: option.split)

lemma counts_agree_json: "counts_agree snap \<Longrightarrow> counts_agree (json_snapshot snap)"
  unfolding counts_agree_def json_snapshot_def
  by (simp add: node_codes_json map_of_js_entries obj_wf_js_entries comp_def filter_map) (metis (full_types))

definition kv_ok :: "config \<Rightarrow> nat \<Rightarrow> kv \<Rightarrow> bool" where
  "kv_ok cfg t kv \<longleftrightarrow>
     (\<forall>store. kvGetJson (kv_peers kv) = Some store \<longrightarrow> store_ok cfg t store)
     \<and> (\<forall>cache. kvGetJson (kv_geo kv) = Some cache \<longrightarrow> obj_wf cache)
     \<and> (\<forall>snap. kvGetJson (kv_snapshot kv) = Some snap \<longrightarrow> counts_agree snap)"

lemma kvGetJson_Holds [simp]: "kvGetJson (Holds v) = Some v"
  by (simp add: kvGetJson_def)

lemma kv_ok_later: "kv_ok cfg t kv \<Longrightarrow> t \<le> t' \<Longrightarrow> kv_ok cfg t' kv"
  unfolding kv_ok_def by (blast intro: store_ok_later)

text \<open>The snapshot part of a run: nothing happened, or the cache was written, or both were.\<close>

lemma refresh_snapshot_cases:
  assumes "refresh_snapshot io cfg store kv n = Some (r, kv', n')"
  obtains (rejected) e where "r = Inl e" "kv' = kv" "n' = n"
    | (current) snap where "kvGetJson (kv_snapshot kv) = Some snap" "\<not> isStale cfg (w_now_check io) (Some snap)"
        "r = Inr snap" "kv' = kv" "n' = n"
    | (rebuilt) snap cache' where
        "isStale cfg (w_now_check io) (kvGetJson (kv_snapshot kv))"
        "rebuildSnapshot (w_geo io) cfg (w_now_snapshot io) (w_now_geo io) (w_now_generated io) store
           (nullish (kvGetJson (kv_geo kv)) []) n = ((snap, cache'), n')"
        "kv' = kv \<or> kv' = kv\<lparr>kv_geo := Holds (json_cache cache')\<rparr>
         \<or> kv' = kv\<lparr>kv_geo := Holds (json_cache cache'), kv_snapshot := Holds (json_snapshot snap)\<rparr>"
        "\<forall>s. r = Inr s \<longrightarrow> s = snap"
proof -
  let ?ex = "kvGetJson (kv_snapshot kv)"
  obtain snap cache' m where rb: "rebuildSnapshot (w_geo io) cfg (w_now_snapshot io) (w_now_geo io)
      (w_now_generated io) store (nullish (kvGetJson (kv_geo kv)) []) n = ((snap, cache'), m)"
    by (metis surj_pair)
  show ?thesis
  proof (cases "isStale cfg (w_now_check io) ?ex")
    case False
    then obtain s where s: "?ex = Some s" by (cases ?ex) (simp_all add: isStale_def)
    show ?thesis
    proof (cases "w_kv io GetSnapshot")
      case None
      then show ?thesis using assms False s current [of s] by (simp add: refresh_snapshot_def kv_then_def)
    next
      case (Some e)
      then show ?thesis using assms rejected [of e] by (simp add: refresh_snapshot_def kv_then_def)
    qed
  next
    case True
    consider e where "w_kv io GetSnapshot = Some e"
      | e where "w_kv io GetSnapshot = None" "w_kv io GetGeo = Some e"
      | "w_kv io GetSnapshot = None" "w_kv io GetGeo = None" by fastforce
    then show ?thesis
    proof cases
      case (1 e)
      then show ?thesis using assms rejected [of e] by (simp add: refresh_snapshot_def kv_then_def)
    next
      case (2 e)
      then show ?thesis using assms True rejected [of e] by (simp add: refresh_snapshot_def kv_then_def)
    next
      case 3
      then have "kv_then io PutGeo kv m
          (let kv1 = kv\<lparr>kv_geo := Holds (json_cache cache')\<rparr>
           in kv_then io PutSnapshot kv1 m
                (Some (Inr snap, kv1\<lparr>kv_snapshot := Holds (json_snapshot snap)\<rparr>, m))) = Some (r, kv', n')"
        using assms True rb by (simp add: refresh_snapshot_def kv_then_def [of _ GetSnapshot] kv_then_def [of _ GetGeo])
      then have out: "n' = m" "\<forall>s. r = Inr s \<longrightarrow> s = snap"
        "kv' = kv \<or> kv' = kv\<lparr>kv_geo := Holds (json_cache cache')\<rparr>
         \<or> kv' = kv\<lparr>kv_geo := Holds (json_cache cache'), kv_snapshot := Holds (json_snapshot snap)\<rparr>"
        by (auto simp: kv_then_def Let_def split: option.splits)
      show ?thesis by (rule rebuilt [OF True _ out(3,2)]) (simp add: rb out(1))
    qed
  qed
qed

lemma refresh_snapshot_ok:
  assumes "refresh_snapshot io cfg store kv n = Some (r, kv', n')" "kv_ok cfg t kv" "obj_wf store"
  shows "kv_ok cfg t kv' \<and> (\<forall>snap. r = Inr snap \<longrightarrow> counts_agree snap)"
  using assms(1)
proof (cases rule: refresh_snapshot_cases)
  case (rejected e)
  then show ?thesis using assms(2) by simp
next
  case (current snap)
  then show ?thesis using assms(2) by (simp add: kv_ok_def)
next
  case (rebuilt snap cache')
  have "obj_wf (nullish (kvGetJson (kv_geo kv)) [])"
    using assms(2) by (cases "kvGetJson (kv_geo kv)") (auto simp: kv_ok_def)
  then have "obj_wf (json_cache cache')"
    using rebuildSnapshot_wf [OF rebuilt(2)] by (simp add: obj_wf_json_cache)
  moreover have "counts_agree snap" using rebuildSnapshot_counts [OF rebuilt(2) assms(3)] .
  ultimately show ?thesis
    using rebuilt(3,4) assms(2) counts_agree_json by (auto simp: kv_ok_def)
qed

text \<open>A whole run: it broke off before the peers were written, or went on to the snapshot.\<close>

lemma run_cases:
  assumes "runDiscoveryAndSnapshot io cfg kv n = Some (r, kv', n')"
  obtains (unread) e where "r = Inl e" "kv' = kv" "n' = n"
    | (unsaved) e x where "advanceCrawl None (w_dns io) (w_peers io) cfg (w_now_crawl io)
          (nullish (kvGetJson (kv_peers kv)) []) n = Some (x, n')" "r = Inl e" "kv' = kv"
    | (saved) store n1 where "advanceCrawl None (w_dns io) (w_peers io) cfg (w_now_crawl io)
          (nullish (kvGetJson (kv_peers kv)) []) n = Some (Inr store, n1)"
        "refresh_snapshot io cfg store (kv\<lparr>kv_peers := Holds (json_store store)\<rparr>) n1 = Some (r, kv', n')"
proof (cases "w_kv io GetPeers")
  case (Some e)
  then show ?thesis using assms unread [of e] by (simp add: runDiscoveryAndSnapshot_def kv_then_def)
next
  case None
  let ?crawl = "advanceCrawl None (w_dns io) (w_peers io) cfg (w_now_crawl io)
          (nullish (kvGetJson (kv_peers kv)) []) n"
  obtain x n1 where c: "?crawl = Some (x, n1)"
    using assms None by (cases ?crawl) (auto simp: runDiscoveryAndSnapshot_def kv_then_def)
  show ?thesis
  proof (cases x)
    case (Inl e)
    then have "r = Inl e" "kv' = kv" "n' = n1"
      using assms None by (simp_all add: runDiscoveryAndSnapshot_def kv_then_def c)
    then show ?thesis using c by (intro unsaved [of x e]) simp_all
  next
    case (Inr store)
    show ?thesis
    proof (cases "w_kv io PutPeers")
      case (Some e)
      then have "r = Inl e" "kv' = kv" "n' = n1"
        using assms None Inr by (simp_all add: runDiscoveryAndSnapshot_def kv_then_def c)
      then show ?thesis using c by (intro unsaved [of x e]) simp_all
    next
      case put: None
      have "refresh_snapshot io cfg store (kv\<lparr>kv_peers := Holds (json_store store)\<rparr>) n1 = Some (r, kv', n')"
        using assms None put Inr by (simp add: runDiscoveryAndSnapshot_def kv_then_def c)
      then show ?thesis using c Inr by (intro saved [of store n1]) simp_all
    qed
  qed
qed

lemma run_ok:
  assumes "runDiscoveryAndSnapshot io cfg kv n = Some (r, kv', n')" "kv_ok cfg t kv" "t \<le> w_now_crawl io"
  shows "kv_ok cfg (w_now_crawl io) kv' \<and> (\<forall>snap. r = Inr snap \<longrightarrow> counts_agree snap)"
proof -
  let ?st = "nullish (kvGetJson (kv_peers kv)) []" and ?now = "w_now_crawl io"
  have kv: "kv_ok cfg ?now kv" using assms(2,3) by (rule kv_ok_later)
  then have st: "store_ok cfg ?now ?st" by (cases "kvGetJson (kv_peers kv)") (auto simp: kv_ok_def)
  from assms(1) show ?thesis
  proof (cases rule: run_cases)
    case (saved store n1)
    have ok: "store_ok cfg ?now store"
      using known.advanceCrawl_keeps [OF saved(1)] st by (simp add: store_ok_def)
    then have "kv_ok cfg ?now (kv\<lparr>kv_peers := Holds (json_store store)\<rparr>)"
      using kv store_ok_json by (simp add: kv_ok_def)
    moreover have "obj_wf store" using ok by (simp add: store_ok_def all_peers_def)
    ultimately show ?thesis using refresh_snapshot_ok [OF saved(2)] by blast
  qed (use kv in simp_all)
qed

section \<open>Who can cause work\<close>

definition authorised :: "env \<Rightarrow> http_request \<Rightarrow> bool" where
  "authorised env req \<longleftrightarrow>
     rq_method req \<noteq> js ''OPTIONS'' \<and> map_of (rq_params req) (js ''cron'') = Some (js ''1'')
     \<and> (\<not> truthy_str (env (js ''CRON_SECRET''))
        \<or> map_of (rq_params req) (js ''secret'') = env (js ''CRON_SECRET''))"

lemma fetch_authorised:
  "authorised env req \<Longrightarrow> fetch_handler io env req kv n =
     map_option (\<lambda>(r, kv', n'). (bindE r (\<lambda>snap. Inr (jsonResponse (JsonSnapshot snap) (loadConfig env) 200)), kv', n'))
       (runDiscoveryAndSnapshot io (loadConfig env) kv n)"
  by (auto simp: fetch_handler_def authorised_def wants_cron_def forbidden_def Let_def simp del: js_simps)

lemma fetch_plain:
  assumes "\<not> authorised env req"
  shows "\<exists>r. fetch_handler io env req kv n = Some (r, kv, n)
     \<and> (\<forall>reply snap. r = Inr reply \<longrightarrow> rs_body reply = JsonSnapshot snap \<longrightarrow>
          (\<exists>s. kvGetJson (kv_snapshot kv) = Some s \<and> snap = json_snapshot s \<and> rs_status reply = 200))"
proof (cases "rq_method req = js ''OPTIONS'' \<or> wants_cron req")
  case True
  then show ?thesis
    using assms by (auto simp: fetch_handler_def authorised_def wants_cron_def forbidden_def Let_def simp del: js_simps)
next
  case False
  then show ?thesis
    by (cases "w_kv io GetSnapshot"; cases "kvGetJson (kv_snapshot kv)")
      (auto simp: fetch_handler_def Let_def kv_then_def jsonResponse_def simp del: js_simps)
qed


section \<open>The worker over time\<close>

definition empty_kv :: kv where
  "empty_kv = \<lparr>kv_peers = Absent, kv_geo = Absent, kv_snapshot = Absent\<rparr>"

text \<open>Cron ticks and requests, one after the other, from an empty namespace.\<close>

inductive worker_run :: "env \<Rightarrow> nat \<Rightarrow> kv \<Rightarrow> bool" for env where
  start: "worker_run env t empty_kv"
| tick: "worker_run env t kv \<Longrightarrow> t \<le> w_now_crawl io \<Longrightarrow> scheduled io env kv n = Some (kv', n') \<Longrightarrow>
     worker_run env (w_now_crawl io) kv'"
| request: "worker_run env t kv \<Longrightarrow> t \<le> w_now_crawl io \<Longrightarrow> fetch_handler io env req kv n = Some (r, kv', n') \<Longrightarrow>
     worker_run env (w_now_crawl io) kv'"

lemma fetch_ok:
  assumes "fetch_handler io env req kv n = Some (r, kv', n')" "kv_ok (loadConfig env) t kv" "t \<le> w_now_crawl io"
  shows "kv_ok (loadConfig env) (w_now_crawl io) kv'
     \<and> (\<forall>reply snap. r = Inr reply \<longrightarrow> rs_body reply = JsonSnapshot snap \<longrightarrow> counts_agree snap)"
proof (cases "authorised env req")
  case True
  then obtain r0 where run: "runDiscoveryAndSnapshot io (loadConfig env) kv n = Some (r0, kv', n')"
    and r: "r = bindE r0 (\<lambda>snap. Inr (jsonResponse (JsonSnapshot snap) (loadConfig env) 200))"
    using assms(1) by (auto simp: fetch_authorised)
  from run_ok [OF run assms(2,3)] show ?thesis
    using r counts_agree_json by (cases r0) (auto simp: jsonResponse_def simp del: js_simps)
next
  case False
  from fetch_plain [OF this, of io kv n] assms(1)
  have "kv' = kv" "\<forall>reply snap. r = Inr reply \<longrightarrow> rs_body reply = JsonSnapshot snap \<longrightarrow>
      (\<exists>s. kvGetJson (kv_snapshot kv) = Some s \<and> snap = json_snapshot s)" by auto
  then show ?thesis
    using kv_ok_later [OF assms(2,3)] counts_agree_json by (auto simp: kv_ok_def)
qed

lemma worker_run_ok: "worker_run env t kv \<Longrightarrow> kv_ok (loadConfig env) t kv"
proof (induction rule: worker_run.induct)
  case (start t)
  show ?case by (simp add: kv_ok_def empty_kv_def kvGetJson_def)
next
  case (tick t kv io n kv' n')
  then obtain r where "runDiscoveryAndSnapshot io (loadConfig env) kv n = Some (r, kv', n')"
    by (auto simp: scheduled_def)
  from run_ok [OF this tick.IH tick.hyps(2)] show ?case by blast
next
  case (request t kv io req n r kv' n')
  from fetch_ok [OF request.hyps(3) request.IH request.hyps(2)] show ?case by blast
qed

section \<open>Budget\<close>

lemma rebuildSnapshot_count:
  assumes "rebuildSnapshot io cfg now now_geo now_ms store cache n = ((snap, cache'), n')"
    "maxGeoLookupsPerRun cfg = jint g" "0 \<le> g"
  shows "n' \<le> n + 3 * nat g"
  using assms(1)
proof (cases rule: rebuildSnapshot_parts)
  case (parts geo)
  show ?thesis using resolveGeo_result(1) [OF parts(1)] assms(2,3) by (simp add: slice_to_jint)
qed

lemma kv_then_None: "kv_then io op kv n k = None \<longleftrightarrow> w_kv io op = None \<and> k = None"
  by (simp add: kv_then_def split: option.split)

lemma refresh_snapshot_returns: "refresh_snapshot io cfg store kv n \<noteq> None"
  by (simp add: refresh_snapshot_def kv_then_def Let_def split: prod.split option.split bool.split)

lemma run_ends:
  assumes "dnsRounds cfg = jint r" "r \<le> 2 ^ 53" "maxPeersPerRun cfg = jint m" "patient (w_peers io) cfg"
    "maxGeoLookupsPerRun cfg = jint g" "0 \<le> g"
  shows "\<exists>res kv' n'. runDiscoveryAndSnapshot io cfg kv n = Some (res, kv', n')
     \<and> n' \<le> n + 2 * length (seedHosts cfg) * nat (max 1 r) + 2 * length (extraSeedHosts cfg) + nat m + 3 * nat g"
proof -
  let ?st = "nullish (kvGetJson (kv_peers kv)) []"
  obtain x n1 where c: "advanceCrawl None (w_dns io) (w_peers io) cfg (w_now_crawl io) ?st n = Some (x, n1)"
    and n1: "n1 \<le> n + 2 * length (seedHosts cfg) * nat (max 1 r) + 2 * length (extraSeedHosts cfg) + nat m"
    using advanceCrawl_ends [OF assms(1-4)] by blast
  have "runDiscoveryAndSnapshot io cfg kv n \<noteq> None"
    using c refresh_snapshot_returns by (cases x) (auto simp: runDiscoveryAndSnapshot_def kv_then_None)
  then obtain res kv' n' where run: "runDiscoveryAndSnapshot io cfg kv n = Some (res, kv', n')" by auto
  then have "n' \<le> n1 + 3 * nat g \<or> n' = n"
  proof (cases rule: run_cases)
    case (unsaved e x)
    then show ?thesis using c by simp
  next
    case (saved store n2)
    then have "n2 = n1" using c by simp
    from saved(2) show ?thesis
      by (cases rule: refresh_snapshot_cases)
        (use \<open>n2 = n1\<close> rebuildSnapshot_count [OF _ assms(5,6)] in auto)
  qed simp
  with run n1 show ?thesis by auto
qed

section \<open>Sample workers\<close>

text \<open>A worker without seed hosts, and one with the default configuration.\<close>

definition quiet_env :: env where
  "quiet_env name = (if name = js ''SEED_HOST'' \<or> name = js ''EXTRA_SEED_HOSTS'' then Some [] else None)"

definition sample_worker :: worker_io where
  "sample_worker = \<lparr>w_dns = sample_dns, w_peers = (\<lambda>_. sample_io), w_geo = sample_geo_io, w_kv = (\<lambda>_. None),
     w_now_crawl = 1000, w_now_check = 1000000, w_now_snapshot = 1000, w_now_geo = 1000,
     w_now_generated = 1000000\<rparr>"

definition cron_request :: http_request where
  "cron_request = \<lparr>rq_method = js ''GET'', rq_params = [(js ''cron'', js ''1'')]\<rparr>"

lemma quiet_config:
  "seedHosts (loadConfig quiet_env) = []" "extraSeedHosts (loadConfig quiet_env) = []"
  "dnsRounds (loadConfig quiet_env) = jint 1"
  by (simp_all add: loadConfig_def quiet_env_def csv_def env_number_def js_split_def js_trim_def trim_left_def)

lemma quiet_crawl: "advanceCrawl None dns peers (loadConfig quiet_env) now [] n = Some (Inr [], n)"
proof -
  have "sampleSeedIps dns [] (jint 1) n = Some (Inr [], n)"
    unfolding sampleSeedIps_def
    by (subst sample_rounds.simps, subst sample_rounds.simps) (simp add: returnN_def jadd_jint safe_int_def)
  moreover have "candidates cfg [] = []" for cfg by (simp add: candidates_def eligible_cands_def)
  ultimately show ?thesis
    by (simp add: advanceCrawl_def quiet_config resolveExtraSeedIps_def returnN_def crawl_roots_def new_Set_def
        heal_store_def prune_def js_keys_def)
qed

lemma quiet_run:
  "\<exists>snap kv'. runDiscoveryAndSnapshot sample_worker (loadConfig quiet_env) empty_kv 0 = Some (Inr snap, kv', 0)"
proof -
  have "resolveGeo io t [] [] d m n = ([], n)" for io t d m n
    by (simp add: resolveGeo_def)
  then show ?thesis
    by (simp add: runDiscoveryAndSnapshot_def refresh_snapshot_def sample_worker_def empty_kv_def kv_then_def
        kvGetJson_def quiet_crawl isStale_def rebuildSnapshot_def geoable_keys_def js_entries_def)
qed

lemma default_config:
  "length (seedHosts (loadConfig (\<lambda>_. None))) = 2" "length (extraSeedHosts (loadConfig (\<lambda>_. None))) = 2"
  "dnsRounds (loadConfig (\<lambda>_. None)) = jint 1" "maxPeersPerRun (loadConfig (\<lambda>_. None)) = jint 6"
  "maxGeoLookupsPerRun (loadConfig (\<lambda>_. None)) = jint 8" "totalTimeoutMs (loadConfig (\<lambda>_. None)) = jint 6000"
  by (simp_all add: loadConfig_def csv_def env_number_def js_split_def js_trim_def trim_left_def is_space_def)


end
