(* ===== verification/Worker_Overlap.thy ===== *)
theory Worker_Overlap
  imports Worker
begin

text \<open>
  Runs of the worker that overlap. \<open>runDiscoveryAndSnapshot\<close> of \<open>index.js\<close> gives up control at
  every \<open>await\<close>, and nothing keeps a cron tick and a \<open>?cron=1\<close> request from running at the same
  time. A run is cut here into steps at these points (\<open>run_step\<close>); \<open>alone_run\<close> shows that the
  steps of an undisturbed run are the function of \<open>Worker\<close>. \<open>overlapped\<close> interleaves the steps of any
  number of runs over one namespace, with stale reads. Every interleaving keeps the invariants;
  what it does not keep is the work of a run whose write is overwritten.
\<close>

section \<open>The steps of a run\<close>

datatype phase =
    Started
  | Crawling store
  | Crawled store
  | Saved store
  | Rebuilding store
  | Rebuilt snapshot "geo obj"
  | GeoSaved snapshot
  | Finished snapshot
  | Failed jserr

text \<open>An operation on the namespace that may reject, and the phase it leads to.\<close>

definition kv_phase :: "worker_io \<Rightarrow> kvop \<Rightarrow> kv \<Rightarrow> nat \<Rightarrow> phase \<times> kv \<times> nat \<Rightarrow> (phase \<times> kv \<times> nat) option" where
  "kv_phase io op kv n next = Some (case w_kv io op of Some e \<Rightarrow> (Failed e, kv, n) | None \<Rightarrow> next)"

text \<open>One step. \<open>view\<close> is the namespace as this run sees it when it reads.\<close>

fun run_step :: "worker_io \<Rightarrow> config \<Rightarrow> kv \<Rightarrow> phase \<times> kv \<times> nat \<Rightarrow> (phase \<times> kv \<times> nat) option" where
  "run_step io cfg view (Started, kv, n) =
     kv_phase io GetPeers kv n (Crawling (nullish (kvGetJson (kv_peers view)) []), kv, n)"
| "run_step io cfg view (Crawling store, kv, n) =
     (case advanceCrawl None (w_dns io) (w_peers io) cfg (w_now_crawl io) store n of
        None \<Rightarrow> None
      | Some (Inl e, n') \<Rightarrow> Some (Failed e, kv, n')
      | Some (Inr store', n') \<Rightarrow> Some (Crawled store', kv, n'))"
| "run_step io cfg view (Crawled store, kv, n) =
     kv_phase io PutPeers kv n (Saved store, kv\<lparr>kv_peers := Holds (json_store store)\<rparr>, n)"
| "run_step io cfg view (Saved store, kv, n) =
     kv_phase io GetSnapshot kv n
       (let existing = kvGetJson (kv_snapshot view)
        in case (isStale cfg (w_now_check io) existing, existing) of
             (False, Some snap) \<Rightarrow> (Finished snap, kv, n)
           | _ \<Rightarrow> (Rebuilding store, kv, n))"
| "run_step io cfg view (Rebuilding store, kv, n) =
     (let geoCache = nullish (kvGetJson (kv_geo view)) [];
          ((snapshot, mergedGeo), n') =
            rebuildSnapshot (w_geo io) cfg (w_now_snapshot io) (w_now_geo io) (w_now_generated io) store geoCache n
      in kv_phase io GetGeo kv n (Rebuilt snapshot mergedGeo, kv, n'))"
| "run_step io cfg view (Rebuilt snapshot mergedGeo, kv, n) =
     kv_phase io PutGeo kv n (GeoSaved snapshot, kv\<lparr>kv_geo := Holds (json_cache mergedGeo)\<rparr>, n)"
| "run_step io cfg view (GeoSaved snapshot, kv, n) =
     kv_phase io PutSnapshot kv n (Finished snapshot, kv\<lparr>kv_snapshot := Holds (json_snapshot snapshot)\<rparr>, n)"
| "run_step io cfg view (Finished snapshot, kv, n) = None"
| "run_step io cfg view (Failed e, kv, n) = None"

text \<open>A run that nothing interferes with.\<close>

primrec alone :: "nat \<Rightarrow> worker_io \<Rightarrow> config \<Rightarrow> phase \<times> kv \<times> nat \<Rightarrow> snapshot run" where
  "alone 0 io cfg st = None"
| "alone (Suc k) io cfg st =
     (case st of
        (Finished snap, kv, n) \<Rightarrow> Some (Inr snap, kv, n)
      | (Failed e, kv, n) \<Rightarrow> Some (Inl e, kv, n)
      | (p, kv, n) \<Rightarrow> (case run_step io cfg kv st of None \<Rightarrow> None | Some st' \<Rightarrow> alone k io cfg st'))"

lemma alone_Failed: "0 < k \<Longrightarrow> alone k io cfg (Failed e, kv, n) = Some (Inl e, kv, n)"
  by (cases k) simp_all

lemma alone_Saved: "alone 5 io cfg (Saved store, kv, n) = refresh_snapshot io cfg store kv n"
  by (simp add: eval_nat_numeral refresh_snapshot_def kv_then_def kv_phase_def Let_def split_beta
      split: option.split bool.split)

lemma alone_Crawled: "alone 6 io cfg (Crawled store, kv, n)
    = kv_then io PutPeers kv n (refresh_snapshot io cfg store (kv\<lparr>kv_peers := Holds (json_store store)\<rparr>) n)"
  using alone.simps(2) [of 5 io cfg "(Crawled store, kv, n)"]
  by (simp add: kv_then_def kv_phase_def alone_Saved alone_Failed split: option.split)

lemma alone_Crawling: "alone 7 io cfg (Crawling store, kv, n) =
    (case advanceCrawl None (w_dns io) (w_peers io) cfg (w_now_crawl io) store n of
       None \<Rightarrow> None
     | Some (Inl e, n1) \<Rightarrow> Some (Inl e, kv, n1)
     | Some (Inr store', n1) \<Rightarrow> kv_then io PutPeers kv n1
         (refresh_snapshot io cfg store' (kv\<lparr>kv_peers := Holds (json_store store')\<rparr>) n1))"
  using alone.simps(2) [of 6 io cfg "(Crawling store, kv, n)"]
  by (simp add: alone_Crawled alone_Failed split: option.split sum.split)

lemma alone_run: "alone 8 io cfg (Started, kv, n) = runDiscoveryAndSnapshot io cfg kv n"
  using alone.simps(2) [of 7 io cfg "(Started, kv, n)"]
  by (simp add: runDiscoveryAndSnapshot_def kv_then_def [of io GetPeers] kv_phase_def alone_Crawling alone_Failed
      split: option.split)

section \<open>Runs that overlap\<close>

text \<open>
  The runs in progress, each with its platform, phase and request count, and the namespace with
  its history, latest first. Reads are eventually consistent: a run, and a visitor, may see any
  earlier state of the namespace. Time does not go back; the clock of \<open>advanceCrawl\<close> is read
  between the step before and its own.
\<close>

type_synonym running = "worker_io \<times> phase \<times> nat"

inductive overlapped :: "env \<Rightarrow> nat \<Rightarrow> kv list \<Rightarrow> running list \<Rightarrow> bool" for env where
  empty: "overlapped env t [empty_kv] []"
| begin_run: "overlapped env t hist runs \<Longrightarrow> overlapped env t hist (runs @ [(io, Started, n)])"
| step: "overlapped env t hist runs \<Longrightarrow> i < length runs \<Longrightarrow> runs ! i = (io, p, n) \<Longrightarrow> view \<in> set hist \<Longrightarrow>
     run_step io (loadConfig env) view (p, hd hist, n) = Some (p', kv', n') \<Longrightarrow> t \<le> t' \<Longrightarrow>
     (\<And>store. p = Crawling store \<Longrightarrow> t \<le> w_now_crawl io \<and> w_now_crawl io \<le> t') \<Longrightarrow>
     overlapped env t' (kv' # hist) (runs[i := (io, p', n')])"

section \<open>What every interleaving keeps\<close>

fun phase_ok :: "config \<Rightarrow> nat \<Rightarrow> phase \<Rightarrow> bool" where
  "phase_ok cfg t Started \<longleftrightarrow> True"
| "phase_ok cfg t (Crawling store) \<longleftrightarrow> store_ok cfg t store"
| "phase_ok cfg t (Crawled store) \<longleftrightarrow> store_ok cfg t store"
| "phase_ok cfg t (Saved store) \<longleftrightarrow> store_ok cfg t store"
| "phase_ok cfg t (Rebuilding store) \<longleftrightarrow> store_ok cfg t store"
| "phase_ok cfg t (Rebuilt snap cache) \<longleftrightarrow> counts_agree snap \<and> obj_wf cache"
| "phase_ok cfg t (GeoSaved snap) \<longleftrightarrow> counts_agree snap"
| "phase_ok cfg t (Finished snap) \<longleftrightarrow> counts_agree snap"
| "phase_ok cfg t (Failed e) \<longleftrightarrow> True"

lemma phase_ok_later: "phase_ok cfg t p \<Longrightarrow> t \<le> t' \<Longrightarrow> phase_ok cfg t' p"
  by (cases p) (auto intro: store_ok_later)

lemma kv_phase_cases:
  assumes "kv_phase io op kv n next = Some st"
  obtains (rejected) e where "st = (Failed e, kv, n)" | (went) "st = next"
  using assms by (cases "w_kv io op") (auto simp: kv_phase_def)

lemma store_wf: "store_ok cfg t store \<Longrightarrow> obj_wf store"
  by (simp add: store_ok_def all_peers_def)

text \<open>A step preserves the invariant of the namespace and of the run.\<close>

lemma run_step_ok:
  assumes "run_step io cfg view (p, kv, n) = Some (p', kv', n')" "phase_ok cfg t p" "kv_ok cfg t view" "kv_ok cfg t kv"
    "t \<le> t'" "\<And>store. p = Crawling store \<Longrightarrow> t \<le> w_now_crawl io \<and> w_now_crawl io \<le> t'"
  shows "phase_ok cfg t' p' \<and> kv_ok cfg t' kv'"
proof (cases p)
  case Started
  have "store_ok cfg t (nullish (kvGetJson (kv_peers view)) [])"
    using assms(3) by (cases "kvGetJson (kv_peers view)") (auto simp: kv_ok_def)
  then show ?thesis
    using assms(1,4,5) Started kv_ok_later store_ok_later by (auto elim!: kv_phase_cases)
next
  case (Crawling store)
  let ?now = "w_now_crawl io"
  have now: "t \<le> ?now" "?now \<le> t'" using assms(6) Crawling by auto
  have ok: "store_ok cfg ?now store" using assms(2) Crawling now(1) store_ok_later by auto
  have "store_ok cfg t' s" if "advanceCrawl None (w_dns io) (w_peers io) cfg ?now store n = Some (Inr s, m)" for s m
    using known.advanceCrawl_keeps [OF that] ok store_ok_later [OF _ now(2)] by (simp add: store_ok_def)
  then show ?thesis
    using assms(1) Crawling kv_ok_later [OF assms(4,5)] by (auto split: option.splits sum.splits)
next
  case (Crawled store)
  then have "kv_ok cfg t' (kv\<lparr>kv_peers := Holds (json_store store)\<rparr>)"
    using kv_ok_later [OF assms(4,5)] phase_ok_later [OF assms(2,5)] store_ok_json by (auto simp: kv_ok_def)
  then show ?thesis
    using assms(1) Crawled kv_ok_later [OF assms(4,5)] phase_ok_later [OF assms(2,5)] by (auto elim!: kv_phase_cases)
next
  case (Saved store)
  then show ?thesis
    using assms(1,3) kv_ok_later [OF assms(4,5)] phase_ok_later [OF assms(2,5)]
    by (auto simp: kv_ok_def Let_def elim!: kv_phase_cases split: bool.splits option.splits)
next
  case (Rebuilding store)
  obtain snap cache' m where rb: "rebuildSnapshot (w_geo io) cfg (w_now_snapshot io) (w_now_geo io)
      (w_now_generated io) store (nullish (kvGetJson (kv_geo view)) []) n = ((snap, cache'), m)"
    by (metis surj_pair)
  have "obj_wf (nullish (kvGetJson (kv_geo view)) [])"
    using assms(3) by (cases "kvGetJson (kv_geo view)") (auto simp: kv_ok_def)
  moreover have "obj_wf store" using assms(2) Rebuilding store_wf by simp
  ultimately have "counts_agree snap" "obj_wf cache'"
    using rebuildSnapshot_counts [OF rb] rebuildSnapshot_wf [OF rb] by simp_all
  then show ?thesis
    using assms(1) Rebuilding rb kv_ok_later [OF assms(4,5)] by (auto elim!: kv_phase_cases)
next
  case (Rebuilt snap cache)
  then have "kv_ok cfg t' (kv\<lparr>kv_geo := Holds (json_cache cache)\<rparr>)"
    using kv_ok_later [OF assms(4,5)] assms(2) obj_wf_json_cache by (auto simp: kv_ok_def)
  then show ?thesis
    using assms(1,2) Rebuilt kv_ok_later [OF assms(4,5)] by (auto elim!: kv_phase_cases)
next
  case (GeoSaved snap)
  then have "kv_ok cfg t' (kv\<lparr>kv_snapshot := Holds (json_snapshot snap)\<rparr>)"
    using kv_ok_later [OF assms(4,5)] assms(2) counts_agree_json by (auto simp: kv_ok_def)
  then show ?thesis
    using assms(1,2) GeoSaved kv_ok_later [OF assms(4,5)] by (auto elim!: kv_phase_cases)
qed (use assms(1) in simp_all)

lemma overlapped_nonempty: "overlapped env t hist runs \<Longrightarrow> hist \<noteq> []"
  by (induction rule: overlapped.induct) simp_all

lemma overlapped_ok:
  "overlapped env t hist runs \<Longrightarrow>
     (\<forall>kv \<in> set hist. kv_ok (loadConfig env) t kv) \<and> (\<forall>(io, p, n) \<in> set runs. phase_ok (loadConfig env) t p)"
proof (induction rule: overlapped.induct)
  case (empty t)
  show ?case by (simp add: kv_ok_def empty_kv_def kvGetJson_def)
next
  case (begin_run t hist runs io n)
  then show ?case by auto
next
  case (step t hist runs i io p n view p' kv' n' t')
  have hd: "hd hist \<in> set hist" using overlapped_nonempty [OF step.hyps(1)] by simp
  have "(io, p, n) \<in> set runs" using step.hyps(2,3) nth_mem by metis
  then have p: "phase_ok (loadConfig env) t p" using step.IH by auto
  have new: "phase_ok (loadConfig env) t' p' \<and> kv_ok (loadConfig env) t' kv'"
    using run_step_ok [OF step.hyps(5) p _ _ step.hyps(6,7)] step.IH step.hyps(4) hd by blast
  have "phase_ok (loadConfig env) t' q" if "(jo, q, m) \<in> set (runs[i := (io, p', n')])" for jo q m
    using set_update_subset_insert [of runs i "(io, p', n')"] that new step.IH phase_ok_later [OF _ step.hyps(6)]
    by blast
  then show ?case using new step.IH kv_ok_later [OF _ step.hyps(6)] by auto
qed

section \<open>Lost rounds\<close>

text \<open>Runs that take steps in a given order, each reading what was written last.\<close>

fun interleave :: "config \<Rightarrow> nat list \<Rightarrow> running list \<times> kv \<Rightarrow> (running list \<times> kv) option" where
  "interleave cfg [] st = Some st"
| "interleave cfg (i # is) (runs, kv) =
     (if i < length runs then
        (case runs ! i of (io, p, n) \<Rightarrow>
           case run_step io cfg kv (p, kv, n) of
             None \<Rightarrow> None
           | Some (p', kv', n') \<Rightarrow> interleave cfg is (runs[i := (io, p', n')], kv'))
      else None)"

section \<open>Sample runs\<close>

text \<open>Two runs without visits: the seeder tells one of them two addresses and the other none.\<close>

definition idle_config :: config where
  "idle_config = sample_config\<lparr>maxPeersPerRun := jint 0\<rparr>"

definition silent_dns :: dns_io where
  "silent_dns = \<lparr>dns_reply = (\<lambda>n url. Inr \<lparr>h_ok = False, h_json = Inr \<lparr>Answer = None\<rparr>\<rparr>), dns_second_first = (\<lambda>_. False)\<rparr>"

definition silent_worker :: worker_io where
  "silent_worker = sample_worker\<lparr>w_dns := silent_dns\<rparr>"

lemma idle_candidates: "candidates idle_config store = []"
  by (simp add: candidates_def idle_config_def slice_to_jint)

lemma idle_crawl:
  assumes "sampleSeedIps dns [js ''a''] (jint 1) 0 = Some (Inr seeds, 2)"
  shows "\<exists>st. advanceCrawl None dns peers idle_config 1000 [] 0 = Some (Inr st, 2)
     \<and> (seeds = [] \<longrightarrow> st = []) \<and> (seeds = [[65], [66]] \<longrightarrow> obj_get st [65] \<noteq> None)"
proof -
  have c: "seedHosts idle_config = [js ''a'']" "extraSeedHosts idle_config = []" "dnsRounds idle_config = jint 1"
    by (simp_all add: idle_config_def sample_config_def)
  let ?healed = "heal_store (crawl_roots 1000 (new_Set seeds) [])"
  let ?st = "prune (stale_cutoff idle_config 1000) ?healed"
  have "advanceCrawl None dns peers idle_config 1000 [] 0 = Some (Inr ?st, 2)"
    by (simp add: advanceCrawl_def c assms resolveExtraSeedIps_def returnN_def idle_candidates Let_def del: js_simps)
  moreover have "?st = []" if "seeds = []"
    using that by (simp add: crawl_roots_def new_Set_def heal_store_def prune_def js_keys_def)
  moreover have "obj_get ?st [65] \<noteq> None" if s: "seeds = [[65], [66]]"
  proof -
    have h: "?healed = sample_roots"
      by (simp add: s sample_roots_def crawl_roots_def new_Set_def set_add_def note_root_def heal_store_def heal_record_def
          new_root_def truthy_str_def)
    show ?thesis
      by (simp add: h prune_get) (simp add: sample_roots_def is_stale_def stale_cutoff_def
          idle_config_def sample_config_def jmul_jint jsub_jint safe_int_def)
  qed
  ultimately show ?thesis by blast
qed

lemma silent_seeds: "sampleSeedIps silent_dns [js ''a''] (jint 1) 0 = Some (Inr [], 2)"
proof -
  have "collect_hosts silent_dns [js ''a''] [] 0 = (Inr [], 2)"
    using sample_hosts
    by (simp add: bindN_def returnN_def fetchSeedIpsOnce_def dohLookup_def silent_dns_def doh_records_def promise_all2_def
        new_Set_def)
  then show ?thesis
    unfolding sampleSeedIps_def
    by (subst sample_rounds.simps, subst sample_rounds.simps)
      (simp add: jadd_jint safe_int_def del: collect_hosts.simps js_simps)
qed

text \<open>Two runs that overlap, the second started before the first has written.\<close>

lemma step_latest:
  assumes "overlapped env t (kv # hist) runs" "i < length runs" "runs ! i = (io, p, n)"
    "run_step io (loadConfig env) kv (p, kv, n) = Some (p', kv', n')" "w_now_crawl io = t"
  shows "overlapped env t (kv' # kv # hist) (runs[i := (io, p', n')])"
  by (rule overlapped.step [OF assms(1-3) _ _ order_refl, of kv]) (use assms(4,5) in simp_all)

lemma quiet_overlap:
  "\<exists>hist snap. overlapped quiet_env 1000 hist [(sample_worker, Finished snap, 0), (sample_worker, Crawling [], 0)]
     \<and> hist \<noteq> []"
proof -
  let ?cfg = "loadConfig quiet_env" and ?w = sample_worker
  have now: "w_now_crawl ?w = 1000" by (simp add: sample_worker_def)
  have k: "kv_phase ?w op kv n next = Some next" for op kv n "next" by (simp add: kv_phase_def sample_worker_def)
  obtain snap cache where rb: "rebuildSnapshot (w_geo ?w) ?cfg (w_now_snapshot ?w) (w_now_geo ?w) (w_now_generated ?w)
      [] [] 0 = ((snap, cache), 0)"
    by (simp add: rebuildSnapshot_def resolveGeo_def geoable_keys_def js_entries_def)
  let ?kv1 = "empty_kv\<lparr>kv_peers := Holds (json_store [])\<rparr>"
  let ?kv2 = "?kv1\<lparr>kv_geo := Holds (json_cache cache)\<rparr>"
  let ?kv3 = "?kv2\<lparr>kv_snapshot := Holds (json_snapshot snap)\<rparr>"
  have e: "kvGetJson (kv_peers empty_kv) = None" "kvGetJson (kv_snapshot empty_kv) = None" "kvGetJson (kv_geo empty_kv) = None"
    by (simp_all add: empty_kv_def kvGetJson_def)
  have step0: "overlapped quiet_env 1000 (kv' # kv # hist) [(?w, p', 0), r]"
    if "overlapped quiet_env 1000 (kv # hist) [(?w, p, 0), r]" "run_step ?w ?cfg kv (p, kv, 0) = Some (p', kv', 0)"
    for kv hist p r p' kv' using step_latest [OF that(1), of 0] that(2) now by simp
  have step1: "overlapped quiet_env 1000 (kv' # kv # hist) [r, (?w, p', 0)]"
    if "overlapped quiet_env 1000 (kv # hist) [r, (?w, p, 0)]" "run_step ?w ?cfg kv (p, kv, 0) = Some (p', kv', 0)"
    for kv hist p r p' kv' using step_latest [OF that(1), of 1] that(2) now by simp
  have "overlapped quiet_env 1000 [empty_kv] [(?w, Started, 0), (?w, Started, 0)]"
    using overlapped.begin_run [OF overlapped.begin_run [OF overlapped.empty]] by simp
  from step0 [OF this, where p' = "Crawling []" and kv' = empty_kv]
  have "overlapped quiet_env 1000 [empty_kv, empty_kv] [(?w, Crawling [], 0), (?w, Started, 0)]"
    by (simp add: k e)
  from step1 [OF this, where p' = "Crawling []" and kv' = empty_kv]
  have "overlapped quiet_env 1000 [empty_kv, empty_kv, empty_kv] [(?w, Crawling [], 0), (?w, Crawling [], 0)]"
    by (simp add: k e)
  from step0 [OF this, where p' = "Crawled []" and kv' = empty_kv]
  have "overlapped quiet_env 1000 [empty_kv, empty_kv, empty_kv, empty_kv] [(?w, Crawled [], 0), (?w, Crawling [], 0)]"
    by (simp add: quiet_crawl)
  from step0 [OF this, where p' = "Saved []" and kv' = ?kv1]
  have "overlapped quiet_env 1000 [?kv1, empty_kv, empty_kv, empty_kv, empty_kv] [(?w, Saved [], 0), (?w, Crawling [], 0)]"
    by (simp add: k)
  from step0 [OF this, where p' = "Rebuilding []" and kv' = ?kv1]
  have "overlapped quiet_env 1000 [?kv1, ?kv1, empty_kv, empty_kv, empty_kv, empty_kv] [(?w, Rebuilding [], 0), (?w, Crawling [], 0)]"
    by (simp add: k e isStale_def)
  from step0 [OF this, where p' = "Rebuilt snap cache" and kv' = ?kv1]
  have "overlapped quiet_env 1000 [?kv1, ?kv1, ?kv1, empty_kv, empty_kv, empty_kv, empty_kv]
      [(?w, Rebuilt snap cache, 0), (?w, Crawling [], 0)]"
    by (simp add: k e rb)
  from step0 [OF this, where p' = "GeoSaved snap" and kv' = ?kv2]
  have "overlapped quiet_env 1000 [?kv2, ?kv1, ?kv1, ?kv1, empty_kv, empty_kv, empty_kv, empty_kv]
      [(?w, GeoSaved snap, 0), (?w, Crawling [], 0)]"
    by (simp add: k)
  from step0 [OF this, where p' = "Finished snap" and kv' = ?kv3]
  show ?thesis by (simp add: k) blast
qed

section \<open>Properties\<close>

text \<open>C1. Overlapping runs keep what is stored and served consistent: whatever the order in which the
  steps of any number of runs interleave, whatever the network does, and even when reads of the
  namespace are stale, every snapshot a visitor or an authorised request is served has counts
  that agree with its nodes, and every stored peer satisfies the invariant of the store.\<close>

theorem overlapping_runs_consistent:
  assumes "overlapped env t hist runs" "view \<in> set hist"
  shows "(\<forall>io req n reply kv' n' snap. \<not> authorised env req \<longrightarrow>
        fetch_handler io env req view n = Some (Inr reply, kv', n') \<longrightarrow> rs_body reply = JsonSnapshot snap \<longrightarrow>
        counts_agree snap)
     \<and> (\<forall>io n snap. (io, Finished snap, n) \<in> set runs \<longrightarrow> counts_agree (json_snapshot snap))
     \<and> (\<forall>store k r. kvGetJson (kv_peers view) = Some store \<longrightarrow> obj_get store k = Some r \<longrightarrow>
          peer_ok (loadConfig env) t k r)"
proof (intro conjI allI impI)
  have ok: "kv_ok (loadConfig env) t view" using overlapped_ok [OF assms(1)] assms(2) by blast
  show "counts_agree snap"
    if "\<not> authorised env req" "fetch_handler io env req view n = Some (Inr reply, kv', n')"
      "rs_body reply = JsonSnapshot snap" for io req n reply kv' n' snap
    using fetch_plain [OF that(1), of io view n] that(2,3) ok counts_agree_json by (auto simp: kv_ok_def)
  show "counts_agree (json_snapshot snap)" if "(io, Finished snap, n) \<in> set runs" for io n snap
    using overlapped_ok [OF assms(1)] that counts_agree_json by fastforce
  show "peer_ok (loadConfig env) t k r"
    if "kvGetJson (kv_peers view) = Some store" "obj_get store k = Some r" for store k r
    using ok that by (auto simp: kv_ok_def store_ok_def all_peers_def)
qed

theorem overlapping_runs_consistent_witness:
  "\<exists>hist snap. overlapped quiet_env 1000 hist [(sample_worker, Finished snap, 0), (sample_worker, Crawling [], 0)]
     \<and> counts_agree (json_snapshot snap)"
proof -
  obtain hist snap where o: "overlapped quiet_env 1000 hist [(sample_worker, Finished snap, 0), (sample_worker, Crawling [], 0)]"
    "hist \<noteq> []" using quiet_overlap by blast
  then have "hd hist \<in> set hist" by simp
  from overlapping_runs_consistent [OF o(1) this] o(1) show ?thesis by auto
qed



end
