(* ===== verification/Faucet.thy ===== *)
theory Faucet
  imports Js_Object
begin

text \<open>
  The faucet server (\<open>contrib/faucet/server.js\<close>): configuration, the claims file, the two
  cooldown checks, the daily limit, the RPC helper, and the claim and stats handlers.

  Times are the integers \<open>Date.now()\<close> returns; differences of them are exact in doubles. Amounts
  and the configured numbers are doubles (\<open>jsnum\<close>). The JSON file holds the list of claims, with
  \<open>null\<close> (\<open>None\<close>) for an amount that JSON cannot write; a file that holds other valid JSON,
  which the server never writes, is outside the model. The claim handler is cut at its
  only \<open>await\<close>: \<open>claim_check\<close> runs up to the wallet call, \<open>claim_finish\<close> after it, so that
  requests interleave exactly there. The HTTP client is a parameter: what it delivers. The
  cooldown argument is made once, in the locale \<open>claim_key\<close>, and used for addresses and for IPs.
\<close>

section \<open>Configuration\<close>

definition js_or :: "jsstr option \<Rightarrow> jsstr \<Rightarrow> jsstr" where
  \<comment> \<open>\<open>s || dflt\<close> for a string that may be undefined\<close>
  "js_or s dflt = (case s of Some t \<Rightarrow> if t \<noteq> [] then t else dflt | None \<Rightarrow> dflt)"

record faucet_config =
  FAUCET_PAYOUT :: jsnum
  COOLDOWN_HOURS :: jsnum
  DAILY_LIMIT :: jsnum

definition read_config :: "(jsstr \<Rightarrow> jsstr option) \<Rightarrow> faucet_config" where
  "read_config env =
     \<lparr>FAUCET_PAYOUT = parseFloat (js_or (env (js ''FAUCET_PAYOUT'')) (js ''0.1'')),
      COOLDOWN_HOURS = (case parseInt (js_or (env (js ''COOLDOWN_HOURS'')) (js ''24'')) 10 of
                          Some n \<Rightarrow> jint n | None \<Rightarrow> NaN),
      DAILY_LIMIT = parseFloat (js_or (env (js ''DAILY_LIMIT'')) (js ''1000''))\<rparr>"

definition cooldownMs :: "faucet_config \<Rightarrow> jsnum" where
  "cooldownMs cfg = jmul (jmul (jmul (COOLDOWN_HOURS cfg) (jint 60)) (jint 60)) (jint 1000)"

section \<open>The claims file\<close>

record claim =
  c_address :: jsstr
  c_ip :: jsstr
  c_amount :: "jsnum option"
  c_txid :: jsstr
  c_claimed_at :: int

datatype db_file = NoFile | Garbage | Db "claim list"

definition json_claim :: "claim \<Rightarrow> claim" where
  "json_claim c = c\<lparr>c_amount := json_number (c_amount c)\<rparr>"

definition loadDb :: "db_file \<Rightarrow> claim list" where
  "loadDb f = (case f of NoFile \<Rightarrow> [] | Garbage \<Rightarrow> [] | Db cs \<Rightarrow> cs)"

text \<open>Writing succeeds (\<open>None\<close>) or throws and leaves some file behind.\<close>

definition saveDb :: "claim list \<Rightarrow> db_file option \<Rightarrow> db_file \<times> bool" where
  "saveDb cs fault = (case fault of None \<Rightarrow> (Db (map json_claim cs), True) | Some f \<Rightarrow> (f, False))"

definition newest_first :: "claim \<Rightarrow> claim \<Rightarrow> int" where
  "newest_first a b = c_claimed_at b - c_claimed_at a"

definition lastClaimByAddress :: "db_file \<Rightarrow> jsstr \<Rightarrow> claim option" where
  "lastClaimByAddress f address =
     (let found = filter (\<lambda>c. c_address c = address) (loadDb f)
      in if found = [] then None else Some (js_sort newest_first found ! 0))"

definition lastClaimByIp :: "db_file \<Rightarrow> jsstr \<Rightarrow> claim option" where
  "lastClaimByIp f ip =
     (let found = filter (\<lambda>c. c_ip c = ip) (loadDb f)
      in if found = [] then None else Some (js_sort newest_first found ! 0))"

definition number_of_json :: "jsnum option \<Rightarrow> jsnum" where
  \<comment> \<open>\<open>null\<close> counts as 0 in an addition\<close>
  "number_of_json a = (case a of None \<Rightarrow> Fin 0 | Some n \<Rightarrow> n)"

definition dailyTotal :: "db_file \<Rightarrow> int \<Rightarrow> jsnum" where
  "dailyTotal f now =
     (let dayAgo = now - 24 * 60 * 60 * 1000
      in foldl (\<lambda>sum c. jadd sum (number_of_json (c_amount c))) (jint 0)
           (filter (\<lambda>c. c_claimed_at c > dayAgo) (loadDb f)))"

definition addClaim :: "db_file \<Rightarrow> claim \<Rightarrow> db_file option \<Rightarrow> db_file \<times> bool" where
  "addClaim f c fault = saveDb (loadDb f @ [c]) fault"

section \<open>Requests\<close>

definition alnum :: "nat \<Rightarrow> bool" where
  "alnum c \<longleftrightarrow> (48 \<le> c \<and> c \<le> 57) \<or> (65 \<le> c \<and> c \<le> 90) \<or> (97 \<le> c \<and> c \<le> 122)"

text \<open>\<open>/^P[a-zA-Z0-9]{25,62}$/\<close> for a literal prefix \<open>P\<close>\<close>

definition match_shape :: "jsstr \<Rightarrow> jsstr \<Rightarrow> bool" where
  "match_shape pre s \<longleftrightarrow>
     take (length pre) s = pre
     \<and> list_all alnum (drop (length pre) s)
     \<and> 25 \<le> length s - length pre \<and> length s - length pre \<le> 62"

definition isValidAddress :: "jsstr option \<Rightarrow> bool" where
  \<comment> \<open>\<open>None\<close>: absent or not a string\<close>
  "isValidAddress addr =
     (case addr of
        None \<Rightarrow> False
      | Some s \<Rightarrow>
          if s = [] then False
          else (match_shape (js ''1'') s \<or> match_shape (js ''3'') s \<or> match_shape (js ''bc1'') s)
               \<or> (match_shape (js ''E'') s \<or> match_shape (js ''e'') s))"

record request =
  q_address :: "jsstr option"
  q_forwarded :: "jsstr option"
  q_remote :: "jsstr option"

definition client_ip :: "request \<Rightarrow> jsstr" where
  "client_ip q = js_or (q_forwarded q) (js_or (q_remote q) (js ''unknown''))"

datatype response =
    InvalidAddress
  | AddressWait jsnum
  | IpWait jsnum
  | LimitReached
  | WalletFailed
  | Success jsstr jsnum

fun status :: "response \<Rightarrow> nat" where
  "status InvalidAddress = 400"
| "status (AddressWait _) = 429"
| "status (IpWait _) = 429"
| "status LimitReached = 429"
| "status WalletFailed = 500"
| "status (Success _ _) = 200"

definition wait_minutes :: "faucet_config \<Rightarrow> claim \<Rightarrow> int \<Rightarrow> jsnum" where
  "wait_minutes cfg row now =
     jceil (jdivc (jsub (jadd (jint (c_claimed_at row)) (cooldownMs cfg)) (jint now)) 60000)"

text \<open>\<open>row && now - row.claimed_at < cooldownMs\<close>, with the waiting time then reported\<close>

definition cooling :: "faucet_config \<Rightarrow> claim option \<Rightarrow> int \<Rightarrow> jsnum option" where
  "cooling cfg row now =
     (case row of
        None \<Rightarrow> None
      | Some r \<Rightarrow> if jlt (jint (now - c_claimed_at r)) (cooldownMs cfg)
                 then Some (wait_minutes cfg r now) else None)"

text \<open>
  The handler up to the wallet call: a response, or the address and IP to pay for. \<open>now\<close> is
  the handler's own reading of the clock, \<open>now2\<close> the later one inside \<open>dailyTotal\<close>.
\<close>

definition claim_check ::
    "faucet_config \<Rightarrow> int \<Rightarrow> int \<Rightarrow> db_file \<Rightarrow> request \<Rightarrow> response + (jsstr \<times> jsstr)" where
  "claim_check cfg now now2 f q =
     (let ip = client_ip q
      in case q_address q of
           None \<Rightarrow> Inl InvalidAddress
         | Some address \<Rightarrow>
             if \<not> isValidAddress (Some address) then Inl InvalidAddress
             else (case cooling cfg (lastClaimByAddress f address) now of
                     Some wait \<Rightarrow> Inl (AddressWait wait)
                   | None \<Rightarrow>
                       (case cooling cfg (lastClaimByIp f ip) now of
                          Some wait \<Rightarrow> Inl (IpWait wait)
                        | None \<Rightarrow>
                            if jge (dailyTotal f now2) (DAILY_LIMIT cfg) then Inl LimitReached
                            else Inr (address, ip))))"

section \<open>The wallet call and what follows it\<close>

text \<open>What the HTTP client delivers: an exception, or the members \<open>error\<close> and \<open>result\<close>.\<close>

type_synonym rpc_reply = "(jsstr option \<times> jsstr) res"

definition rpcCall :: "rpc_reply \<Rightarrow> jsstr res" where
  "rpcCall reply =
     bindE reply (\<lambda>(err, result). case err of Some message \<Rightarrow> Inl (Error message) | None \<Rightarrow> Inr result)"

definition claim_finish ::
    "faucet_config \<Rightarrow> db_file \<Rightarrow> jsstr \<Rightarrow> jsstr \<Rightarrow> int \<Rightarrow> rpc_reply \<Rightarrow> db_file option \<Rightarrow> response \<times> db_file" where
  "claim_finish cfg f address ip now reply fault =
     (case rpcCall reply of
        Inl _ \<Rightarrow> (WalletFailed, f)
      | Inr txid \<Rightarrow>
          (let (f', ok) = addClaim f \<lparr>c_address = address, c_ip = ip, c_amount = Some (FAUCET_PAYOUT cfg),
                                      c_txid = txid, c_claimed_at = now\<rparr> fault
           in (if ok then Success txid (FAUCET_PAYOUT cfg) else WalletFailed, f')))"

record stats =
  s_dailyLimit :: jsnum
  s_dailyUsed :: jsnum
  s_payout :: jsnum
  s_cooldownHours :: jsnum

definition stats_handler :: "faucet_config \<Rightarrow> int \<Rightarrow> db_file \<Rightarrow> stats" where
  "stats_handler cfg now f =
     \<lparr>s_dailyLimit = DAILY_LIMIT cfg, s_dailyUsed = dailyTotal f now, s_payout = FAUCET_PAYOUT cfg,
      s_cooldownHours = COOLDOWN_HOURS cfg\<rparr>"

section \<open>The server over time\<close>

text \<open>
  Requests waiting for the wallet, and the payouts the wallet has confirmed (which the server
  itself does not see other than through its file). A call that fails counts as no payout, although
  a wallet may have sent the coins before the connection was lost.
\<close>

record pend =
  p_request :: request
  p_address :: jsstr
  p_ip :: jsstr
  p_started :: int
  p_checked :: int

record faucet =
  f_file :: db_file
  f_clock :: int
  f_pending :: "pend list"
  f_paid :: "(request \<times> claim) list"

definition faucet0 :: "db_file \<Rightarrow> int \<Rightarrow> faucet" where
  "faucet0 f t = \<lparr>f_file = f, f_clock = t, f_pending = [], f_paid = []\<rparr>"

definition begin_claim :: "faucet_config \<Rightarrow> int \<Rightarrow> int \<Rightarrow> request \<Rightarrow> faucet \<Rightarrow> faucet" where
  "begin_claim cfg now now2 q s =
     (case claim_check cfg now now2 (f_file s) q of
        Inl _ \<Rightarrow> s\<lparr>f_clock := now2\<rparr>
      | Inr (address, ip) \<Rightarrow>
          s\<lparr>f_clock := now2,
            f_pending := f_pending s @ [\<lparr>p_request = q, p_address = address, p_ip = ip,
                                         p_started = now, p_checked = now2\<rparr>]\<rparr>)"

definition payment :: "faucet_config \<Rightarrow> pend \<Rightarrow> jsstr \<Rightarrow> int \<Rightarrow> claim" where
  "payment cfg p txid now =
     \<lparr>c_address = p_address p, c_ip = p_ip p, c_amount = Some (FAUCET_PAYOUT cfg), c_txid = txid,
      c_claimed_at = now\<rparr>"

definition settle_claim ::
    "faucet_config \<Rightarrow> int \<Rightarrow> pend \<Rightarrow> rpc_reply \<Rightarrow> db_file option \<Rightarrow> faucet \<Rightarrow> faucet" where
  "settle_claim cfg now p reply fault s =
     s\<lparr>f_clock := now, f_pending := remove1 p (f_pending s),
       f_file := snd (claim_finish cfg (f_file s) (p_address p) (p_ip p) now reply fault),
       f_paid := (case rpcCall reply of
                    Inl _ \<Rightarrow> f_paid s
                  | Inr txid \<Rightarrow> f_paid s @ [(p_request p, payment cfg p txid now)])\<rparr>"

text \<open>
  The runs of the server. \<open>admit\<close> restricts when a request may start (the rate limiter, or the
  assumption of a theorem), \<open>durable\<close> asks that the file can be written.
\<close>

inductive faucet_run :: "faucet_config \<Rightarrow> (faucet \<Rightarrow> request \<Rightarrow> bool) \<Rightarrow> bool \<Rightarrow> faucet \<Rightarrow> bool"
  for cfg admit durable where
  start: "loadDb f = [] \<Longrightarrow> faucet_run cfg admit durable (faucet0 f t)"
| request: "faucet_run cfg admit durable s \<Longrightarrow> admit s q \<Longrightarrow> f_clock s \<le> now \<Longrightarrow> now \<le> now2 \<Longrightarrow>
     faucet_run cfg admit durable (begin_claim cfg now now2 q s)"
| settle: "faucet_run cfg admit durable s \<Longrightarrow> p \<in> set (f_pending s) \<Longrightarrow> f_clock s \<le> now \<Longrightarrow>
     (durable \<Longrightarrow> fault = None) \<Longrightarrow> faucet_run cfg admit durable (settle_claim cfg now p reply fault s)"

text \<open>No other request for the same address or from the same IP is waiting for the wallet.\<close>

definition no_rival :: "faucet \<Rightarrow> request \<Rightarrow> bool" where
  "no_rival s q \<longleftrightarrow> (\<forall>p \<in> set (f_pending s). Some (p_address p) \<noteq> q_address q \<and> p_ip p \<noteq> client_ip q)"

definition idle :: "faucet \<Rightarrow> request \<Rightarrow> bool" where
  "idle s q \<longleftrightarrow> f_pending s = []"

section \<open>The newest claim\<close>

interpretation newest: comparison newest_first "\<lambda>_. True"
  by unfold_locales (auto simp: newest_first_def)

lemma newest_in_found:
  assumes "found \<noteq> []"
  shows "js_sort newest_first found ! 0 \<in> set found"
    and "c \<in> set found \<Longrightarrow> c_claimed_at c \<le> c_claimed_at (js_sort newest_first found ! 0)"
proof -
  have ne: "js_sort newest_first found \<noteq> []"
    using assms by (metis length_0_conv length_js_sort)
  then have h: "js_sort newest_first found ! 0 = hd (js_sort newest_first found)"
    by (simp add: hd_conv_nth)
  then show "js_sort newest_first found ! 0 \<in> set found"
    using ne hd_in_set [OF ne] by simp
  show "c \<in> set found \<Longrightarrow> c_claimed_at c \<le> c_claimed_at (js_sort newest_first found ! 0)"
    using newest.hd_js_sort_least [of c found] h by (simp add: newest_first_def)
qed

lemma not_jlt_mono: "\<not> jlt (jint a) x \<Longrightarrow> a \<le> b \<Longrightarrow> \<not> jlt (jint b) x"
  by (cases x) (auto simp: jint_def)

lemma cooling_found:
  assumes "cooling cfg (if found = [] then None else Some (js_sort newest_first found ! 0)) now = None"
    "c \<in> set found"
  shows "\<not> jlt (jint (now - c_claimed_at c)) (cooldownMs cfg)"
proof -
  have ne: "found \<noteq> []" using assms(2) by auto
  then have "\<not> jlt (jint (now - c_claimed_at (js_sort newest_first found ! 0))) (cooldownMs cfg)"
    using assms(1) by (simp add: cooling_def split: if_splits)
  then show ?thesis
    by (rule not_jlt_mono) (use newest_in_found(2) [OF ne assms(2)] in simp)
qed

lemma cooling_address:
  "cooling cfg (lastClaimByAddress f a) now = None \<Longrightarrow> c \<in> set (loadDb f) \<Longrightarrow> c_address c = a \<Longrightarrow>
   \<not> jlt (jint (now - c_claimed_at c)) (cooldownMs cfg)"
  unfolding lastClaimByAddress_def Let_def by (erule cooling_found) simp

lemma cooling_ip:
  "cooling cfg (lastClaimByIp f i) now = None \<Longrightarrow> c \<in> set (loadDb f) \<Longrightarrow> c_ip c = i \<Longrightarrow>
   \<not> jlt (jint (now - c_claimed_at c)) (cooldownMs cfg)"
  unfolding lastClaimByIp_def Let_def by (erule cooling_found) simp

lemma json_claim_idem [simp]: "json_claim (json_claim c) = json_claim c"
  by (cases "c_amount c" rule: json_number.cases) (simp_all add: json_claim_def)

lemma json_claim_at [simp]: "c_claimed_at (json_claim c) = c_claimed_at c"
  by (simp add: json_claim_def)

lemma claim_check_InrE:
  assumes "claim_check cfg now now2 f q = Inr (a, ip)"
  shows "q_address q = Some a" "ip = client_ip q" "isValidAddress (Some a)"
    "cooling cfg (lastClaimByAddress f a) now = None" "cooling cfg (lastClaimByIp f ip) now = None"
    "\<not> jge (dailyTotal f now2) (DAILY_LIMIT cfg)"
  using assms by (auto simp: claim_check_def Let_def split: option.splits if_splits)

section \<open>Cooldowns, for either key\<close>

abbreviation mk_pend :: "request \<Rightarrow> jsstr \<Rightarrow> jsstr \<Rightarrow> int \<Rightarrow> int \<Rightarrow> pend" where
  "mk_pend q a ip now now2 \<equiv>
     \<lparr>p_request = q, p_address = a, p_ip = ip, p_started = now, p_checked = now2\<rparr>"

definition claims :: "faucet \<Rightarrow> claim list" where
  "claims s = map snd (f_paid s)"

text \<open>Claims with equal keys are at least the cooldown apart.\<close>

definition spaced :: "faucet_config \<Rightarrow> (claim \<Rightarrow> jsstr) \<Rightarrow> claim list \<Rightarrow> bool" where
  "spaced cfg key cs \<longleftrightarrow>
     sorted_wrt (\<lambda>c d. key c = key d \<longrightarrow> \<not> jlt (jint (c_claimed_at d - c_claimed_at c)) (cooldownMs cfg)) cs"

definition settled_for :: "faucet_config \<Rightarrow> (claim \<Rightarrow> jsstr) \<Rightarrow> claim list \<Rightarrow> jsstr \<Rightarrow> int \<Rightarrow> bool" where
  "settled_for cfg ckey cs k t \<longleftrightarrow>
     (\<forall>c \<in> set cs. ckey c = k \<longrightarrow> \<not> jlt (jint (t - c_claimed_at c)) (cooldownMs cfg))"

definition key_inv :: "faucet_config \<Rightarrow> (claim \<Rightarrow> jsstr) \<Rightarrow> (pend \<Rightarrow> jsstr) \<Rightarrow> faucet \<Rightarrow> bool" where
  "key_inv cfg ckey pkey s \<longleftrightarrow>
     loadDb (f_file s) = map json_claim (claims s)
     \<and> spaced cfg ckey (claims s)
     \<and> (\<forall>p \<in> set (f_pending s). p_started p \<le> f_clock s \<and> settled_for cfg ckey (claims s) (pkey p) (p_started p))
     \<and> distinct (map pkey (f_pending s))"

lemma settled_for_later: "settled_for cfg ckey cs k t \<Longrightarrow> t \<le> t' \<Longrightarrow> settled_for cfg ckey cs k t'"
  unfolding settled_for_def by (meson diff_right_mono not_jlt_mono)

lemma settled_for_snoc:
  "settled_for cfg ckey cs k t \<Longrightarrow> ckey c \<noteq> k \<Longrightarrow> settled_for cfg ckey (cs @ [c]) k t"
  by (auto simp: settled_for_def)

lemma spaced_snoc:
  "spaced cfg ckey cs \<Longrightarrow> settled_for cfg ckey cs (ckey c) (c_claimed_at c) \<Longrightarrow> spaced cfg ckey (cs @ [c])"
  by (auto simp: spaced_def settled_for_def sorted_wrt_append)

text \<open>
  What makes a member of a claim a cooldown key: it is stored with the payment, survives the
  file, is what the handler checks, and tells waiting requests apart when rivals are kept out.
\<close>

locale claim_key =
  fixes ckey :: "claim \<Rightarrow> jsstr" and pkey :: "pend \<Rightarrow> jsstr"
  assumes payment_key: "ckey (payment cfg p txid now) = pkey p"
    and json_key: "ckey (json_claim c) = ckey c"
    and checked: "claim_check cfg now now2 f q = Inr (a, ip) \<Longrightarrow> c \<in> set (loadDb f) \<Longrightarrow>
      ckey c = pkey (mk_pend q a ip now now2) \<Longrightarrow> \<not> jlt (jint (now - c_claimed_at c)) (cooldownMs cfg)"
    and apart: "claim_check cfg now now2 f q = Inr (a, ip) \<Longrightarrow> no_rival s q \<Longrightarrow>
      p \<in> set (f_pending s) \<Longrightarrow> pkey p \<noteq> pkey (mk_pend q a ip now now2)"
begin

lemma begin_inv:
  assumes i: "key_inv cfg ckey pkey s" and r: "no_rival s q" and t: "f_clock s \<le> now" "now \<le> now2"
  shows "key_inv cfg ckey pkey (begin_claim cfg now now2 q s)"
proof (cases "claim_check cfg now now2 (f_file s) q")
  case (Inl resp)
  then have b: "begin_claim cfg now now2 q s = s\<lparr>f_clock := now2\<rparr>" by (simp add: begin_claim_def)
  have "\<forall>p \<in> set (f_pending s). p_started p \<le> now2" using i t by (force simp: key_inv_def)
  then show ?thesis using i by (simp add: b key_inv_def claims_def)
next
  case (Inr aip)
  obtain a ip where aip: "aip = (a, ip)" by (cases aip)
  let ?p = "mk_pend q a ip now now2"
  have b: "begin_claim cfg now now2 q s = s\<lparr>f_clock := now2, f_pending := f_pending s @ [?p]\<rparr>"
    using Inr aip by (simp add: begin_claim_def)
  have new: "settled_for cfg ckey (claims s) (pkey ?p) now"
    unfolding settled_for_def
  proof (intro ballI impI)
    fix c assume "c \<in> set (claims s)" "ckey c = pkey ?p"
    moreover then have "json_claim c \<in> set (loadDb (f_file s))" using i by (simp add: key_inv_def)
    ultimately show "\<not> jlt (jint (now - c_claimed_at c)) (cooldownMs cfg)"
      using checked [OF Inr [unfolded aip], of "json_claim c"] by (simp add: json_key)
  qed
  have "pkey ?p \<notin> pkey ` set (f_pending s)"
    using apart [OF Inr [unfolded aip] r] by (metis imageE)
  moreover have "\<forall>p \<in> set (f_pending s). p_started p \<le> now2" using i t by (force simp: key_inv_def)
  ultimately show ?thesis using i new t by (simp add: b key_inv_def claims_def)
qed

lemma settle_inv:
  assumes i: "key_inv cfg ckey pkey s" and p: "p \<in> set (f_pending s)" and t: "f_clock s \<le> now"
  shows "key_inv cfg ckey pkey (settle_claim cfg now p reply None s)" (is "key_inv _ _ _ ?s")
proof -
  have d: "distinct (map pkey (f_pending s))" using i by (simp add: key_inv_def)
  then have dp: "distinct (f_pending s)" by (simp add: distinct_map)
  have d': "distinct (map pkey (remove1 p (f_pending s)))"
    using d dp by (auto simp: distinct_map intro: inj_on_subset)
  have rest: "p' \<in> set (f_pending s) \<and> pkey p' \<noteq> pkey p" if "p' \<in> set (remove1 p (f_pending s))" for p'
    using that d p dp by (auto simp: distinct_map inj_on_def)
  have old: "p_started p' \<le> now \<and> settled_for cfg ckey (claims s) (pkey p') (p_started p')"
    if "p' \<in> set (f_pending s)" for p'
    using i t that by (force simp: key_inv_def)
  have pend: "f_pending ?s = remove1 p (f_pending s)" "f_clock ?s = now"
    by (simp_all add: settle_claim_def)
  show ?thesis
  proof (cases "rpcCall reply")
    case (Inl e)
    then have "claims ?s = claims s" "f_file ?s = f_file s"
      by (simp_all add: settle_claim_def claim_finish_def claims_def)
    then show ?thesis using i d' rest old pend by (simp add: key_inv_def)
  next
    case (Inr txid)
    let ?c = "payment cfg p txid now"
    have cs: "claims ?s = claims s @ [?c]" using Inr by (simp add: claims_def settle_claim_def)
    have dbf: "loadDb (f_file ?s) = map json_claim (claims s @ [?c])"
      using i Inr
      by (simp add: settle_claim_def claim_finish_def addClaim_def saveDb_def loadDb_def [of "Db _"]
          key_inv_def payment_def)
    have "settled_for cfg ckey (claims s) (ckey ?c) (c_claimed_at ?c)"
      using settled_for_later [of cfg ckey "claims s" "pkey p" "p_started p" now] old [OF p]
      by (simp add: payment_key) (simp add: payment_def)
    then have sp: "spaced cfg ckey (claims s @ [?c])"
      using i by (intro spaced_snoc) (simp_all add: key_inv_def)
    have "settled_for cfg ckey (claims s @ [?c]) (pkey p') (p_started p')"
      if "p' \<in> set (remove1 p (f_pending s))" for p'
      using rest [OF that] old [of p'] by (intro settled_for_snoc) (auto simp: payment_key)
    then show ?thesis using sp d' rest old cs dbf pend by (simp add: key_inv_def)
  qed
qed

lemma run_inv: "faucet_run cfg no_rival True s \<Longrightarrow> key_inv cfg ckey pkey s"
proof (induction rule: faucet_run.induct)
  case (start f t)
  then show ?case by (simp add: key_inv_def faucet0_def claims_def spaced_def)
next
  case (request s q now now2)
  then show ?case by (intro begin_inv) auto
next
  case (settle s p now fault reply)
  then show ?case using settle_inv by simp
qed

end

interpretation by_address: claim_key c_address p_address
proof
  fix cfg now now2 f q a ip c
  assume "claim_check cfg now now2 f q = Inr (a, ip)" "c \<in> set (loadDb f)"
    "c_address c = p_address (mk_pend q a ip now now2)"
  then show "\<not> jlt (jint (now - c_claimed_at c)) (cooldownMs cfg)"
    using cooling_address [OF claim_check_InrE(4)] by auto
next
  fix cfg now now2 f q a ip s p
  assume "claim_check cfg now now2 f q = Inr (a, ip)" "no_rival s q" "p \<in> set (f_pending s)"
  then show "p_address p \<noteq> p_address (mk_pend q a ip now now2)"
    using claim_check_InrE(1) by (auto simp: no_rival_def)
qed (simp_all add: payment_def json_claim_def)

interpretation by_ip: claim_key c_ip p_ip
proof
  fix cfg now now2 f q a ip c
  assume "claim_check cfg now now2 f q = Inr (a, ip)" "c \<in> set (loadDb f)"
    "c_ip c = p_ip (mk_pend q a ip now now2)"
  then show "\<not> jlt (jint (now - c_claimed_at c)) (cooldownMs cfg)"
    using cooling_ip [OF claim_check_InrE(5)] by auto
next
  fix cfg now now2 f q a ip s p
  assume "claim_check cfg now now2 f q = Inr (a, ip)" "no_rival s q" "p \<in> set (f_pending s)"
  then show "p_ip p \<noteq> p_ip (mk_pend q a ip now now2)"
    using claim_check_InrE(2) by (auto simp: no_rival_def)
qed (simp_all add: payment_def json_claim_def)

lemma cooldownMs_jint:
  assumes "COOLDOWN_HOURS cfg = jint h" "0 \<le> h" "h \<le> 1000000"
  shows "cooldownMs cfg = jint (3600000 * h)"
  using assms by (simp add: cooldownMs_def jmul_jint safe_int_def)

section \<open>The daily limit\<close>

definition recent :: "claim list \<Rightarrow> int \<Rightarrow> claim list" where
  "recent cs t = filter (\<lambda>c. c_claimed_at c > t - 24 * 60 * 60 * 1000) cs"

lemma recent_later: "t \<le> t' \<Longrightarrow> length (recent cs t') \<le> length (recent cs t)"
  unfolding recent_def by (induction cs) auto

lemma recent_snoc_self: "recent (cs @ [c]) (c_claimed_at c) = recent cs (c_claimed_at c) @ [c]"
  by (simp add: recent_def)

lemma sum_jint:
  assumes "list_all (\<lambda>c. number_of_json (c_amount c) = jint k) cs" "0 \<le> a" "0 \<le> k"
    "a + k * int (length cs) \<le> 2 ^ 53"
  shows "foldl (\<lambda>sum c. jadd sum (number_of_json (c_amount c))) (jint a) cs = jint (a + k * int (length cs))"
  using assms
proof (induction cs arbitrary: a)
  case (Cons c cs)
  have k: "0 \<le> k * int (length cs)" using Cons.prems(3) by simp
  have "k * int (length (c # cs)) = k + k * int (length cs)" by (simp add: algebra_simps)
  then have "a + k \<le> 2 ^ 53" using Cons.prems(4) k by linarith
  then have "safe_int (a + k)" using Cons.prems(2,3) by (simp add: safe_int_def)
  then have "jadd (jint a) (number_of_json (c_amount c)) = jint (a + k)"
    using Cons.prems(1) by (simp add: jadd_jint)
  then show ?case using Cons.IH [of "a + k"] Cons.prems by (simp add: algebra_simps)
qed simp

definition day_inv :: "int \<Rightarrow> int \<Rightarrow> faucet \<Rightarrow> bool" where
  "day_inv k L s \<longleftrightarrow>
     loadDb (f_file s) = map json_claim (claims s)
     \<and> (\<forall>c \<in> set (claims s). c_amount c = Some (jint k) \<and> c_claimed_at c \<le> f_clock s)
     \<and> (\<forall>j < length (claims s).
          k * int (length (recent (take (Suc j) (claims s)) (c_claimed_at (claims s ! j)))) < L + k)
     \<and> length (f_pending s) \<le> 1
     \<and> (\<forall>p \<in> set (f_pending s). p_checked p \<le> f_clock s
          \<and> k * int (length (recent (claims s) (p_checked p))) < L)"

lemma day_inv_total:
  assumes i: "day_inv k L s" and k: "0 < k" "0 \<le> L" "L + k \<le> 2 ^ 53" and t: "f_clock s \<le> t"
  shows "dailyTotal (f_file s) t = jint (k * int (length (recent (claims s) t)))"
proof -
  let ?cs = "claims s"
  have b: "k * int (length (recent ?cs t)) < L + k"
  proof (cases "?cs = []")
    case True
    then show ?thesis using k by (simp add: recent_def)
  next
    case False
    let ?j = "length ?cs - 1"
    have "?j < length ?cs" "take (Suc ?j) ?cs = ?cs" using False by simp_all
    then have "k * int (length (recent ?cs (c_claimed_at (?cs ! ?j)))) < L + k"
      and "c_claimed_at (?cs ! ?j) \<le> t"
      using i t by (auto simp: day_inv_def intro: order_trans)
    moreover have "int (length (recent ?cs t)) \<le> int (length (recent ?cs (c_claimed_at (?cs ! ?j))))"
      using recent_later [OF calculation(2), of ?cs] by simp
    ultimately show ?thesis using k(1) by (meson le_less_trans mult_left_mono less_imp_le)
  qed
  have f: "filter (\<lambda>c. c_claimed_at c > t - 24 * 60 * 60 * 1000) (loadDb (f_file s))
      = map json_claim (recent ?cs t)"
    using i by (simp add: day_inv_def recent_def filter_map comp_def)
  have "list_all (\<lambda>c. number_of_json (c_amount c) = jint k) (map json_claim (recent ?cs t))"
    using i by (auto simp: day_inv_def list_all_iff recent_def json_claim_def number_of_json_def jint_def)
  then show ?thesis
    using sum_jint [of k "map json_claim (recent ?cs t)" 0] b k f by (simp add: dailyTotal_def)
qed

lemma day_inv_begin:
  assumes i: "day_inv k L s" and c: "DAILY_LIMIT cfg = jint L"
    and k: "0 < k" "0 \<le> L" "L + k \<le> 2 ^ 53" and t: "f_clock s \<le> now" "now \<le> now2" and e: "f_pending s = []"
  shows "day_inv k L (begin_claim cfg now now2 q s)"
proof (cases "claim_check cfg now now2 (f_file s) q")
  case (Inl r)
  then show ?thesis using i t e by (force simp: day_inv_def begin_claim_def claims_def)
next
  case (Inr aip)
  obtain a ip where aip: "aip = (a, ip)" by (cases aip)
  have "\<not> jge (dailyTotal (f_file s) now2) (DAILY_LIMIT cfg)"
    using claim_check_InrE(6) [OF Inr [unfolded aip]] .
  then have lim: "k * int (length (recent (claims s) now2)) < L"
    using day_inv_total [OF i k, of now2] t c by (simp add: jge_def)
  have b: "begin_claim cfg now now2 q s = s\<lparr>f_clock := now2, f_pending := [mk_pend q a ip now now2]\<rparr>"
    using Inr aip e by (simp add: begin_claim_def)
  have cl: "claims (s\<lparr>f_clock := now2, f_pending := [mk_pend q a ip now now2]\<rparr>) = claims s"
    by (simp add: claims_def)
  have "\<forall>c \<in> set (claims s). c_claimed_at c \<le> now2" using i t by (force simp: day_inv_def)
  then show ?thesis using i lim unfolding day_inv_def b cl by simp
qed

lemma day_inv_settle:
  assumes i: "day_inv k L s" and c: "FAUCET_PAYOUT cfg = jint k" and k: "0 < k"
    and p: "p \<in> set (f_pending s)" and t: "f_clock s \<le> now"
  shows "day_inv k L (settle_claim cfg now p reply None s)" (is "day_inv _ _ ?s")
proof -
  have e: "f_pending ?s = []" "f_clock ?s = now"
    using i p by (cases "f_pending s"; simp add: settle_claim_def day_inv_def)+
  have le: "\<forall>c \<in> set (claims s). c_amount c = Some (jint k) \<and> c_claimed_at c \<le> now"
    using i t by (force simp: day_inv_def)
  show ?thesis
  proof (cases "rpcCall reply")
    case (Inl err)
    then have "claims ?s = claims s" "f_file ?s = f_file s"
      by (simp_all add: settle_claim_def claim_finish_def claims_def)
    then show ?thesis using i e le by (simp add: day_inv_def)
  next
    case (Inr txid)
    let ?c = "payment cfg p txid now" and ?cs = "claims s"
    have cs: "claims ?s = ?cs @ [?c]" using Inr by (simp add: claims_def settle_claim_def)
    have dbf: "loadDb (f_file ?s) = map json_claim (?cs @ [?c])"
      using i Inr
      by (simp add: settle_claim_def claim_finish_def addClaim_def saveDb_def loadDb_def [of "Db _"]
          day_inv_def payment_def)
    have at: "c_claimed_at ?c = now" "c_amount ?c = Some (jint k)" using c by (simp_all add: payment_def)
    have "p_checked p \<le> now" "k * int (length (recent ?cs (p_checked p))) < L"
      using i p t by (force simp: day_inv_def)+
    moreover have "int (length (recent ?cs now)) \<le> int (length (recent ?cs (p_checked p)))"
      using recent_later [OF calculation(1), of ?cs] by simp
    ultimately have "k * int (length (recent ?cs now)) < L"
      using k by (meson le_less_trans mult_left_mono less_imp_le)
    then have last: "k * int (length (recent (?cs @ [?c]) now)) < L + k"
      using recent_snoc_self [of ?cs ?c] at by (simp add: algebra_simps)
    have "k * int (length (recent (take (Suc j) (?cs @ [?c])) (c_claimed_at ((?cs @ [?c]) ! j)))) < L + k"
      if "j < Suc (length ?cs)" for j
    proof (cases "j < length ?cs")
      case True
      then show ?thesis using i by (simp add: day_inv_def nth_append)
    next
      case False
      then have "j = length ?cs" using that by simp
      then show ?thesis using last at by simp
    qed
    then show ?thesis using e le cs dbf at by (simp add: day_inv_def)
  qed
qed

lemma day_inv_run:
  assumes "faucet_run cfg idle True s" "FAUCET_PAYOUT cfg = jint k" "DAILY_LIMIT cfg = jint L"
    "0 < k" "0 \<le> L" "L + k \<le> 2 ^ 53"
  shows "day_inv k L s"
  using assms(1)
proof (induction rule: faucet_run.induct)
  case (start f t)
  then show ?case by (simp add: day_inv_def faucet0_def claims_def)
next
  case (request s q now now2)
  then show ?case using assms by (intro day_inv_begin) (auto simp: idle_def)
next
  case (settle s p now fault reply)
  then show ?case using assms day_inv_settle by simp
qed

lemma wait_minutes_exact:
  assumes c: "cooldownMs cfg = jint n" and b: "0 < c_claimed_at r + n - now" "c_claimed_at r + n - now < 2 ^ 51"
    and s: "safe_int (c_claimed_at r + n)"
  shows "wait_minutes cfg r now = jint \<lceil>(of_int (c_claimed_at r + n - now) :: rat) / 60000\<rceil>"
proof -
  have "safe_int (c_claimed_at r + n - now)" using b by (simp add: safe_int_def)
  then show ?thesis
    using s ceil_minutes [OF b] by (simp add: wait_minutes_def c jadd_jint jsub_jint)
qed

section \<open>Properties\<close>

text \<open>C4. The cooldown holds for every address and every IP: in any run in which no request starts
  while another for the same address or IP waits for the wallet, and in which the file starts
  without claims and can be written, any two confirmed payouts to one address, or for one IP, lie at least \<open>COOLDOWN_HOURS\<close> apart.
  Requests for different addresses may interleave freely.\<close>

theorem cooldown_respected:
  assumes "faucet_run cfg no_rival True s" "COOLDOWN_HOURS cfg = jint h" "0 \<le> h" "h \<le> 1000000"
    and "i < j" "j < length (claims s)"
    and "c_address (claims s ! i) = c_address (claims s ! j) \<or> c_ip (claims s ! i) = c_ip (claims s ! j)"
  shows "3600000 * h \<le> c_claimed_at (claims s ! j) - c_claimed_at (claims s ! i)"
proof -
  have "spaced cfg c_address (claims s)" "spaced cfg c_ip (claims s)"
    using by_address.run_inv [OF assms(1)] by_ip.run_inv [OF assms(1)] by (simp_all add: key_inv_def)
  then have "\<not> jlt (jint (c_claimed_at (claims s ! j) - c_claimed_at (claims s ! i))) (cooldownMs cfg)"
    using assms(5-7) by (auto simp: spaced_def sorted_wrt_iff_nth_less)
  then show ?thesis using cooldownMs_jint [OF assms(2-4)] by simp
qed


text \<open>C33. The waiting time in a refusal is truthful: a client refused for its address is told a
  positive number of minutes, after which its last claim has cooled down, and one minute less
  would not have been enough.\<close>

theorem refusal_wait_truthful:
  assumes "claim_check cfg now now2 f q = Inl (AddressWait w)" "q_address q = Some a"
    and "COOLDOWN_HOURS cfg = jint h" "0 \<le> h" "h \<le> 1000000"
    and "\<forall>c \<in> set (loadDb f). 0 \<le> c_claimed_at c \<and> c_claimed_at c \<le> now" "now < 2 ^ 52"
  shows "\<exists>r m. lastClaimByAddress f a = Some r \<and> w = jint m \<and> 0 < m
     \<and> 3600000 * h \<le> now + 60000 * m - c_claimed_at r
     \<and> now + 60000 * (m - 1) - c_claimed_at r < 3600000 * h"
proof -
  let ?n = "3600000 * h"
  note cd = cooldownMs_jint [OF assms(3-5)]
  have "cooling cfg (lastClaimByAddress f a) now = Some w"
    using assms(1,2) by (auto simp: claim_check_def Let_def split: if_splits option.splits)
  then obtain r where r: "lastClaimByAddress f a = Some r" "w = wait_minutes cfg r now"
    and lt: "now - c_claimed_at r < ?n"
    by (auto simp: cooling_def cd split: option.splits if_splits)
  have "r \<in> set (loadDb f)"
    using r(1) newest_in_found(1) [of "filter (\<lambda>c. c_address c = a) (loadDb f)"]
    by (auto simp: lastClaimByAddress_def Let_def split: if_splits)
  then have at: "0 \<le> c_claimed_at r" "c_claimed_at r \<le> now" using assms(6) by auto
  define x where "x = c_claimed_at r + ?n - now"
  have x: "0 < x" "x \<le> ?n" using lt at by (simp_all add: x_def)
  define m where "m = \<lceil>(of_int x :: rat) / 60000\<rceil>"
  have w: "w = jint m"
    using wait_minutes_exact [OF cd, of r now] x at assms(4,5,7) r(2) by (simp add: x_def m_def safe_int_def)
  have "of_int m - 1 < (of_int x :: rat) / 60000" "(of_int x :: rat) / 60000 \<le> of_int m"
    unfolding m_def by linarith+
  then have "of_int (60000 * (m - 1)) < (of_int x :: rat)" "(of_int x :: rat) \<le> of_int (60000 * m)"
    by simp_all
  then have "60000 * (m - 1) < x" "x \<le> 60000 * m" by (simp_all only: of_int_less_iff of_int_le_iff)
  then show ?thesis
    using r(1) w x by (intro exI [of _ r] exI [of _ m]) (auto simp: x_def)
qed

lemma claim_check_granted:
  "claim_check cfg now now2 f q = Inr (a, ip) \<longleftrightarrow>
     q_address q = Some a \<and> ip = client_ip q \<and> isValidAddress (Some a)
     \<and> (\<forall>c \<in> set (loadDb f). c_address c = a \<or> c_ip c = ip \<longrightarrow>
          \<not> jlt (jint (now - c_claimed_at c)) (cooldownMs cfg))
     \<and> \<not> jge (dailyTotal f now2) (DAILY_LIMIT cfg)" (is "?L \<longleftrightarrow> ?R")
proof
  assume l: ?L
  then show ?R
    using claim_check_InrE [OF l] cooling_address [OF claim_check_InrE(4) [OF l]]
      cooling_ip [OF claim_check_InrE(5) [OF l]] by blast
next
  assume r: ?R
  have "cooling cfg (lastClaimByAddress f a) now = None"
    using r newest_in_found(1) [of "filter (\<lambda>c. c_address c = a) (loadDb f)"]
    by (auto simp: cooling_def lastClaimByAddress_def Let_def)
  moreover have "cooling cfg (lastClaimByIp f ip) now = None"
    using r newest_in_found(1) [of "filter (\<lambda>c. c_ip c = ip) (loadDb f)"]
    by (auto simp: cooling_def lastClaimByIp_def Let_def)
  ultimately show ?L using r by (simp add: claim_check_def Let_def)
qed

text \<open>C18. When the claim handler pays: exactly for a well-shaped address such that no stored claim
  for that address or IP is younger than the cooldown and the day's total is below the limit.
  The sort in \<open>lastClaimByAddress\<close> and \<open>lastClaimByIp\<close> finds the claim that matters.\<close>

theorem claim_granted_iff:
  "claim_check cfg now now2 f q = Inr (a, ip) \<longleftrightarrow>
     q_address q = Some a \<and> ip = client_ip q \<and> isValidAddress (Some a)
     \<and> (\<forall>c \<in> set (loadDb f). c_address c = a \<or> c_ip c = ip \<longrightarrow>
          \<not> jlt (jint (now - c_claimed_at c)) (cooldownMs cfg))
     \<and> \<not> jge (dailyTotal f now2) (DAILY_LIMIT cfg)"
  by (rule claim_check_granted)

section \<open>Sample runs\<close>

definition sample_cfg :: faucet_config where
  "sample_cfg = \<lparr>FAUCET_PAYOUT = jint 1, COOLDOWN_HOURS = jint 24, DAILY_LIMIT = jint 1000\<rparr>"

definition sample_address :: "nat \<Rightarrow> jsstr" where
  "sample_address c = js ''E'' @ replicate 30 c"

definition sample_request :: "nat \<Rightarrow> jsstr \<Rightarrow> request" where
  "sample_request c forwarded = \<lparr>q_address = Some (sample_address c), q_forwarded = Some forwarded,
     q_remote = Some (js ''10.0.0.1'')\<rparr>"

definition sample_pend :: "nat \<Rightarrow> jsstr \<Rightarrow> int \<Rightarrow> pend" where
  "sample_pend c forwarded t = \<lparr>p_request = sample_request c forwarded, p_address = sample_address c,
     p_ip = forwarded, p_started = t, p_checked = t\<rparr>"

definition tx1 :: jsstr where
  "tx1 = js ''tx''"

lemma sample_cooldown: "cooldownMs sample_cfg = jint 86400000"
  using cooldownMs_jint [of sample_cfg 24] by (simp add: sample_cfg_def)

lemma sample_valid: "isValidAddress (Some (sample_address 97))" "isValidAddress (Some (sample_address 98))"
  by (code_simp, code_simp)

lemma sample_begin:
  assumes "isValidAddress (Some (sample_address c))" "fwd \<noteq> []"
    and "\<forall>c' \<in> set (loadDb (f_file s)). c_address c' = sample_address c \<or> c_ip c' = fwd \<longrightarrow>
       86400000 \<le> t - c_claimed_at c'"
    and "jlt (dailyTotal (f_file s) t) (jint 1000)"
  shows "begin_claim sample_cfg t t (sample_request c fwd) s
     = s\<lparr>f_clock := t, f_pending := f_pending s @ [sample_pend c fwd t]\<rparr>"
proof -
  have "\<not> jge (dailyTotal (f_file s) t) (DAILY_LIMIT sample_cfg)"
    using assms(4) by (cases "dailyTotal (f_file s) t") (auto simp: jge_def sample_cfg_def jint_def)
  then have "claim_check sample_cfg t t (f_file s) (sample_request c fwd) = Inr (sample_address c, fwd)"
    unfolding claim_check_granted using assms(1-3)
    by (auto simp: sample_request_def client_ip_def js_or_def sample_cooldown)
  then show ?thesis by (simp add: begin_claim_def sample_pend_def)
qed

lemma sample_settle:
  "settle_claim sample_cfg t (sample_pend c fwd t0) (Inr (None, tx1)) fault s
     = s\<lparr>f_clock := t, f_pending := remove1 (sample_pend c fwd t0) (f_pending s),
         f_file := fst (addClaim (f_file s) (payment sample_cfg (sample_pend c fwd t0) tx1 t) fault),
         f_paid := f_paid s @ [(sample_request c fwd, payment sample_cfg (sample_pend c fwd t0) tx1 t)]\<rparr>"
  by (simp add: settle_claim_def claim_finish_def rpcCall_def payment_def sample_pend_def Let_def
      split: prod.split)

lemma total_NoFile: "jlt (dailyTotal NoFile t) (jint 1000)"
  by (simp add: dailyTotal_def loadDb_def)

lemma sample_one_paid:
  "jlt (dailyTotal (fst (addClaim NoFile (payment sample_cfg p txid t') None)) t) (jint 1000)"
  by (simp add: dailyTotal_def Let_def loadDb_def addClaim_def saveDb_def payment_def sample_cfg_def
      json_claim_def number_of_json_def jadd_jint safe_int_def)

lemma addClaim_NoFile: "loadDb (fst (addClaim NoFile c None)) = [json_claim c]"
  by (simp add: addClaim_def saveDb_def loadDb_def)

lemmas sample_step = sample_begin sample_settle sample_valid total_NoFile sample_one_paid

definition ip1 :: jsstr where "ip1 = js ''1.1.1.1''"
definition ip2 :: jsstr where "ip2 = js ''2.2.2.2''"

lemma sample_ips_ne: "ip1 \<noteq> []" "ip2 \<noteq> []" "ip1 \<noteq> ip2" "sample_address 97 \<noteq> sample_address 98"
  by (simp_all add: ip1_def ip2_def sample_address_def)

text \<open>Two requests for one address that overlap at the wallet call.\<close>

lemma race_run:
  "\<exists>s. faucet_run sample_cfg (\<lambda>_ _. True) True s
     \<and> f_paid s = [(sample_request 97 ip1, payment sample_cfg (sample_pend 97 ip1 10) tx1 20),
                   (sample_request 97 ip1, payment sample_cfg (sample_pend 97 ip1 11) tx1 21)]"
proof -
  let ?run = "faucet_run sample_cfg (\<lambda>_ _. True) True"
  let ?q = "sample_request 97 ip1"
  define s0 where "s0 = faucet0 NoFile 0"
  define s1 where "s1 = begin_claim sample_cfg 10 10 ?q s0"
  define s2 where "s2 = begin_claim sample_cfg 11 11 ?q s1"
  define s3 where "s3 = settle_claim sample_cfg 20 (sample_pend 97 ip1 10) (Inr (None, tx1)) None s2"
  define s4 where "s4 = settle_claim sample_cfg 21 (sample_pend 97 ip1 11) (Inr (None, tx1)) None s3"
  have s1: "s1 = s0\<lparr>f_clock := 10, f_pending := [sample_pend 97 ip1 10]\<rparr>"
    unfolding s1_def by (subst sample_begin)
      (simp_all add: s0_def faucet0_def loadDb_def sample_valid sample_ips_ne total_NoFile)
  have s2: "s2 = s0\<lparr>f_clock := 11, f_pending := [sample_pend 97 ip1 10, sample_pend 97 ip1 11]\<rparr>"
    unfolding s2_def by (subst sample_begin)
      (simp_all add: s1 s0_def faucet0_def loadDb_def sample_valid sample_ips_ne total_NoFile)
  have ne: "sample_pend 97 ip1 10 \<noteq> sample_pend 97 ip1 11" by (simp add: sample_pend_def)
  have "?run s0" unfolding s0_def by (rule faucet_run.start) (simp add: loadDb_def)
  then have "?run s1" unfolding s1_def by (rule faucet_run.request) (simp_all add: s0_def faucet0_def)
  then have "?run s2" unfolding s2_def by (rule faucet_run.request) (simp_all add: s1)
  then have "?run s3" unfolding s3_def by (rule faucet_run.settle) (simp_all add: s2)
  then have "?run s4" unfolding s4_def
    by (rule faucet_run.settle) (simp_all add: s3_def sample_settle s2 ne)
  moreover have "f_paid s4 = [(?q, payment sample_cfg (sample_pend 97 ip1 10) tx1 20),
      (?q, payment sample_cfg (sample_pend 97 ip1 11) tx1 21)]"
    by (simp add: s4_def s3_def sample_settle s2 s0_def faucet0_def)
  ultimately show ?thesis by blast
qed

text \<open>Two requests served one after the other; the second one starts on file \<open>f\<close>.\<close>

lemma serial_run:
  assumes f: "f = fst (addClaim NoFile (payment sample_cfg (sample_pend 97 ip1 10) tx1 20) fault)"
    and d: "durable \<Longrightarrow> fault = None"
    and T: "20 \<le> T"
    and ok: "\<forall>c' \<in> set (loadDb f). c_address c' = sample_address c \<or> c_ip c' = ip \<longrightarrow>
        86400000 \<le> T - c_claimed_at c'"
      "jlt (dailyTotal f T) (jint 1000)" "isValidAddress (Some (sample_address c))" "ip \<noteq> []"
  shows "\<exists>s. faucet_run sample_cfg idle durable s
     \<and> f_paid s = [(sample_request 97 ip1, payment sample_cfg (sample_pend 97 ip1 10) tx1 20),
                   (sample_request c ip, payment sample_cfg (sample_pend c ip T) tx1 (T + 1))]"
proof -
  let ?run = "faucet_run sample_cfg idle durable"
  define s0 where "s0 = faucet0 NoFile 0"
  define s1 where "s1 = begin_claim sample_cfg 10 10 (sample_request 97 ip1) s0"
  define s2 where "s2 = settle_claim sample_cfg 20 (sample_pend 97 ip1 10) (Inr (None, tx1)) fault s1"
  define s3 where "s3 = begin_claim sample_cfg T T (sample_request c ip) s2"
  define s4 where "s4 = settle_claim sample_cfg (T + 1) (sample_pend c ip T) (Inr (None, tx1)) None s3"
  have s1: "s1 = s0\<lparr>f_clock := 10, f_pending := [sample_pend 97 ip1 10]\<rparr>"
    unfolding s1_def by (subst sample_begin)
      (simp_all add: s0_def faucet0_def loadDb_def sample_valid sample_ips_ne total_NoFile)
  have s2: "s2 = s0\<lparr>f_clock := 20, f_pending := [], f_file := f,
      f_paid := [(sample_request 97 ip1, payment sample_cfg (sample_pend 97 ip1 10) tx1 20)]\<rparr>"
    by (simp add: s2_def sample_settle s1 f s0_def faucet0_def)
  have s3: "s3 = s2\<lparr>f_clock := T, f_pending := [sample_pend c ip T]\<rparr>"
    unfolding s3_def by (subst sample_begin) (simp_all add: s2 ok)
  have "?run s0" unfolding s0_def by (rule faucet_run.start) (simp add: loadDb_def)
  then have "?run s1" unfolding s1_def
    by (rule faucet_run.request) (simp_all add: s0_def faucet0_def idle_def)
  then have "?run s2" unfolding s2_def by (rule faucet_run.settle) (simp_all add: s1 d)
  then have "?run s3" unfolding s3_def by (rule faucet_run.request) (simp_all add: s2 idle_def T)
  then have "?run s4" unfolding s4_def by (rule faucet_run.settle) (simp_all add: s3)
  moreover have "f_paid s4 = [(sample_request 97 ip1, payment sample_cfg (sample_pend 97 ip1 10) tx1 20),
      (sample_request c ip, payment sample_cfg (sample_pend c ip T) tx1 (T + 1))]"
    by (simp add: s4_def sample_settle s3 s2)
  ultimately show ?thesis by blast
qed

text \<open>C34. Overlapping requests defeat both cooldowns: there is a run in which two requests for one
  address and one IP are both paid within a millisecond, because the second passes the checks
  before the first has been recorded.\<close>

theorem cooldown_race:
  "\<exists>s. faucet_run sample_cfg (\<lambda>_ _. True) True s \<and> length (claims s) = 2
     \<and> c_address (claims s ! 0) = c_address (claims s ! 1) \<and> c_ip (claims s ! 0) = c_ip (claims s ! 1)
     \<and> c_claimed_at (claims s ! 1) - c_claimed_at (claims s ! 0) = 1"
proof -
  obtain s where "faucet_run sample_cfg (\<lambda>_ _. True) True s" and p:
    "f_paid s = [(sample_request 97 ip1, payment sample_cfg (sample_pend 97 ip1 10) tx1 20),
                 (sample_request 97 ip1, payment sample_cfg (sample_pend 97 ip1 11) tx1 21)]"
    using race_run by blast
  then show ?thesis
    by (intro exI [of _ s]) (simp add: claims_def payment_def sample_pend_def)
qed


text \<open>C36. A payout that cannot be recorded is answered with an error and forgotten: when the file
  cannot be written, one address is paid twice within two milliseconds, although requests are
  served one at a time.\<close>

theorem unrecorded_payout:
  "(\<exists>s. faucet_run sample_cfg idle False s \<and> length (claims s) = 2
     \<and> c_address (claims s ! 0) = c_address (claims s ! 1)
     \<and> c_claimed_at (claims s ! 1) - c_claimed_at (claims s ! 0) = 2)
   \<and> claim_finish cfg f a ip t (Inr (None, txid)) (Some f) = (WalletFailed, f)"
proof
  have "\<exists>s. faucet_run sample_cfg idle False s
     \<and> f_paid s = [(sample_request 97 ip1, payment sample_cfg (sample_pend 97 ip1 10) tx1 20),
                   (sample_request 97 ip1, payment sample_cfg (sample_pend 97 ip1 21) tx1 (21 + 1))]"
    by (rule serial_run [of NoFile "Some NoFile"])
      (simp_all add: addClaim_def saveDb_def loadDb_def total_NoFile sample_valid sample_ips_ne)
  then obtain s where "faucet_run sample_cfg idle False s" and
    "f_paid s = [(sample_request 97 ip1, payment sample_cfg (sample_pend 97 ip1 10) tx1 20),
                 (sample_request 97 ip1, payment sample_cfg (sample_pend 97 ip1 21) tx1 (21 + 1))]"
    by blast
  then show "\<exists>s. faucet_run sample_cfg idle False s \<and> length (claims s) = 2
     \<and> c_address (claims s ! 0) = c_address (claims s ! 1)
     \<and> c_claimed_at (claims s ! 1) - c_claimed_at (claims s ! 0) = 2"
    by (intro exI [of _ s]) (simp add: claims_def payment_def sample_pend_def)
  show "claim_finish cfg f a ip t (Inr (None, txid)) (Some f) = (WalletFailed, f)"
    by (simp add: claim_finish_def rpcCall_def addClaim_def saveDb_def)
qed


lemma run_idle_no_rival: "faucet_run cfg idle d s \<Longrightarrow> faucet_run cfg no_rival d s"
proof (induction rule: faucet_run.induct)
  case (start f t)
  then show ?case by (rule faucet_run.start)
next
  case (request s q now now2)
  then show ?case by (intro faucet_run.request) (auto simp: idle_def no_rival_def)
next
  case (settle s p now fault reply)
  then show ?case by (intro faucet_run.settle) auto
qed

lemma patient_run:
  "\<exists>s. faucet_run sample_cfg idle True s
     \<and> claims s = [payment sample_cfg (sample_pend 97 ip1 10) tx1 20,
                   payment sample_cfg (sample_pend 97 ip1 86400020) tx1 86400021]"
proof -
  have "\<exists>s. faucet_run sample_cfg idle True s
     \<and> f_paid s = [(sample_request 97 ip1, payment sample_cfg (sample_pend 97 ip1 10) tx1 20),
                   (sample_request 97 ip1, payment sample_cfg (sample_pend 97 ip1 86400020) tx1 (86400020 + 1))]"
    by (rule serial_run [OF refl _ _ _ sample_one_paid])
      (use sample_ips_ne in \<open>simp_all add: addClaim_NoFile json_claim_def payment_def sample_pend_def
        sample_valid\<close>)
  then show ?thesis by (auto simp: claims_def)
qed

theorem cooldown_respected_witness:
  "\<exists>s. faucet_run sample_cfg no_rival True s \<and> length (claims s) = 2
     \<and> c_address (claims s ! 0) = c_address (claims s ! 1)
     \<and> 3600000 * 24 \<le> c_claimed_at (claims s ! 1) - c_claimed_at (claims s ! 0)"
proof -
  obtain s where s: "faucet_run sample_cfg idle True s"
    "claims s = [payment sample_cfg (sample_pend 97 ip1 10) tx1 20,
                 payment sample_cfg (sample_pend 97 ip1 86400020) tx1 86400021]"
    using patient_run by blast
  have l: "length (claims s) = 2" "c_address (claims s ! 0) = c_address (claims s ! 1)"
    by (simp_all add: s(2) payment_def sample_pend_def)
  show ?thesis
    using cooldown_respected [OF run_idle_no_rival [OF s(1)], of 24 0 1] l run_idle_no_rival [OF s(1)]
    by (intro exI [of _ s]) (simp add: sample_cfg_def)
qed


definition sample_row :: claim where
  "sample_row = payment sample_cfg (sample_pend 97 ip1 10) tx1 20"

theorem refusal_wait_truthful_witness:
  "\<exists>m. claim_check sample_cfg 30 30 (Db [sample_row]) (sample_request 97 ip2) = Inl (AddressWait (jint m))
     \<and> 0 < m \<and> 3600000 * 24 \<le> 30 + 60000 * m - 20"
proof -
  let ?f = "Db [sample_row]" and ?q = "sample_request 97 ip2"
  let ?w = "wait_minutes sample_cfg sample_row 30"
  have at: "c_claimed_at sample_row = 20" "c_address sample_row = sample_address 97"
    by (simp_all add: sample_row_def payment_def sample_pend_def)
  have last: "lastClaimByAddress ?f (sample_address 97) = Some sample_row"
    by (simp add: lastClaimByAddress_def loadDb_def at js_sort_def)
  then have c: "claim_check sample_cfg 30 30 ?f ?q = Inl (AddressWait ?w)"
    by (simp add: claim_check_def sample_request_def sample_valid cooling_def sample_cooldown at)
  have "\<exists>r m. lastClaimByAddress ?f (sample_address 97) = Some r \<and> ?w = jint m \<and> 0 < m
     \<and> 3600000 * 24 \<le> 30 + 60000 * m - c_claimed_at r
     \<and> 30 + 60000 * (m - 1) - c_claimed_at r < 3600000 * 24"
    by (rule refusal_wait_truthful [OF c])
      (simp_all add: sample_request_def sample_cfg_def loadDb_def at)
  then show ?thesis using c last at by auto
qed

theorem claim_granted_iff_witness:
  "claim_check sample_cfg 30 30 NoFile (sample_request 97 ip1) = Inr (sample_address 97, ip1)"
  by (rule iffD2 [OF claim_granted_iff])
    (use sample_ips_ne in \<open>simp add: sample_request_def client_ip_def js_or_def sample_valid loadDb_def dailyTotal_def sample_cfg_def jge_def\<close>)

text \<open>C37. The address filter refuses the network's own addresses: no string that starts with
  \<open>be1\<close>, the prefix of the chain's native segwit addresses, is accepted, whatever follows.\<close>

theorem native_addresses_refused:
  "\<not> isValidAddress (Some (js ''be1'' @ s))"
  by (simp add: isValidAddress_def match_shape_def)

end
