(* ===== verification/Sha256_Spec.thy ===== *)
theory Sha256_Spec
  imports Sha256 Complex_Main
begin

text \<open>
  SHA-256 as FIPS 180-4 states it, and that the unrolled \<open>Transform\<close> computes it. The reference
  has rotations, the schedule as a recurrence, the eight working variables shifted in every
  round, and its constants from their definition: the first 32 bits of the fractional parts of
  the cube roots of the first 64 primes (square roots of the first 8 for the initial state).
\<close>

section \<open>The standard\<close>

definition Ch_std :: "u32 \<Rightarrow> u32 \<Rightarrow> u32 \<Rightarrow> u32" where
  "Ch_std x y z = (x AND y) XOR (NOT x AND z)"

definition Maj_std :: "u32 \<Rightarrow> u32 \<Rightarrow> u32 \<Rightarrow> u32" where
  "Maj_std x y z = (x AND y) XOR (x AND z) XOR (y AND z)"

definition Sigma0_std :: "u32 \<Rightarrow> u32" where
  "Sigma0_std x = word_rotr 2 x XOR word_rotr 13 x XOR word_rotr 22 x"

definition Sigma1_std :: "u32 \<Rightarrow> u32" where
  "Sigma1_std x = word_rotr 6 x XOR word_rotr 11 x XOR word_rotr 25 x"

definition sigma0_std :: "u32 \<Rightarrow> u32" where
  "sigma0_std x = word_rotr 7 x XOR word_rotr 18 x XOR drop_bit 3 x"

definition sigma1_std :: "u32 \<Rightarrow> u32" where
  "sigma1_std x = word_rotr 17 x XOR word_rotr 19 x XOR drop_bit 10 x"

definition is_prime :: "int \<Rightarrow> bool" where
  "is_prime p \<longleftrightarrow> 1 < p \<and> (\<forall>d \<in> {2..<p}. \<not> d dvd p)"

definition first_primes :: "int list" where
  "first_primes = filter is_prime [2..311]"

text \<open>The first 32 bits of the fractional part of the \<open>n\<close>-th root.\<close>

definition frac_root :: "nat \<Rightarrow> int \<Rightarrow> u32" where
  "frac_root n p = word_of_int \<lfloor>root n (real_of_int p) * 2 ^ 32\<rfloor>"

definition K_std :: "u32 list" where
  "K_std = map (frac_root 3) first_primes"

definition H_std :: "u32 list" where
  "H_std = map (frac_root 2) (take 8 first_primes)"

fun W_std :: "u32 list \<Rightarrow> nat \<Rightarrow> u32" where
  "W_std M t =
     (if t < 16 then M ! t
      else sigma1_std (W_std M (t - 2)) + W_std M (t - 7) + sigma0_std (W_std M (t - 15)) + W_std M (t - 16))"

declare W_std.simps [simp del]

fun round_std :: "u32 \<Rightarrow> u32 list \<Rightarrow> u32 list" where
  "round_std kw [a, b, c, d, e, f, g, h] =
     (let T1 = h + Sigma1_std e + Ch_std e f g + kw;
          T2 = Sigma0_std a + Maj_std a b c
      in [T1 + T2, a, b, c, d + T1, e, f, g])"
| "round_std kw s = s"

definition compress_std :: "u32 list \<Rightarrow> u32 list \<Rightarrow> u32 list" where
  "compress_std s M = map2 (+) s (fold round_std (map2 (+) K_std (map (W_std M) [0..<64])) s)"

section \<open>The bit functions\<close>

lemma rotr_shifts:
  assumes "0 < n" "n < 32"
  shows "word_rotr n (x :: u32) = drop_bit n x OR push_bit (32 - n) x"
proof (rule bit_word_eqI)
  fix i assume i: "i < LENGTH(32)"
  show "bit (word_rotr n x) i = bit (drop_bit n x OR push_bit (32 - n) x) i"
  proof (cases "i + n < 32")
    case True
    then show ?thesis using assms i by (auto simp: bit_simps bit_word_rotr_iff add.commute)
  next
    case False
    then have "(i + n) mod 32 = i - (32 - n)" using assms i by (simp add: mod_if)
    then show ?thesis
      using False assms i bit_imp_le_length [of x "n + i"] by (auto simp: bit_simps bit_word_rotr_iff)
  qed
qed

lemma Ch_is_std: "Ch x y z = Ch_std x y z"
  unfolding Ch_def Ch_std_def by (rule bit_word_eqI) (auto simp: bit_simps)

lemma Maj_is_std: "Maj x y z = Maj_std x y z"
  unfolding Maj_def Maj_std_def by (rule bit_word_eqI) (auto simp: bit_simps)

lemma Sigmas_are_std:
  "Sigma0 x = Sigma0_std x" "Sigma1 x = Sigma1_std x" "sigma0 x = sigma0_std x" "sigma1 x = sigma1_std x"
  by (simp_all add: Sigma0_def Sigma0_std_def Sigma1_def Sigma1_std_def sigma0_def sigma0_std_def
      sigma1_def sigma1_std_def rotr_shifts)

lemmas std_simps = Ch_is_std Maj_is_std Sigmas_are_std

section \<open>The constants\<close>

text \<open>A word is the fraction of a root if it is one behind some integer part.\<close>

definition is_frac :: "nat \<Rightarrow> int \<Rightarrow> u32 \<Rightarrow> bool" where
  "is_frac n p k = list_ex (\<lambda>i. p < (i + 1) ^ n \<and> (i * 2 ^ 32 + uint k) ^ n \<le> p * 2 ^ (32 * n)
     \<and> p * 2 ^ (32 * n) < (i * 2 ^ 32 + uint k + 1) ^ n) [1, 2, 3, 4, 5, 6]"

lemma floor_root:
  assumes "0 < n" "0 \<le> p" "0 \<le> c" "c ^ n \<le> p * 2 ^ (32 * n)" "p * 2 ^ (32 * n) < (c + 1) ^ n"
  shows "\<lfloor>root n (real_of_int p) * 2 ^ 32\<rfloor> = c"
proof -
  let ?y = "root n (real_of_int p) * 2 ^ 32"
  have y: "?y ^ n = real_of_int (p * 2 ^ (32 * n))"
    using assms(1,2) by (simp only: power_mult_distrib real_root_pow_pos2 of_int_0_le_iff power_mult
        of_int_mult of_int_power of_int_numeral)
  have "real_of_int c ^ n \<le> ?y ^ n" "?y ^ n < real_of_int (c + 1) ^ n"
    unfolding y using assms(4,5) by (simp_all only: of_int_le_iff of_int_less_iff flip: of_int_power)
  moreover have "0 \<le> ?y" using assms(1,2) by simp
  ultimately have "real_of_int c \<le> ?y" "?y < real_of_int (c + 1)"
    using assms(1,3) power_le_imp_le_base [of "real_of_int c" "n - 1" ?y]
      power_less_imp_less_base [of ?y n "real_of_int (c + 1)"] by simp_all
  then show ?thesis by (simp add: floor_unique)
qed

lemma is_frac_root:
  assumes "is_frac n p k" "0 < n" "0 \<le> p"
  shows "frac_root n p = k"
proof -
  have zero: "(2 :: u32) ^ 32 = 0" by simp
  obtain i where "i \<in> set [1, 2, 3, 4, 5, 6]" and i: "(i * 2 ^ 32 + uint k) ^ n \<le> p * 2 ^ (32 * n)"
      "p * 2 ^ (32 * n) < (i * 2 ^ 32 + uint k + 1) ^ n"
    using assms(1) unfolding is_frac_def list_ex_iff by blast
  then have "0 \<le> i" by auto
  then have "0 \<le> i * 2 ^ 32 + uint k" by simp
  then have "\<lfloor>root n (real_of_int p) * 2 ^ 32\<rfloor> = i * 2 ^ 32 + uint k"
    by (rule floor_root [OF assms(2,3) _ i])
  moreover have "(word_of_int (i * 2 ^ 32 + uint k) :: u32) = k"
    by (simp only: of_int_add of_int_mult of_int_power of_int_numeral word_of_int_uint zero) simp
  ultimately show ?thesis by (simp add: frac_root_def)
qed

lemma fracs_are_roots:
  "list_all2 (is_frac n) ps ks \<Longrightarrow> 0 < n \<Longrightarrow> \<forall>p \<in> set ps. 0 \<le> p \<Longrightarrow> map (frac_root n) ps = ks"
  by (induction rule: list_all2_induct) (auto simp: is_frac_root)

lemma small_divisor:
  fixes p :: int
  assumes "p < 324" "2 \<le> d" "d < p" "d dvd p"
  obtains e where "2 \<le> e" "e \<le> 17" "e < p" "e dvd p"
proof (cases "d \<le> 17")
  case True
  then show ?thesis using assms that by blast
next
  case False
  obtain e where e: "p = d * e" using assms(4) by blast
  have "0 < d * e" using e assms(2,3) by simp
  then have "0 < e" using assms(2) by (simp add: zero_less_mult_iff)
  moreover have "e \<noteq> 1" using e assms(3) by auto
  ultimately have e2: "2 \<le> e" by simp
  have "2 * e \<le> p" unfolding e using assms(2) e2 by (intro mult_right_mono) simp_all
  moreover have "e \<le> 17"
  proof (rule ccontr)
    assume "\<not> e \<le> 17"
    then have "18 * 18 \<le> p" unfolding e using False by (intro mult_mono) simp_all
    then show False using assms(1) by simp
  qed
  ultimately show ?thesis using that [of e] e e2 by simp
qed

definition sieve :: "int \<Rightarrow> bool" where
  "sieve p = list_all (\<lambda>d. p \<le> d \<or> p mod d \<noteq> 0) [2, 3, 5, 7, 11, 13, 17]"

lemma sieve_divisor:
  "2 \<le> e \<Longrightarrow> e \<le> 17 \<Longrightarrow> \<exists>q \<in> {2, 3, 5, 7, 11, 13, 17 :: int}. q dvd e \<and> q \<le> e"
proof -
  assume "2 \<le> e" "e \<le> 17"
  then have "e \<in> set [2..17]" unfolding set_upto by simp
  moreover have "list_all (\<lambda>e. list_ex (\<lambda>q. e mod q = 0 \<and> q \<le> e) [2, 3, 5, 7, 11, 13, 17]) [2..17 :: int]"
    by code_simp
  ultimately have "list_ex (\<lambda>q. e mod q = 0 \<and> q \<le> e) [2, 3, 5, 7, 11, 13, 17]" unfolding list_all_iff by blast
  then show ?thesis by (simp add: dvd_eq_mod_eq_0)
qed

lemma is_prime_sieve:
  assumes "1 < p" "p < 324"
  shows "is_prime p \<longleftrightarrow> sieve p"
proof
  assume "is_prime p"
  then have "p \<le> d \<or> p mod d \<noteq> 0" if "2 \<le> d" for d
    using that by (fastforce simp: is_prime_def dvd_eq_mod_eq_0)
  then show "sieve p" by (simp add: sieve_def del: not_mod_2_eq_0_eq_1)
next
  assume s: "sieve p"
  have "\<not> d dvd p" if d: "2 \<le> d" "d < p" for d
  proof
    assume "d dvd p"
    from small_divisor [OF assms(2) d this] obtain e where e: "2 \<le> e" "e \<le> 17" "e < p" "e dvd p" .
    from sieve_divisor [OF e(1,2)] obtain q where q: "q \<in> {2, 3, 5, 7, 11, 13, 17}" "q dvd e" "q \<le> e" by blast
    have "p mod q = 0" "q < p" using dvd_trans [OF q(2) e(4)] q(3) e(3) by (simp_all add: dvd_eq_mod_eq_0)
    moreover have "p \<le> q \<or> p mod q \<noteq> 0"
      using s q(1) unfolding sieve_def list_all_iff list.set by (rule bspec)
    ultimately show False by simp
  qed
  then show "is_prime p" using assms(1) by (simp add: is_prime_def)
qed

lemma first_primes_eq: "first_primes =
    [2, 3, 5, 7, 11, 13, 17, 19, 23, 29, 31, 37, 41, 43, 47, 53, 59, 61, 67, 71, 73, 79, 83, 89, 97,
     101, 103, 107, 109, 113, 127, 131, 137, 139, 149, 151, 157, 163, 167, 173, 179, 181, 191, 193,
     197, 199, 211, 223, 227, 229, 233, 239, 241, 251, 257, 263, 269, 271, 277, 281, 283, 293, 307, 311]"
proof -
  have "first_primes = filter sieve [2..311]"
  proof (unfold first_primes_def, rule filter_cong [OF refl])
    fix p :: int assume "p \<in> set [2..311]"
    then have "1 < p" "p < 324" unfolding set_upto by simp_all
    then show "is_prime p \<longleftrightarrow> sieve p" by (rule is_prime_sieve)
  qed
  also have "\<dots> = [2, 3, 5, 7, 11, 13, 17, 19, 23, 29, 31, 37, 41, 43, 47, 53, 59, 61, 67, 71, 73, 79, 83, 89, 97,
     101, 103, 107, 109, 113, 127, 131, 137, 139, 149, 151, 157, 163, 167, 173, 179, 181, 191, 193,
     197, 199, 211, 223, 227, 229, 233, 239, 241, 251, 257, 263, 269, 271, 277, 281, 283, 293, 307, 311]"
    by code_simp
  finally show ?thesis .
qed

definition round_constants :: "round_call list \<Rightarrow> u32 list" where
  "round_constants cs = map (fst \<circ> snd) cs"

lemma first_primes_pos: "\<forall>p \<in> set first_primes. 0 \<le> p"
  unfolding first_primes_def set_filter set_upto by auto

lemmas calls_defs = load_calls_def mix_calls1_def mix_calls2_def

lemma constants_are_K: "round_constants (load_calls chunk @ mix_calls1 @ mix_calls2) = K_std"
proof -
  have "list_all2 (is_frac 3) first_primes (round_constants (load_calls chunk @ mix_calls1 @ mix_calls2))"
    unfolding first_primes_eq round_constants_def calls_defs append.simps list.map o_apply fst_conv snd_conv
      list.rel_inject
    by (intro conjI TrueI) (simp_all add: is_frac_def)
  then show ?thesis
    unfolding K_std_def using first_primes_pos by (intro fracs_are_roots [symmetric]) simp_all
qed

lemma init_is_H: "sha256_init = H_std"
proof -
  have t: "take 8 first_primes = [2, 3, 5, 7, 11, 13, 17, 19]" by (simp add: first_primes_eq)
  have "list_all2 (is_frac 2) (take 8 first_primes) sha256_init"
    unfolding t by code_simp
  then show ?thesis
    unfolding H_std_def by (rule fracs_are_roots [symmetric]) (simp_all add: t)
qed

end
