(* ===== verification/Sha256_Unrolled.thy ===== *)
theory Sha256_Unrolled
  imports Sha256_Spec
begin

text \<open>
  The unrolled compression function computes the standard's. The registers of the unrolled code
  are the working variables of the standard up to the renaming of the calls, and the sixteen
  schedule variables are a window on the schedule; both hold for any list of calls whose names
  follow each other and whose operands compute the next schedule word, which is checked for the
  calls of \<open>Transform\<close> one by one.
\<close>

section \<open>The registers\<close>

text \<open>The names of a call shift by one place: the variable last in one call is first in the next.\<close>

definition next_names :: "names \<Rightarrow> names" where
  "next_names r = last r # butlast r"

fun follows :: "names \<Rightarrow> round_call list \<Rightarrow> bool" where
  "follows r [] \<longleftrightarrow> True"
| "follows r (c # cs) \<longleftrightarrow> fst c = r \<and> follows (next_names r) cs"

definition all_names :: "names set" where
  "all_names = {abcdefgh, habcdefg, ghabcdef, fghabcde, efghabcd, defghabc, cdefghab, bcdefgha}"

lemma next_names_simps:
  "next_names abcdefgh = habcdefg" "next_names habcdefg = ghabcdef" "next_names ghabcdef = fghabcde"
  "next_names fghabcde = efghabcd" "next_names efghabcd = defghabc" "next_names defghabc = cdefghab"
  "next_names cdefghab = bcdefgha" "next_names bcdefgha = abcdefgh"
  by (simp_all add: next_names_def names_defs)

lemma next_names_closed: "r \<in> all_names \<Longrightarrow> next_names r \<in> all_names"
  by (auto simp: all_names_def next_names_simps)

lemma Round_std:
  assumes "r \<in> all_names" "length v = 8"
  shows "map ((!) (Round r k v)) (next_names r) = round_std k (map ((!) v) r)"
proof -
  obtain a b c d e f g h where v: "v = [a, b, c, d, e, f, g, h]"
    using assms(2) by (auto simp: length_Suc_conv numeral_eq_Suc)
  show ?thesis using assms(1)
    by (auto simp: all_names_def next_names_simps) (simp_all add: names_defs Round_def Let_def v std_simps)
qed

text \<open>The words added in the calls; they do not depend on the registers.\<close>

fun operands :: "round_call list \<Rightarrow> u32 list \<Rightarrow> u32 list" where
  "operands [] w = []"
| "operands ((r, k, x) # cs) w = (k + fst (x w)) # operands cs (snd (x w))"

fun words_after :: "round_call list \<Rightarrow> u32 list \<Rightarrow> u32 list" where
  "words_after [] w = w"
| "words_after ((r, k, x) # cs) w = words_after cs (snd (x w))"

lemma rounds_std:
  "r \<in> all_names \<Longrightarrow> follows r cs \<Longrightarrow> length v = 8 \<Longrightarrow>
     map ((!) (fst (rounds cs (v, w)))) ((next_names ^^ length cs) r)
     = fold round_std (operands cs w) (map ((!) v) r)"
proof (induction cs "(v, w)" arbitrary: r v w rule: rounds.induct)
  case (2 r' k x cs v w)
  obtain y w' where x: "x w = (y, w')" by (cases "x w")
  have r: "r' = r" "follows (next_names r) cs" using 2(3) by auto
  show ?case
    using 2(1) [OF x [symmetric] next_names_closed [OF 2(2)] r(2)] 2(2,4)
    by (simp add: x r(1) Round_std funpow_swap1)
qed simp

lemma next_names_8: "r \<in> all_names \<Longrightarrow> (next_names ^^ 8) r = r"
  by (auto simp: all_names_def next_names_simps eval_nat_numeral)

lemma next_names_64: "r \<in> all_names \<Longrightarrow> (next_names ^^ 64) r = r"
proof -
  have "(next_names ^^ (8 * n)) r = r" if "r \<in> all_names" for n
    using that by (induction n) (simp_all add: funpow_add next_names_8)
  from this [of 8] show "r \<in> all_names \<Longrightarrow> (next_names ^^ 64) r = r" by simp
qed

lemma rounds_64:
  assumes "follows abcdefgh cs" "length cs = 64" "length v = 8"
  shows "fst (rounds cs (v, w)) = fold round_std (operands cs w) v"
proof -
  have a: "abcdefgh \<in> all_names" by (simp add: all_names_def)
  have id: "map ((!) x) abcdefgh = x" if "length x = 8" for x :: "u32 list"
    using that by (auto simp: names_defs length_Suc_conv numeral_eq_Suc)
  show ?thesis
    using rounds_std [OF a assms(1,3), of w] assms by (simp add: next_names_64 [OF a] id)
qed

lemma operands_append: "operands (cs @ ds) w = operands cs w @ operands ds (words_after cs w)"
  by (induction cs w rule: operands.induct) auto

lemma words_after_append: "words_after (cs @ ds) w = words_after ds (words_after cs w)"
  by (induction cs w rule: words_after.induct) auto

lemma follows_append: "follows r (cs @ ds) \<longleftrightarrow> follows r cs \<and> follows ((next_names ^^ length cs) r) ds"
  by (induction cs arbitrary: r) (auto simp: funpow_swap1)


section \<open>The schedule\<close>

text \<open>A sequence of schedule words: each is computed from those 16, 15, 7 and 2 places before.\<close>

definition scheduled_words :: "(nat \<Rightarrow> u32) \<Rightarrow> bool" where
  "scheduled_words W \<longleftrightarrow> (\<forall>t. W (t + 16) = W t + (sigma1 (W (t + 14)) + W (t + 9) + sigma0 (W (t + 1))))"

lemma scheduled_words_diff:
  assumes "scheduled_words W" "16 \<le> t"
  shows "W t = W (t - 16) + (sigma1 (W (t - 2)) + W (t - 7) + sigma0 (W (t - 15)))"
proof -
  obtain s where s: "t = s + 16" using assms(2) by (metis le_add_diff_inverse2)
  have "t - 16 = s" "t - 2 = s + 14" "t - 7 = s + 9" "t - 15 = s + 1" using s by simp_all
  then show ?thesis using assms(1) unfolding scheduled_words_def s by (simp only:)
qed

lemma scheduled_W_std: "scheduled_words (W_std M)"
proof (unfold scheduled_words_def, intro allI)
  fix t show "W_std M (t + 16) = W_std M t + (sigma1 (W_std M (t + 14)) + W_std M (t + 9) + sigma0 (W_std M (t + 1)))"
    by (subst W_std.simps) (simp add: Sigmas_are_std ac_simps)
qed

text \<open>
  Before round \<open>t\<close>, the variable \<open>wi\<close> holds the last schedule word whose number is \<open>i\<close> modulo 16,
  as far as the word is one the code keeps (\<open>live\<close>).
\<close>

definition window :: "(nat \<Rightarrow> bool) \<Rightarrow> (nat \<Rightarrow> u32) \<Rightarrow> nat \<Rightarrow> u32 list \<Rightarrow> bool" where
  "window live W t w \<longleftrightarrow> length w = 16 \<and> (\<forall>u < t. t \<le> u + 16 \<longrightarrow> live u \<longrightarrow> w ! (u mod 16) = W u)"

definition computes :: "(nat \<Rightarrow> bool) \<Rightarrow> (nat \<Rightarrow> u32) \<Rightarrow> nat \<Rightarrow> operand \<Rightarrow> bool" where
  "computes live W t x \<longleftrightarrow>
     (\<forall>w. window live W t w \<longrightarrow> fst (x w) = W t \<and> window live W (Suc t) (snd (x w)))"

fun all_compute :: "(nat \<Rightarrow> bool) \<Rightarrow> (nat \<Rightarrow> u32) \<Rightarrow> nat \<Rightarrow> round_call list \<Rightarrow> bool" where
  "all_compute live W t [] \<longleftrightarrow> True"
| "all_compute live W t (c # cs) \<longleftrightarrow> computes live W t (snd (snd c)) \<and> all_compute live W (t + 1) cs"

lemma window_nth: "window live W t w \<Longrightarrow> live u \<Longrightarrow> u < t \<Longrightarrow> t \<le> u + 16 \<Longrightarrow> i = u mod 16 \<Longrightarrow> w ! i = W u"
  by (simp add: window_def)

lemma window_update:
  assumes "window live W t w"
  shows "window live W (Suc t) (w[t mod 16 := W t])"
proof -
  have "w[t mod 16 := W t] ! (u mod 16) = W u" if u: "u < Suc t" "Suc t \<le> u + 16" "live u" for u
  proof (cases "u = t")
    case False
    have "u mod 16 \<noteq> t mod 16"
    proof
      assume "u mod 16 = t mod 16"
      then have "16 dvd t - u" using mod_eq_dvd_iff_nat [of u t 16] u(1) by simp
      then show False using False u(1,2) by (auto dest: dvd_imp_le)
    qed
    then show ?thesis using assms u False by (simp add: window_def)
  qed (use assms in \<open>simp add: window_def\<close>)
  then show ?thesis using assms by (simp add: window_def)
qed

lemma window_keep: "window live W t w \<Longrightarrow> \<not> live t \<Longrightarrow> window live W (Suc t) w"
  by (auto simp: window_def less_Suc_eq)

lemma computesI:
  assumes "\<And>w. window live W t w \<Longrightarrow> fst (x w) = W t"
    "\<And>w. window live W t w \<Longrightarrow> snd (x w) = w[t mod 16 := W t] \<or> \<not> live t \<and> snd (x w) = w"
  shows "computes live W t x"
  unfolding computes_def
proof (intro allI impI conjI)
  fix w assume w: "window live W t w"
  show "fst (x w) = W t" by (rule assms(1) [OF w])
  show "window live W (Suc t) (snd (x w))"
    using assms(2) [OF w] window_update [OF w] window_keep [OF w] by auto
qed

lemma operands_compute:
  "all_compute live W t cs \<Longrightarrow> window live W t w \<Longrightarrow>
     operands cs w = map2 (+) (round_constants cs) (map W [t..<t + length cs])
     \<and> window live W (t + length cs) (words_after cs w)"
proof (induction cs w arbitrary: t rule: operands.induct)
  case (2 r k x cs w)
  then have x: "fst (x w) = W t" "window live W (Suc t) (snd (x w))" by (simp_all add: computes_def)
  have "[t..<t + length ((r, k, x) # cs)] = t # [Suc t..<Suc t + length cs]"
    by (subst upt_conv_Cons) simp_all
  then show ?case using 2(1) [of "Suc t"] 2(2) x by (simp add: round_constants_def)
qed (simp add: round_constants_def)

text \<open>The three kinds of calls of \<open>Transform\<close>.\<close>

lemma computes_load:
  "W t = ReadBE32 (drop (4 * t) chunk) \<Longrightarrow> i = t mod 16 \<Longrightarrow> d = 4 * t \<Longrightarrow>
     computes live W t (w_set i (\<lambda>_. ReadBE32 (drop d chunk)))"
  by (rule computesI) (simp_all add: w_set_def)

lemma window_recurrence:
  assumes "scheduled_words W" "16 \<le> t" "window live W t w"
    "live (t - 16)" "live (t - 15)" "live (t - 7)" "live (t - 2)"
    "i = t mod 16" "j = (t + 14) mod 16" "k = (t + 9) mod 16" "l = (t + 1) mod 16"
  shows "w ! i + (sigma1 (w ! j) + w ! k + sigma0 (w ! l)) = W t"
proof -
  have t: "t = t - 16 + 16" "t + 14 = t - 2 + 16" "t + 9 = t - 7 + 16" "t + 1 = t - 15 + 16"
    using assms(2) by simp_all
  have m: "t mod 16 = (t - 16) mod 16" "(t + 14) mod 16 = (t - 2) mod 16"
    "(t + 9) mod 16 = (t - 7) mod 16" "(t + 1) mod 16 = (t - 15) mod 16"
    using mod_add_self2 [of "t - 16" 16] mod_add_self2 [of "t - 2" 16] mod_add_self2 [of "t - 7" 16]
      mod_add_self2 [of "t - 15" 16] unfolding t [symmetric] by simp_all
  have le: "t - 16 < t" "t - 2 < t" "t - 7 < t" "t - 15 < t" using assms(2) by simp_all
  have le2: "t \<le> t - 16 + 16" "t \<le> t - 2 + 16" "t \<le> t - 7 + 16" "t \<le> t - 15 + 16" by simp_all
  have "w ! i = W (t - 16)" by (rule window_nth [OF assms(3,4)]) (simp_all only: le le2 assms(8) m(1))
  moreover have "w ! j = W (t - 2)" by (rule window_nth [OF assms(3,7)]) (simp_all only: le le2 assms(9) m(2))
  moreover have "w ! k = W (t - 7)" by (rule window_nth [OF assms(3,6)]) (simp_all only: le le2 assms(10) m(3))
  moreover have "w ! l = W (t - 15)" by (rule window_nth [OF assms(3,5)]) (simp_all only: le le2 assms(11) m(4))
  ultimately show ?thesis by (simp only: scheduled_words_diff [OF assms(1,2), symmetric])
qed

lemma computes_mix:
  assumes "scheduled_words W" "16 \<le> t" "live (t - 16)" "live (t - 15)" "live (t - 7)" "live (t - 2)"
    "i = t mod 16" "j = (t + 14) mod 16" "k = (t + 9) mod 16" "l = (t + 1) mod 16"
  shows "computes live W t (w_add i (\<lambda>w. sigma1 (w ! j) + w ! k + sigma0 (w ! l)))"
    "\<not> live t \<Longrightarrow> computes live W t (w_use (\<lambda>w. w ! i + sigma1 (w ! j) + w ! k + sigma0 (w ! l)))"
proof -
  note rec = window_recurrence [OF assms(1,2) _ assms(3-)]
  show "computes live W t (w_add i (\<lambda>w. sigma1 (w ! j) + w ! k + sigma0 (w ! l)))"
    by (rule computesI) (simp_all only: w_add_def Let_def rec [unfolded assms(7)] fst_conv snd_conv assms(7) simp_thms)
  show "computes live W t (w_use (\<lambda>w. w ! i + sigma1 (w ! j) + w ! k + sigma0 (w ! l)))" if "\<not> live t"
    by (rule computesI) (simp_all only: w_use_def add.assoc rec [unfolded add.assoc] fst_conv snd_conv that simp_thms)
qed

text \<open>All words but the last two are kept.\<close>

definition kept :: "nat \<Rightarrow> bool" where
  "kept t \<longleftrightarrow> t < 62"

lemma load_compute:
  assumes "\<And>t. t < 16 \<Longrightarrow> W t = ReadBE32 (drop (4 * t) chunk)"
  shows "all_compute kept W 0 (load_calls chunk)"
  unfolding load_calls_def all_compute.simps snd_conv
  by (intro conjI TrueI computes_load assms) simp_all

lemma mix_compute1: "scheduled_words W \<Longrightarrow> all_compute kept W 16 mix_calls1"
  unfolding mix_calls1_def all_compute.simps snd_conv
  by (intro conjI TrueI computes_mix) (simp_all add: kept_def)

lemma mix_compute2:
  assumes "scheduled_words W" "\<And>t. 16 \<le> t \<Longrightarrow> live t \<longleftrightarrow> kept t"
  shows "all_compute live W 32 mix_calls2"
  unfolding mix_calls2_def all_compute.simps snd_conv
  by (intro conjI TrueI computes_mix assms(1)) (simp_all add: assms(2) kept_def)

section \<open>\<open>Transform\<close> and the hash\<close>

definition block_words :: "bytes \<Rightarrow> u32 list" where
  "block_words chunk = map (\<lambda>i. ReadBE32 (drop (4 * i) chunk)) [0..<16]"

lemma W_std_block: "t < 16 \<Longrightarrow> W_std (block_words chunk) t = ReadBE32 (drop (4 * t) chunk)"
  by (subst W_std.simps) (simp add: block_words_def)

lemma follows_Transform: "follows abcdefgh (load_calls chunk @ mix_calls1 @ mix_calls2)"
  by (simp add: calls_defs next_names_simps)

lemma Transform_operands:
  "length w = 16 \<Longrightarrow> operands (load_calls chunk @ mix_calls1 @ mix_calls2) w
     = map2 (+) K_std (map (W_std (block_words chunk)) [0..<64])"
proof -
  let ?W = "W_std (block_words chunk)" and ?cs = "load_calls chunk @ mix_calls1 @ mix_calls2"
  have lens: "length (load_calls chunk) = 16" "length mix_calls1 = 16" "length mix_calls2 = 32"
    by (simp_all add: calls_defs)
  have app: "all_compute live W t (cs @ ds) \<longleftrightarrow> all_compute live W t cs \<and> all_compute live W (t + length cs) ds"
    for live W t cs ds by (induction cs arbitrary: t) auto
  have "all_compute kept ?W 0 ?cs"
    using load_compute [of ?W chunk] mix_compute1 [of ?W] mix_compute2 [of ?W kept]
    by (simp add: app lens W_std_block scheduled_W_std)
  moreover assume "length w = 16"
  then have "window kept ?W 0 w" by (simp add: window_def)
  ultimately have "operands ?cs w = map2 (+) (round_constants ?cs) (map ?W [0..<0 + length ?cs])"
    using operands_compute by blast
  then show ?thesis by (simp only: constants_are_K) (simp add: lens)
qed

lemma Transform1_std: "length s = 8 \<Longrightarrow> Transform1 s chunk = compress_std s (block_words chunk)"
  using rounds_64 [OF follows_Transform, of chunk s "replicate 16 0"]
  by (simp add: Transform1_def compress_std_def Transform_operands split_beta) (simp add: calls_defs)

definition cut_blocks :: "bytes \<Rightarrow> bytes list" where
  "cut_blocks m = map (\<lambda>i. take 64 (drop (64 * i) m)) [0..<length m div 64]"

lemma Transform_std:
  "length s = 8 \<Longrightarrow> Transform s m n =
     fold (\<lambda>b s. compress_std s (block_words b)) (map (\<lambda>i. take 64 (drop (64 * i) m)) [0..<n]) s"
proof (induction n arbitrary: s m)
  case (Suc n)
  have "[0..<Suc n] = 0 # map Suc [0..<n]" by (simp add: map_Suc_upt upt_conv_Cons del: upt_Suc)
  then have "map (\<lambda>i. take 64 (drop (64 * i) m)) [0..<Suc n]
      = take 64 m # map (\<lambda>i. take 64 (drop (64 * i) (drop 64 m))) [0..<n]"
    by (simp add: comp_def add.commute del: upt_Suc)
  then show ?case
    using Suc.IH [of "Transform1 s (take 64 m)" "drop 64 m"] Suc.prems
    by (simp add: Transform1_std [symmetric] del: upt_Suc)
qed simp

text \<open>The padding of the standard: a one bit, the fewest zero bits, and the length in bits.\<close>

definition pad_std :: "nat \<Rightarrow> bytes" where
  "pad_std n = 0x80 # replicate (LEAST z. (n + 1 + z) mod 64 = 56) 0 @ be_bytes 8 (8 * n)"

definition sha256_std :: "bytes \<Rightarrow> bytes" where
  "sha256_std d =
     concat (map WriteBE32 (fold (\<lambda>b s. compress_std s (block_words b)) (cut_blocks (d @ pad_std (length d))) H_std))"

lemma zeros_std: "(LEAST z :: nat. (n + 1 + z) mod 64 = 56) = (119 - n mod 64) mod 64"
proof (rule Least_equality)
  let ?r = "n mod 64"
  have r: "?r < 64" by simp
  have mod: "(n + 1 + z) mod 64 = (?r + 1 + z) mod 64" for z
    by (metis mod_add_left_eq)
  have z0: "(119 - ?r) mod 64 = (if ?r < 56 then 55 - ?r else 119 - ?r)"
  proof (cases "?r < 56")
    case True
    then have "119 - ?r = 55 - ?r + 64" "55 - ?r < 64" by linarith+
    with True show ?thesis by (simp only: mod_add_self2 mod_less if_True)
  next
    case False
    then have "119 - ?r < 64" by linarith
    with False show ?thesis by (simp only: mod_less if_False)
  qed
  show "(n + 1 + (119 - ?r) mod 64) mod 64 = 56"
  proof (cases "?r < 56")
    case True
    then have "?r + 1 + (55 - ?r) = 56" by simp
    with True show ?thesis unfolding mod z0 by (simp only: if_True) simp
  next
    case False
    then have "?r + 1 + (119 - ?r) = 120" using r by linarith
    with False show ?thesis unfolding mod z0 by (simp only: if_False) simp
  qed
  fix z assume "(n + 1 + z) mod 64 = 56"
  then have "?r + 1 + z = 64 * ((?r + 1 + z) div 64) + 56"
    unfolding mod by (metis div_mult_mod_eq mult.commute)
  then show "(119 - ?r) mod 64 \<le> z"
    unfolding z0 using r by (cases "(?r + 1 + z) div 64 = 0") (auto simp only: split: if_splits)
qed

lemma pad_is_std: "pad n = pad_std n"
  by (simp only: pad_def pad_std_def zeros_std)

lemma sha256_std_eq: "sha256_std d = sha256 d"
  using Transform_std [of sha256_init "d @ pad (length d)"]
  by (simp add: sha256_def sha256_std_def Let_def cut_blocks_def pad_is_std flip: init_is_H) (simp add: sha256_init_def)

text \<open>C13. The portable SHA-256 of the node is the standard's: \<open>Transform\<close>, unrolled into 64 calls that
  rename eight variables and overwrite sixteen schedule words, computes on padded input the hash
  of FIPS 180-4, whose constants are the fractions of roots of primes.\<close>

theorem sha256_is_standard: "sha256 d = sha256_std d"
  by (simp only: sha256_std_eq)

end
