(* ===== verification/Sha256_D64.thy ===== *)
theory Sha256_D64
  imports Sha256_Unrolled
begin

text \<open>
  Double SHA-256 of 64-byte blobs, as the node hashes Merkle trees: \<open>TransformD64\<close>, in which the
  schedule of the padding block is folded into the constants and that of the second hash is
  simplified, its generic counterpart \<open>TransformD64Wrapper\<close>, and \<open>SHA256D64\<close>, which cuts its
  input into batches for the routines that hash two, four or eight blobs at once. Those are
  separate vectorised code: each is a parameter, absent or a function.
\<close>

section \<open>\<open>TransformD64\<close>\<close>

text \<open>Transform 2: the block is the padding, so every call adds a constant only.\<close>

definition D64_calls2 :: "round_call list" where
  "D64_calls2 = [
      (abcdefgh, 0xc28a2f98, w_none),
      (habcdefg, 0x71374491, w_none),
      (ghabcdef, 0xb5c0fbcf, w_none),
      (fghabcde, 0xe9b5dba5, w_none),
      (efghabcd, 0x3956c25b, w_none),
      (defghabc, 0x59f111f1, w_none),
      (cdefghab, 0x923f82a4, w_none),
      (bcdefgha, 0xab1c5ed5, w_none),
      (abcdefgh, 0xd807aa98, w_none),
      (habcdefg, 0x12835b01, w_none),
      (ghabcdef, 0x243185be, w_none),
      (fghabcde, 0x550c7dc3, w_none),
      (efghabcd, 0x72be5d74, w_none),
      (defghabc, 0x80deb1fe, w_none),
      (cdefghab, 0x9bdc06a7, w_none),
      (bcdefgha, 0xc19bf374, w_none),
      (abcdefgh, 0x649b69c1, w_none),
      (habcdefg, 0xf0fe4786, w_none),
      (ghabcdef, 0x0fe1edc6, w_none),
      (fghabcde, 0x240cf254, w_none),
      (efghabcd, 0x4fe9346f, w_none),
      (defghabc, 0x6cc984be, w_none),
      (cdefghab, 0x61b9411e, w_none),
      (bcdefgha, 0x16f988fa, w_none),
      (abcdefgh, 0xf2c65152, w_none),
      (habcdefg, 0xa88e5a6d, w_none),
      (ghabcdef, 0xb019fc65, w_none),
      (fghabcde, 0xb9d99ec7, w_none),
      (efghabcd, 0x9a1231c3, w_none),
      (defghabc, 0xe70eeaa0, w_none),
      (cdefghab, 0xfdb1232b, w_none),
      (bcdefgha, 0xc7353eb0, w_none),
      (abcdefgh, 0x3069bad5, w_none),
      (habcdefg, 0xcb976d5f, w_none),
      (ghabcdef, 0x5a0f118f, w_none),
      (fghabcde, 0xdc1eeefd, w_none),
      (efghabcd, 0x0a35b689, w_none),
      (defghabc, 0xde0b7a04, w_none),
      (cdefghab, 0x58f4ca9d, w_none),
      (bcdefgha, 0xe15d5b16, w_none),
      (abcdefgh, 0x007f3e86, w_none),
      (habcdefg, 0x37088980, w_none),
      (ghabcdef, 0xa507ea32, w_none),
      (fghabcde, 0x6fab9537, w_none),
      (efghabcd, 0x17406110, w_none),
      (defghabc, 0x0d8cd6f1, w_none),
      (cdefghab, 0xcdaa3b6d, w_none),
      (bcdefgha, 0xc0bbbe37, w_none),
      (abcdefgh, 0x83613bda, w_none),
      (habcdefg, 0xdb48a363, w_none),
      (ghabcdef, 0x0b02e931, w_none),
      (fghabcde, 0x6fd15ca7, w_none),
      (efghabcd, 0x521afaca, w_none),
      (defghabc, 0x31338431, w_none),
      (cdefghab, 0x6ed41a95, w_none),
      (bcdefgha, 0x6d437890, w_none),
      (abcdefgh, 0xc39c91f2, w_none),
      (habcdefg, 0x9eccabbd, w_none),
      (ghabcdef, 0xb5c9a0e6, w_none),
      (fghabcde, 0x532fb63c, w_none),
      (efghabcd, 0xd2c741c6, w_none),
      (defghabc, 0x07237ea3, w_none),
      (cdefghab, 0xa4954b68, w_none),
      (bcdefgha, 0x4c191d76, w_none)]"

text \<open>Transform 3, the first 32 calls; the other 32 are those of \<open>Transform\<close>.\<close>

definition D64_calls3a :: "round_call list" where
  "D64_calls3a = [
      (abcdefgh, 0x428a2f98, w_use (\<lambda>w. w ! 0)),
      (habcdefg, 0x71374491, w_use (\<lambda>w. w ! 1)),
      (ghabcdef, 0xb5c0fbcf, w_use (\<lambda>w. w ! 2)),
      (fghabcde, 0xe9b5dba5, w_use (\<lambda>w. w ! 3)),
      (efghabcd, 0x3956c25b, w_use (\<lambda>w. w ! 4)),
      (defghabc, 0x59f111f1, w_use (\<lambda>w. w ! 5)),
      (cdefghab, 0x923f82a4, w_use (\<lambda>w. w ! 6)),
      (bcdefgha, 0xab1c5ed5, w_use (\<lambda>w. w ! 7)),
      (abcdefgh, 0x5807aa98, w_none),
      (habcdefg, 0x12835b01, w_none),
      (ghabcdef, 0x243185be, w_none),
      (fghabcde, 0x550c7dc3, w_none),
      (efghabcd, 0x72be5d74, w_none),
      (defghabc, 0x80deb1fe, w_none),
      (cdefghab, 0x9bdc06a7, w_none),
      (bcdefgha, 0xc19bf274, w_none)]"

definition D64_calls3b :: "round_call list" where
  "D64_calls3b = [
      (abcdefgh, 0xe49b69c1, w_add 0 (\<lambda>w. sigma0 (w ! 1))),
      (habcdefg, 0xefbe4786, w_add 1 (\<lambda>w. 0xa00000 + sigma0 (w ! 2))),
      (ghabcdef, 0x0fc19dc6, w_add 2 (\<lambda>w. sigma1 (w ! 0) + sigma0 (w ! 3))),
      (fghabcde, 0x240ca1cc, w_add 3 (\<lambda>w. sigma1 (w ! 1) + sigma0 (w ! 4))),
      (efghabcd, 0x2de92c6f, w_add 4 (\<lambda>w. sigma1 (w ! 2) + sigma0 (w ! 5))),
      (defghabc, 0x4a7484aa, w_add 5 (\<lambda>w. sigma1 (w ! 3) + sigma0 (w ! 6))),
      (cdefghab, 0x5cb0a9dc, w_add 6 (\<lambda>w. sigma1 (w ! 4) + 0x100 + sigma0 (w ! 7))),
      (bcdefgha, 0x76f988da, w_add 7 (\<lambda>w. sigma1 (w ! 5) + w ! 0 + 0x11002000)),
      (abcdefgh, 0x983e5152, w_set 8 (\<lambda>w. 0x80000000 + sigma1 (w ! 6) + w ! 1)),
      (habcdefg, 0xa831c66d, w_set 9 (\<lambda>w. sigma1 (w ! 7) + w ! 2)),
      (ghabcdef, 0xb00327c8, w_set 10 (\<lambda>w. sigma1 (w ! 8) + w ! 3)),
      (fghabcde, 0xbf597fc7, w_set 11 (\<lambda>w. sigma1 (w ! 9) + w ! 4)),
      (efghabcd, 0xc6e00bf3, w_set 12 (\<lambda>w. sigma1 (w ! 10) + w ! 5)),
      (defghabc, 0xd5a79147, w_set 13 (\<lambda>w. sigma1 (w ! 11) + w ! 6)),
      (cdefghab, 0x06ca6351, w_set 14 (\<lambda>w. sigma1 (w ! 12) + w ! 7 + 0x400022)),
      (bcdefgha, 0x14292967, w_set 15 (\<lambda>w. 0x100 + sigma1 (w ! 13) + w ! 8 + sigma0 (w ! 0)))]"

text \<open>The 64 calls of Transform 1 are those of \<open>Transform\<close>, on the input.\<close>

definition TransformD64 :: "bytes \<Rightarrow> bytes" where
  "TransformD64 inp =
     (let (v1, w1) = rounds (load_calls inp @ mix_calls1 @ mix_calls2) (sha256_init, replicate 16 0);
          t = map2 (+) v1 sha256_init;
          (v2, w2) = rounds D64_calls2 (t, w1);
          w = map2 (+) t v2 @ drop 8 w2;
          (v3, w3) = rounds (D64_calls3a @ D64_calls3b @ mix_calls2) (sha256_init, w)
      in concat (map WriteBE32 (map2 (+) v3 sha256_init)))"

section \<open>The padding block\<close>

text \<open>The schedule of the block that pads a message of 64 bytes.\<close>

definition padding_words :: "u32 list" where
  "padding_words =
     [0x80000000, 0x0, 0x0, 0x0, 0x0, 0x0, 0x0, 0x0,
      0x0, 0x0, 0x0, 0x0, 0x0, 0x0, 0x0, 0x200,
      0x80000000, 0x1400000, 0x205000, 0x5088, 0x22000800, 0x22550014, 0x5089742, 0xa0000020,
      0x5a880000, 0x5c9400, 0x16d49d, 0xfa801f00, 0xd33225d0, 0x11675959, 0xf6e6bfda, 0xb30c1549,
      0x8b2b050, 0x9d7c4c27, 0xce2a393, 0x88e6e1ea, 0xa52b4335, 0x67a16f49, 0xd732016f, 0x4eeb2e91,
      0x5dbf55e5, 0x8eee2335, 0xe2bc5ec2, 0xa83f4394, 0x45ad78f7, 0x36f3d0cd, 0xd99c05e8, 0xb0511dc7,
      0x69bc7ac4, 0xbd11375b, 0xe3ba71e5, 0x3b209ff2, 0x18feee17, 0xe25ad9e7, 0x13375046, 0x515089d,
      0x4f0d0f04, 0x2627484e, 0x310128d2, 0xc668b434, 0x420841cc, 0x62d311b8, 0xe59ba771, 0x85a7a484]"

lemma padding_words_schedule:
  "list_all (\<lambda>t. padding_words ! t = padding_words ! (t - 16) + (sigma1 (padding_words ! (t - 2))
     + padding_words ! (t - 7) + sigma0 (padding_words ! (t - 15)))) [16..<64]"
  by (simp add: upt_rec padding_words_def sigma0_def sigma1_def)

lemma schedule_unique:
  assumes "\<And>t. t < 16 \<Longrightarrow> V t = M ! t"
    "\<And>t. 16 \<le> t \<Longrightarrow> t < n \<Longrightarrow> V t = V (t - 16) + (sigma1 (V (t - 2)) + V (t - 7) + sigma0 (V (t - 15)))"
  shows "t < n \<Longrightarrow> V t = W_std M t"
proof (induction t rule: less_induct)
  case (less t)
  show ?case
  proof (cases "t < 16")
    case True
    then show ?thesis using assms(1) by (simp add: W_std.simps [of M t])
  next
    case False
    then have "V (t - i) = W_std M (t - i)" if "0 < i" "i \<le> 16" for i using that less by simp
    then show ?thesis
      using assms(2) [of t] less.prems False scheduled_words_diff [OF scheduled_W_std, of t M] by simp
  qed
qed

lemma padding_block: "block_words (pad 64) = take 16 padding_words"
  by code_simp

lemma W_std_padding: "map (W_std (block_words (pad 64))) [0..<64] = padding_words"
proof (rule nth_equalityI)
  show len: "length (map (W_std (block_words (pad 64))) [0..<64]) = length padding_words"
    by (simp add: padding_words_def)
  fix t assume "t < length (map (W_std (block_words (pad 64))) [0..<64])"
  then have t: "t < 64" by simp
  have "padding_words ! t = W_std (take 16 padding_words) t"
  proof (rule schedule_unique [OF _ _ t])
    fix u :: nat assume "16 \<le> u" "u < 64"
    then have "u \<in> set [16..<64]" unfolding set_upt by simp
    then show "padding_words ! u = padding_words ! (u - 16) + (sigma1 (padding_words ! (u - 2))
        + padding_words ! (u - 7) + sigma0 (padding_words ! (u - 15)))"
      using padding_words_schedule unfolding list_all_iff by blast
  qed simp
  then show "map (W_std (block_words (pad 64))) [0..<64] ! t = padding_words ! t"
    using t by (simp add: padding_block)
qed

lemma D64_operands2: "operands D64_calls2 w = map2 (+) K_std padding_words"
  unfolding constants_are_K [of "[]", symmetric]
  by (simp add: D64_calls2_def round_constants_def calls_defs padding_words_def w_none_def)

section \<open>The second hash\<close>

definition live3 :: "nat \<Rightarrow> bool" where
  "live3 t \<longleftrightarrow> kept t \<and> (t < 8 \<or> 16 \<le> t)"

text \<open>The words 8 to 15 are padding; the schedule without them.\<close>

lemma D64_schedule:
  assumes "scheduled_words W" "W 8 = 0x80000000" "W 9 = 0" "W 10 = 0" "W 11 = 0" "W 12 = 0" "W 13 = 0"
    "W 14 = 0" "W 15 = 256"
  shows "W 16 = W 0 + (sigma0 (W 1))"
    "W 17 = W 1 + (0xa00000 + sigma0 (W 2))"
    "W 18 = W 2 + (sigma1 (W 16) + sigma0 (W 3))"
    "W 19 = W 3 + (sigma1 (W 17) + sigma0 (W 4))"
    "W 20 = W 4 + (sigma1 (W 18) + sigma0 (W 5))"
    "W 21 = W 5 + (sigma1 (W 19) + sigma0 (W 6))"
    "W 22 = W 6 + (sigma1 (W 20) + 0x100 + sigma0 (W 7))"
    "W 23 = W 7 + (sigma1 (W 21) + W 16 + 0x11002000)"
    "W 24 = 0x80000000 + sigma1 (W 22) + W 17"
    "W 25 = sigma1 (W 23) + W 18"
    "W 26 = sigma1 (W 24) + W 19"
    "W 27 = sigma1 (W 25) + W 20"
    "W 28 = sigma1 (W 26) + W 21"
    "W 29 = sigma1 (W 27) + W 22"
    "W 30 = sigma1 (W 28) + W 23 + 0x400022"
    "W 31 = 0x100 + sigma1 (W 29) + W 24 + sigma0 (W 16)"
proof -
  have c: "sigma0 0 = 0" "sigma1 0 = 0" "sigma1 256 = 0xa00000" "sigma0 0x80000000 = 0x11002000"
    "sigma0 256 = 0x400022"
    by (simp_all add: sigma0_def sigma1_def)
  note d = scheduled_words_diff [OF assms(1)]
  show "W 16 = W 0 + (sigma0 (W 1))"
    using d [of 16] by (simp add: assms(2-) c add_ac)
  show "W 17 = W 1 + (0xa00000 + sigma0 (W 2))"
    using d [of 17] by (simp add: assms(2-) c add_ac)
  show "W 18 = W 2 + (sigma1 (W 16) + sigma0 (W 3))"
    using d [of 18] by (simp add: assms(2-) c add_ac)
  show "W 19 = W 3 + (sigma1 (W 17) + sigma0 (W 4))"
    using d [of 19] by (simp add: assms(2-) c add_ac)
  show "W 20 = W 4 + (sigma1 (W 18) + sigma0 (W 5))"
    using d [of 20] by (simp add: assms(2-) c add_ac)
  show "W 21 = W 5 + (sigma1 (W 19) + sigma0 (W 6))"
    using d [of 21] by (simp add: assms(2-) c add_ac)
  show "W 22 = W 6 + (sigma1 (W 20) + 0x100 + sigma0 (W 7))"
    using d [of 22] by (simp add: assms(2-) c add_ac)
  show "W 23 = W 7 + (sigma1 (W 21) + W 16 + 0x11002000)"
    using d [of 23] by (simp add: assms(2-) c add_ac)
  show "W 24 = 0x80000000 + sigma1 (W 22) + W 17"
    using d [of 24] by (simp add: assms(2-) c add_ac)
  show "W 25 = sigma1 (W 23) + W 18"
    using d [of 25] by (simp add: assms(2-) c add_ac)
  show "W 26 = sigma1 (W 24) + W 19"
    using d [of 26] by (simp add: assms(2-) c add_ac)
  show "W 27 = sigma1 (W 25) + W 20"
    using d [of 27] by (simp add: assms(2-) c add_ac)
  show "W 28 = sigma1 (W 26) + W 21"
    using d [of 28] by (simp add: assms(2-) c add_ac)
  show "W 29 = sigma1 (W 27) + W 22"
    using d [of 29] by (simp add: assms(2-) c add_ac)
  show "W 30 = sigma1 (W 28) + W 23 + 0x400022"
    using d [of 30] by (simp add: assms(2-) c add_ac)
  show "W 31 = 0x100 + sigma1 (W 29) + W 24 + sigma0 (W 16)"
    using d [of 31] by (simp add: assms(2-) c add_ac)
qed

lemma computes_add:
  assumes "\<And>w. window live W t w \<Longrightarrow> w ! i + x w = W t" "i = t mod 16"
  shows "computes live W t (w_add i x)"
  by (rule computesI) (simp_all only: w_add_def Let_def assms(1) [unfolded assms(2)] assms(2) fst_conv snd_conv simp_thms)

lemma computes_set:
  assumes "\<And>w. window live W t w \<Longrightarrow> x w = W t" "i = t mod 16"
  shows "computes live W t (w_set i x)"
  by (rule computesI) (simp_all only: w_set_def assms(1) assms(2) fst_conv snd_conv simp_thms)

lemma window_list:
  "window live W t w \<Longrightarrow> 16 \<le> t \<Longrightarrow> list_all (\<lambda>u. live u \<longrightarrow> w ! (u mod 16) = W u) [t - 16..<t]"
  by (auto simp: list_all_iff window_def)

lemma D64_compute3:
  assumes "scheduled_words W" "W 8 = 0x80000000" "W 9 = 0" "W 10 = 0" "W 11 = 0" "W 12 = 0" "W 13 = 0"
    "W 14 = 0" "W 15 = 256"
  shows "all_compute live3 W 16 D64_calls3b"
  unfolding D64_calls3b_def all_compute.simps snd_conv
  by (intro conjI TrueI computes_add computes_set; (drule window_list)?)
    (simp_all add: upt_rec live3_def kept_def D64_schedule [OF assms, symmetric, unfolded One_nat_def] flip: numeral_2_eq_2)

lemma D64_operands3a:
  assumes "W 8 = 0x80000000" "W 9 = 0" "W 10 = 0" "W 11 = 0" "W 12 = 0" "W 13 = 0" "W 14 = 0" "W 15 = 256"
  shows "operands D64_calls3a (map W [0..<8] @ x) = map2 (+) (round_constants (load_calls [])) (map W [0..<16])"
    "words_after D64_calls3a (map W [0..<8] @ x) = map W [0..<8] @ x"
  using assms by (simp_all add: D64_calls3a_def load_calls_def round_constants_def operand_defs upt_rec nth_append flip: numeral_2_eq_2)

lemma ReadBE32_WriteBE32: "ReadBE32 (WriteBE32 x @ r) = x"
proof -
  have "unat x < 256 ^ 4" using unsigned_less [where ?'a = nat and w = x] by simp
  then show ?thesis by (simp add: ReadBE32_def WriteBE32_def be_val_be_bytes)
qed

lemma length_words [simp]: "length (concat (map WriteBE32 ws)) = 4 * length ws"
  by (induction ws) (simp_all add: WriteBE32_def)

lemma ReadBE32_words:
  "i < length ws \<Longrightarrow> ReadBE32 (drop (4 * i) (concat (map WriteBE32 ws) @ r)) = ws ! i"
proof (induction ws arbitrary: i)
  case (Cons x ws)
  have len: "length (WriteBE32 x) = 4" by (simp add: WriteBE32_def)
  show ?case
  proof (cases i)
    case (Suc j)
    then show ?thesis using Cons len by (simp add: drop_append)
  qed (simp add: ReadBE32_WriteBE32)
qed simp

lemma digest_block:
  assumes "length H = 8"
  shows "block_words (concat (map WriteBE32 H) @ pad 32) = H @ [0x80000000, 0, 0, 0, 0, 0, 0, 256]"
proof -
  let ?b = "concat (map WriteBE32 H) @ pad 32"
  have "[0..<16] = [0..<8] @ map (\<lambda>i. i + 8) [0..<8]" by (simp add: map_add_upt upt_add_eq_append [of 0 8 8, simplified])
  then have "block_words ?b = map (\<lambda>i. ReadBE32 (drop (4 * i) ?b)) [0..<8]
      @ map (\<lambda>i. ReadBE32 (drop (4 * (i + 8)) ?b)) [0..<8]"
    unfolding block_words_def by (simp only: map_append map_map comp_def)
  moreover have "map (\<lambda>i. ReadBE32 (drop (4 * i) ?b)) [0..<8] = H"
    using assms by (intro nth_equalityI) (simp_all add: ReadBE32_words del: drop_append)
  moreover have "drop (4 * (i + 8)) ?b = drop (4 * i) (pad 32)" for i
    using assms by (simp add: drop_append add.commute)
  moreover have "map (\<lambda>i. ReadBE32 (drop (4 * i) (pad 32))) [0..<8] = [0x80000000, 0, 0, 0, 0, 0, 0, 256]"
    by code_simp
  ultimately show ?thesis by simp
qed

section \<open>\<open>TransformD64\<close> is the double hash\<close>

lemma length_init: "length sha256_init = 8"
  by (simp add: sha256_init_def)

lemma length_round_std: "length (round_std k v) = length v"
  by (cases "(k, v)" rule: round_std.cases) (simp_all add: Let_def)

lemma length_compress: "length (compress_std s M) = length s"
proof -
  have "length (fold round_std ks v) = length v" for ks v
    by (induction ks arbitrary: v) (simp_all add: length_round_std)
  then show ?thesis by (simp add: compress_std_def)
qed

lemma map2_add_commute: "map2 (+) xs ys = map2 (+) ys (xs :: u32 list)"
  by (induction xs ys rule: list_induct2') (simp_all add: add.commute)

lemma rounds_operands: "snd (rounds cs (v, w)) = words_after cs w"
  by (induction cs "(v, w)" arbitrary: v w rule: rounds.induct) (auto split: prod.split)

lemma length_operand:
  "length (snd (w_none w)) = length w" "length (snd (w_use x w)) = length w"
  "length (snd (w_set i x w)) = length w" "length (snd (w_add i x w)) = length w"
  by (simp_all add: operand_defs Let_def)

lemma D64_round1: "map2 (+) (fst (rounds (load_calls inp @ mix_calls1 @ mix_calls2) (sha256_init, replicate 16 0))) sha256_init
    = compress_std sha256_init (block_words inp)"
  using Transform1_std [OF length_init, of inp]
  by (simp add: Transform1_def split_beta map2_add_commute)

lemma D64_round2:
  "length t = 8 \<Longrightarrow> map2 (+) t (fst (rounds D64_calls2 (t, w))) = compress_std t (block_words (pad 64))"
  using rounds_64 [of D64_calls2 t w]
  by (simp add: compress_std_def D64_operands2 W_std_padding)
    (simp add: D64_calls2_def next_names_simps)

lemma D64_operands3:
  assumes "length H = 8" "length x = 8"
  shows "operands (D64_calls3a @ D64_calls3b @ mix_calls2) (H @ x)
     = map2 (+) K_std (map (W_std (H @ [0x80000000, 0, 0, 0, 0, 0, 0, 256])) [0..<64])"
proof -
  define W where "W = W_std (H @ [0x80000000, 0, 0, 0, 0, 0, 0, 256])"
  have sched: "scheduled_words W" unfolding W_def by (rule scheduled_W_std)
  have H: "map W [0..<8] = H"
    using assms(1) by (intro nth_equalityI) (simp_all add: W_def W_std.simps nth_append)
  have p: "W 8 = 0x80000000" "W 9 = 0" "W 10 = 0" "W 11 = 0" "W 12 = 0" "W 13 = 0" "W 14 = 0" "W 15 = 256"
    using assms(1) by (simp_all add: W_def W_std.simps nth_append)
  have win: "window live3 W 16 (H @ x)"
    unfolding window_def
  proof (intro conjI allI impI)
    fix u :: nat assume u: "u < 16" "live3 u"
    then have u8: "u < 8" by (auto simp: live3_def)
    have "W u = map W [0..<8] ! u" using u8 by simp
    then show "(H @ x) ! (u mod 16) = W u" using u8 assms(1) by (simp only: H) (simp add: nth_append)
  qed (use assms in simp)
  have lens: "length D64_calls3b = 16" "length mix_calls2 = 32"
    by (simp_all add: D64_calls3b_def mix_calls2_def)
  have same: "round_constants D64_calls3b = round_constants mix_calls1"
    by (simp add: D64_calls3b_def mix_calls1_def round_constants_def)
  have b: "operands D64_calls3b (H @ x) = map2 (+) (round_constants D64_calls3b) (map W [16..<32])"
    "window live3 W 32 (words_after D64_calls3b (H @ x))"
    using operands_compute [OF D64_compute3 [OF sched p] win] by (simp_all add: lens)
  have "all_compute live3 W 32 mix_calls2"
    using sched by (rule mix_compute2) (simp add: live3_def)
  from operands_compute [OF this b(2)]
  have c: "operands mix_calls2 (words_after D64_calls3b (H @ x)) = map2 (+) (round_constants mix_calls2) (map W [32..<64])"
    by (simp add: lens)
  have K: "K_std = round_constants (load_calls []) @ round_constants mix_calls1 @ round_constants mix_calls2"
    by (simp add: round_constants_def flip: constants_are_K [of "[]"])
  have upt: "[0..<64] = [0..<16] @ [16..<32] @ [32..<64]"
    using upt_add_eq_append [of 0 16 48] upt_add_eq_append [of 16 32 32] by simp
  have rl: "length (round_constants (load_calls [])) = 16" "length (round_constants mix_calls1) = 16"
    by (simp_all add: round_constants_def calls_defs)
  show ?thesis
    unfolding W_def [symmetric] K upt operands_append map_append
    by (simp only: D64_operands3a [OF p, of x, unfolded H] b(1) c same rl zip_append map_append length_map
        length_upt diff_zero)
qed

lemma D64_round3:
  assumes "length H = 8" "length x = 8"
  shows "map2 (+) (fst (rounds (D64_calls3a @ D64_calls3b @ mix_calls2) (sha256_init, H @ x))) sha256_init
     = compress_std sha256_init (H @ [0x80000000, 0, 0, 0, 0, 0, 0, 256])"
proof -
  let ?c3 = "D64_calls3a @ D64_calls3b @ mix_calls2"
  have "fst (rounds ?c3 (sha256_init, H @ x)) = fold round_std (operands ?c3 (H @ x)) sha256_init"
    by (rule rounds_64) (simp_all add: D64_calls3a_def D64_calls3b_def mix_calls2_def next_names_simps length_init)
  then show ?thesis
    unfolding compress_std_def D64_operands3 [OF assms] map2_add_commute [of sha256_init] by simp
qed

lemma TransformD64_std:
  "TransformD64 inp =
     (let H = compress_std (compress_std sha256_init (block_words inp)) (block_words (pad 64))
      in concat (map WriteBE32 (compress_std sha256_init (H @ [0x80000000, 0, 0, 0, 0, 0, 0, 256]))))"
proof -
  let ?c1 = "load_calls inp @ mix_calls1 @ mix_calls2"
  let ?t = "compress_std sha256_init (block_words inp)" and ?w1 = "words_after ?c1 (replicate 16 0)"
  let ?H = "compress_std ?t (block_words (pad 64))" and ?w2 = "words_after D64_calls2 ?w1"
  have lw: "length ?w1 = 16"
    by (simp only: calls_defs append.simps words_after.simps length_operand length_replicate)
  then have lx: "length (drop 8 ?w2) = 8"
    by (simp only: D64_calls2_def words_after.simps length_operand length_drop)
  have lt: "length ?t = 8" "length ?H = 8" by (simp_all add: length_compress length_init)
  show ?thesis
    unfolding TransformD64_def Let_def split_beta rounds_operands D64_round1 D64_round2 [OF lt(1)]
      D64_round3 [OF lt(2) lx] ..
qed

lemma Transform_one: "length b = 64 \<Longrightarrow> length s = 8 \<Longrightarrow> Transform s b 1 = compress_std s (block_words b)"
  by (simp add: Transform1_std)

lemma sha256_32:
  assumes "length H = 8"
  shows "sha256 (concat (map WriteBE32 H))
     = concat (map WriteBE32 (compress_std sha256_init (H @ [0x80000000, 0, 0, 0, 0, 0, 0, 256])))"
proof -
  let ?m = "concat (map WriteBE32 H) @ pad 32"
  have l: "length ?m = 64" "length (concat (map WriteBE32 H)) = 32" "length ?m div 64 = 1"
    using assms by (simp_all add: pad_def)
  show ?thesis
    unfolding sha256_def Let_def l(2) l(3) Transform_one [OF l(1) length_init] digest_block [OF assms] ..
qed

lemma sha256_64:
  assumes "length d = 64"
  shows "sha256 d = concat (map WriteBE32 (compress_std (compress_std sha256_init (block_words d)) (block_words (pad 64))))"
proof -
  have l: "length (pad 64) = 64" "length (d @ pad 64) div 64 = 1 + 1" using assms by (simp_all add: pad_def)
  have "Transform sha256_init (d @ pad 64) (1 + 1) = Transform (Transform sha256_init d 1) (pad 64) 1"
    using assms by (intro Transform_snoc) simp
  also have "\<dots> = compress_std (compress_std sha256_init (block_words d)) (block_words (pad 64))"
    by (simp only: Transform_one assms l(1) length_init length_compress)
  finally show ?thesis
    unfolding sha256_def Let_def assms l(2) by simp
qed

lemma TransformD64_double: "length inp = 64 \<Longrightarrow> TransformD64 inp = sha256 (sha256 inp)"
  by (simp only: TransformD64_std Let_def sha256_64 sha256_32 length_compress length_init)

section \<open>\<open>TransformD64Wrapper\<close>\<close>

definition padding1 :: bytes where
  "padding1 = 0x80 # replicate 61 0 @ [2, 0]"

text \<open>The second half of \<open>buffer2\<close>; its first half is overwritten.\<close>

definition buffer2_tail :: bytes where
  "buffer2_tail = 0x80 # replicate 29 0 @ [1, 0]"

definition TransformD64Wrapper :: "(u32 list \<Rightarrow> bytes \<Rightarrow> nat \<Rightarrow> u32 list) \<Rightarrow> bytes \<Rightarrow> bytes" where
  "TransformD64Wrapper tr inp =
     (let s1 = tr sha256_init inp 1;
          s2 = tr s1 padding1 1;
          buffer2 = concat (map WriteBE32 s2) @ buffer2_tail;
          s3 = tr sha256_init buffer2 1
      in concat (map WriteBE32 s3))"

lemma wrapper_padding: "padding1 = pad 64" "buffer2_tail = pad 32"
  by code_simp+

lemma Wrapper_double:
  assumes "length inp = 64"
  shows "TransformD64Wrapper Transform inp = sha256 (sha256 inp)"
proof -
  have l: "length (pad 64) = 64" "length (pad 32) = 32" by (simp_all add: pad_def)
  let ?H = "compress_std (compress_std sha256_init (block_words inp)) (block_words (pad 64))"
  have H: "length ?H = 8" by (simp only: length_compress length_init)
  have b: "length (concat (map WriteBE32 ?H) @ pad 32) = 64" using H l by simp
  show ?thesis
    unfolding TransformD64Wrapper_def Let_def wrapper_padding sha256_64 [OF assms] sha256_32 [OF H]
      Transform_one [OF assms length_init] Transform_one [OF l(1) length_compress [THEN trans, OF length_init]]
      Transform_one [OF b length_init] digest_block [OF H] ..
qed

section \<open>\<open>SHA256D64\<close>\<close>

text \<open>A loop \<open>while (blocks >= n)\<close> around a routine that hashes \<open>n\<close> blobs, or no loop without one.\<close>

function batches :: "nat \<Rightarrow> (bytes \<Rightarrow> bytes) \<Rightarrow> bytes \<times> bytes \<times> nat \<Rightarrow> bytes \<times> bytes \<times> nat" where
  "batches n f (out, inp, blocks) =
     (if 0 < n \<and> n \<le> blocks
      then batches n f (out @ f (take (64 * n) inp), drop (64 * n) inp, blocks - n)
      else (out, inp, blocks))"
  by pat_completeness auto
termination
  by (relation "measure (\<lambda>(n, f, out, inp, blocks). blocks)") auto

declare batches.simps [simp del]

definition batches_if :: "nat \<Rightarrow> (bytes \<Rightarrow> bytes) option \<Rightarrow> bytes \<times> bytes \<times> nat \<Rightarrow> bytes \<times> bytes \<times> nat" where
  "batches_if n f st = (case f of None \<Rightarrow> st | Some g \<Rightarrow> batches n g st)"

definition SHA256D64 ::
    "(bytes \<Rightarrow> bytes) option \<Rightarrow> (bytes \<Rightarrow> bytes) option \<Rightarrow> (bytes \<Rightarrow> bytes) option \<Rightarrow> (bytes \<Rightarrow> bytes)
     \<Rightarrow> bytes \<Rightarrow> nat \<Rightarrow> bytes" where
  "SHA256D64 way8 way4 way2 way1 inp blocks =
     fst (batches 1 way1 (batches_if 2 way2 (batches_if 4 way4 (batches_if 8 way8 ([], inp, blocks)))))"

definition blob :: "bytes \<Rightarrow> nat \<Rightarrow> bytes" where
  "blob x i = take 64 (drop (64 * i) x)"

definition double_hashes :: "nat \<Rightarrow> bytes \<Rightarrow> bytes" where
  "double_hashes n x = concat (map (\<lambda>i. sha256 (sha256 (blob x i))) [0..<n])"

text \<open>What is documented of a routine that hashes \<open>n\<close> blobs.\<close>

definition nway :: "nat \<Rightarrow> (bytes \<Rightarrow> bytes) \<Rightarrow> bool" where
  "nway n f \<longleftrightarrow> (\<forall>x. length x = 64 * n \<longrightarrow> f x = double_hashes n x)"

lemma double_hashes_add:
  "double_hashes (m + n) x = double_hashes m x @ double_hashes n (drop (64 * m) x)"
proof -
  have "[0..<m + n] = [0..<m] @ map (\<lambda>i. i + m) [0..<n]"
    by (simp add: map_add_upt upt_add_eq_append [of 0] add.commute)
  then show ?thesis by (simp add: double_hashes_def blob_def comp_def algebra_simps)
qed

lemma double_hashes_take:
  assumes "64 * n \<le> length x"
  shows "double_hashes n (take (64 * n) x) = double_hashes n x"
proof -
  have "blob (take (64 * n) x) i = blob x i" if "i < n" for i
    using that by (simp add: blob_def drop_take min_def)
  then show ?thesis
    unfolding double_hashes_def by (intro arg_cong [where f = concat] map_cong) simp_all
qed

text \<open>The output so far and what is left to do always make up the same digests.\<close>

lemma batches_digests:
  assumes "nway n f" "64 * blocks \<le> length inp" "batches n f (out, inp, blocks) = (out', inp', blocks')"
  shows "out' @ double_hashes blocks' inp' = out @ double_hashes blocks inp \<and> 64 * blocks' \<le> length inp'
     \<and> (0 < n \<longrightarrow> blocks' < n)"
  using assms(2,3)
proof (induction blocks arbitrary: out inp rule: less_induct)
  case (less blocks)
  show ?case
  proof (cases "0 < n \<and> n \<le> blocks")
    case True
    have le: "64 * n \<le> length inp" using True less.prems(1) by linarith
    have "f (take (64 * n) inp) = double_hashes n inp"
      using assms(1) le by (simp add: nway_def double_hashes_take)
    moreover have "double_hashes blocks inp = double_hashes n inp @ double_hashes (blocks - n) (drop (64 * n) inp)"
      using double_hashes_add [of n "blocks - n" inp] True by simp
    moreover have "64 * (blocks - n) \<le> length (drop (64 * n) inp)" using less.prems(1) by simp
    ultimately show ?thesis
      using less.IH [of "blocks - n" "drop (64 * n) inp" "out @ f (take (64 * n) inp)"] less.prems(2) True
      by (simp add: batches.simps [of n f out])
  next
    case False
    then show ?thesis using less.prems by (auto simp: batches.simps [of n f out])
  qed
qed

lemma batches_if_digests:
  assumes "\<And>g. f = Some g \<Longrightarrow> nway n g" "64 * blocks \<le> length inp"
    "batches_if n f (out, inp, blocks) = (out', inp', blocks')"
  shows "out' @ double_hashes blocks' inp' = out @ double_hashes blocks inp \<and> 64 * blocks' \<le> length inp'"
  using assms batches_digests by (cases f) (auto simp: batches_if_def)

lemma blob_0: "length x = 64 \<Longrightarrow> double_hashes 1 x = sha256 (sha256 x)"
  by (simp add: double_hashes_def blob_def)

lemma one_way: "nway 1 TransformD64" "nway 1 (TransformD64Wrapper Transform)"
  by (simp_all add: nway_def TransformD64_double Wrapper_double blob_0 [simplified])

lemma SHA256D64_digests:
  assumes "64 * blocks \<le> length inp" "nway 1 way1"
    "\<And>f. way8 = Some f \<Longrightarrow> nway 8 f" "\<And>f. way4 = Some f \<Longrightarrow> nway 4 f" "\<And>f. way2 = Some f \<Longrightarrow> nway 2 f"
  shows "SHA256D64 way8 way4 way2 way1 inp blocks = double_hashes blocks inp"
proof -
  obtain o8 i8 b8 where r8: "batches_if 8 way8 ([], inp, blocks) = (o8, i8, b8)" by (metis surj_pair)
  obtain o4 i4 b4 where r4: "batches_if 4 way4 (o8, i8, b8) = (o4, i4, b4)" by (metis surj_pair)
  obtain o2 i2 b2 where r2: "batches_if 2 way2 (o4, i4, b4) = (o2, i2, b2)" by (metis surj_pair)
  obtain o1 i1 b1 where r1: "batches 1 way1 (o2, i2, b2) = (o1, i1, b1)" by (metis surj_pair)
  have a8: "o8 @ double_hashes b8 i8 = double_hashes blocks inp" "64 * b8 \<le> length i8"
    using batches_if_digests [OF assms(3,1) r8] by simp_all
  have a4: "o4 @ double_hashes b4 i4 = o8 @ double_hashes b8 i8" "64 * b4 \<le> length i4"
    using batches_if_digests [OF assms(4) a8(2) r4] by simp_all
  have a2: "o2 @ double_hashes b2 i2 = o4 @ double_hashes b4 i4" "64 * b2 \<le> length i2"
    using batches_if_digests [OF assms(5) a4(2) r2] by simp_all
  have "o1 @ double_hashes b1 i1 = o2 @ double_hashes b2 i2" "b1 = 0"
    using batches_digests [OF assms(2) a2(2) r1] by auto
  then have "o1 = double_hashes blocks inp" using a8 a4 a2 by (simp add: double_hashes_def)
  then show ?thesis by (simp only: SHA256D64_def r8 r4 r2 r1 fst_conv)
qed

text \<open>C12. Hashing many blobs at once gives the double SHA-256 of each: whatever vectorised routines are
  installed, provided each does what it documents, \<open>SHA256D64\<close> returns the digests of all blobs
  in order, with the folded constants of \<open>TransformD64\<close> or with the generic wrapper.\<close>

theorem SHA256D64_double_hashes:
  assumes "64 * blocks \<le> length inp" "way1 = TransformD64 \<or> way1 = TransformD64Wrapper Transform"
    "\<And>f. way8 = Some f \<Longrightarrow> nway 8 f" "\<And>f. way4 = Some f \<Longrightarrow> nway 4 f" "\<And>f. way2 = Some f \<Longrightarrow> nway 2 f"
  shows "SHA256D64 way8 way4 way2 way1 inp blocks
     = concat (map (\<lambda>i. sha256_std (sha256_std (take 64 (drop (64 * i) inp)))) [0..<blocks])"
  using SHA256D64_digests [of blocks inp way1 way8 way4 way2] assms one_way
  by (auto simp: double_hashes_def blob_def sha256_std_eq)

theorem SHA256D64_double_hashes_witness:
  "SHA256D64 None None (Some (\<lambda>x. TransformD64 (take 64 x) @ TransformD64 (drop 64 x))) TransformD64 (replicate 192 7) 3
     = concat (replicate 3 (sha256_std (sha256_std (replicate 64 7))))"
proof -
  have "nway 2 (\<lambda>x. TransformD64 (take 64 x) @ TransformD64 (drop 64 x))"
    by (simp add: nway_def TransformD64_double double_hashes_def blob_def numeral_2_eq_2)
  then have "SHA256D64 None None (Some (\<lambda>x. TransformD64 (take 64 x) @ TransformD64 (drop 64 x))) TransformD64
      (replicate 192 7) 3 = concat (map (\<lambda>i. sha256_std (sha256_std (take 64 (drop (64 * i) (replicate 192 7))))) [0..<3])"
    by (intro SHA256D64_double_hashes) auto
  then show ?thesis by (simp add: numeral_3_eq_3)
qed

end
