(* ===== verification/Spec2Isabelle.thy ===== *)
theory Spec2Isabelle
  imports Worker_Overlap Faucet Sha256_D64
begin

text \<open>
  Verification of two services around the Elektron Net node: the \<^bold>\<open>node map worker\<close>
  (\<open>contrib/websitetools/nodemaps/worker/src\<close>), which crawls the peer-to-peer network and
  publishes a map of it, and the \<^bold>\<open>faucet\<close> (\<open>contrib/faucet/server.js\<close>), which pays small
  amounts on request.

  \<^bold>\<open>How the parts interact.\<close> A cron tick or an authorised request makes the worker read the peer
  store from its key-value namespace, ask the DNS seeders for addresses, visit a batch of known
  peers over the wire protocol, merge what they report into the store, write it back, and, when
  the published snapshot is old enough, geolocate the peers and rebuild it. All other requests
  read the snapshot. The faucet stands alone: it checks a claim against its file, calls the
  wallet, and records the payout.

  \<^bold>\<open>JavaScript.\<close> Strings are lists of UTF-16 code units (\<open>jsstr\<close>), bytes \<open>8 word list\<close>,
  numbers doubles with NaN and infinities over exact rationals (\<open>jsnum\<close>, rounded to nearest
  even), exceptions the left of a sum (\<open>'a res\<close>), objects association lists in insertion order.
  \<open>Js_Prelude\<close>, \<open>Js_Number\<close>, \<open>Byte_View\<close>, \<open>Js_String\<close>, \<open>Js_Utf8\<close> and \<open>Js_Object\<close> model
  what the sources use of the language: \<open>DataView\<close>, \<open>split\<close>, \<open>Number\<close>, \<open>parseInt\<close>,
  \<open>TextEncoder\<close>, \<open>encodeURIComponent\<close>, \<open>slice\<close>, and the stable \<open>sort\<close>, whose contract for a
  comparison function is the locale \<open>comparison\<close>.

  \<^bold>\<open>Theories.\<close>
  \<^item> \<open>Sha256_Rounds\<close>, \<open>Sha256\<close>, \<open>Sha256_Spec\<close>, \<open>Sha256_Unrolled\<close>, \<open>Sha256_D64\<close>: the
    portable code of \<open>src/crypto/sha256.cpp\<close>, the hash behind \<open>p2pChecksum\<close>. \<open>Sha256_Rounds\<close>
    has the 64 unrolled calls of \<open>Transform\<close> with their constants, \<open>Sha256\<close> the streaming
    \<open>CSHA256\<close> (chunking does not matter), \<open>Sha256_Spec\<close> the standard FIPS 180-4, its
    constants computed from the roots of the first primes. \<open>Sha256_Unrolled\<close> shows that the
    code computes the standard hash, and \<open>Sha256_D64\<close> that \<open>TransformD64\<close>, with its
    precomputed padding, and \<open>SHA256D64\<close> hash every 64-byte block twice.
  \<^item> \<open>P2p_Varint\<close>, \<open>P2p_Ip\<close>, \<open>P2p_Base32\<close>, \<open>P2p_Payload\<close>, \<open>P2p_Message\<close>:
    \<open>protocol.js\<close>. Round trips of every format, parsers that never throw, entries bounded by the
    bytes received, messages extracted only with a valid checksum, independence of chunking.
  \<^item> \<open>Crawl_Peer\<close>: \<open>crawlPeerOnce\<close> of \<open>crawl.js\<close>. What a visit reports, the order of the
    messages it writes, and that it ends at its deadline.
  \<^item> \<open>Worker_Dns\<close>: \<open>dns.js\<close>. Sampling ends and collects exactly the answers.
  \<^item> \<open>Worker_Geo\<close>: \<open>geo.js\<close>. Fallback order of the services, reuse of the cache, bound on
    requests.
  \<^item> \<open>Crawl_Store\<close>: \<open>advanceCrawl\<close> of \<open>crawl.js\<close>. Invariant of the store (proved once for
    all updates in the locale \<open>record_invariant\<close>), refinement of a map from peers to the time
    they were last seen, order and bound of the batch, survival of the seeds.
  \<^item> \<open>Snapshot\<close>: \<open>snapshot.js\<close>. Which peers are shown, and that all counts agree.
  \<^item> \<open>Worker\<close>: \<open>index.js\<close>. Who can cause work, the namespace, and the worker over time
    (\<open>worker_run\<close>).
  \<^item> \<open>Worker_Overlap\<close>: runs of \<open>index.js\<close> that overlap, cut into steps at every \<open>await\<close>
    (\<open>run_step\<close>, \<open>overlapped\<close>). The invariants of the stored data survive every
    interleaving; the work of one of two overlapping runs may not.
  \<^item> \<open>Faucet\<close>: \<open>server.js\<close>. Cooldowns (locale \<open>claim_key\<close>, for addresses and IPs), daily
    limit, waiting times, and the interleaving of requests at the wallet call
    (\<open>faucet_run\<close>).
  \<^item> This theory: properties of the worker that span its parts.

  \<^bold>\<open>Parameters.\<close> The network and the platform are arguments: replies of the resolver
  (\<open>dns_io\<close>), of the GeoIP services (\<open>geo_io\<close>) and of the wallet, the course of a connection
  (\<open>peer_io\<close>), readings of the clock, failures of file and namespace, and the vectorised
  routines \<open>SHA256D64\<close> dispatches to, which are assumed to agree with the portable one. Requests of a run are
  numbered, and the number reached is returned; this gives the budget of \<open>run_budget\<close>.

  \<^bold>\<open>Termination.\<close> Loops are recursive functions with a measure where they always end. A visit
  consumes a finite list of passes offered by the platform and is \<open>None\<close> while it waits; the
  DNS loop, whose bound is a configured double, is \<open>partial_function (option)\<close>. Both are
  shown to return, in \<open>visit_ends\<close> and \<open>sampleSeedIps_union\<close>, and so is a whole run
  (\<open>run_budget\<close>). No fuel is used.

  \<^bold>\<open>Limits of the model.\<close> Log output and pauses are left out. Property names inherited from
  \<open>Object.prototype\<close> are not considered. DNS replies have their documented shape, and country
  names and codes are text. A write to a connection resolves or rejects. Two
  operations on the namespace never overlap each other, and a read returns a value that was
  once stored. The faucet's file holds what the faucet wrote, or is missing or no JSON.

  \<^bold>\<open>Not modelled.\<close> \<open>dashboard-bundle.js\<close> is a generated copy of the worker's sources in one
  file. Express, axios, the rate limiter and dotenv are libraries the faucet calls; the worker's
  platform (sockets, namespace, fetch) is a service. The node itself (consensus, wallet, network
  and graphical interface in C++), other than its SHA-256, is a separate program. Of
  \<open>sha256.cpp\<close>, \<open>SHA256AutoDetect\<close> and the self test, which choose among assembly and
  intrinsics by processor, are left out.
\<close>

text \<open>What the worker stores and serves is consistent, over any sequence of cron ticks and
  requests, one after the other, and whatever the network does: every snapshot that is served has counts that agree with
  its nodes, and every stored peer satisfies the invariant of the store, in particular the
  depth limit.\<close>

lemma served_snapshots_consistent:
  assumes "worker_run env t kv" "t \<le> w_now_crawl io" "fetch_handler io env req kv n = Some (Inr reply, kv', n')"
    "rs_body reply = JsonSnapshot snap"
  shows "counts_agree snap
     \<and> (\<forall>store k r. kvGetJson (kv_peers kv') = Some store \<longrightarrow> obj_get store k = Some r \<longrightarrow>
          peer_ok (loadConfig env) (w_now_crawl io) k r)"
  using fetch_ok [OF assms(3) worker_run_ok [OF assms(1)] assms(2)] assms(4)
  by (auto simp: kv_ok_def store_ok_def all_peers_def)

text \<open>C8. A run keeps to its budget of requests and ends: two per seed host and DNS round, two per
  extra host, one connection per candidate and three per GeoIP lookup, provided the configured
  numbers are whole and every peer lets the deadline of its visit pass.\<close>

theorem run_budget:
  assumes "dnsRounds cfg = jint r" "r \<le> 2 ^ 53" "maxPeersPerRun cfg = jint m" "patient (w_peers io) cfg"
    "maxGeoLookupsPerRun cfg = jint g" "0 \<le> g"
  shows "\<exists>res kv' n'. runDiscoveryAndSnapshot io cfg kv n = Some (res, kv', n')
     \<and> n' \<le> n + 2 * length (seedHosts cfg) * nat (max 1 r) + 2 * length (extraSeedHosts cfg) + nat m + 3 * nat g"
  by (rule run_ends [OF assms])

text \<open>C24. One visit that throws discards the round: when opening the connection to any candidate
  throws, the run rejects with that error and the namespace is left as it was, so that nothing
  learned in the round, from seeders or from other peers, is kept.\<close>

theorem throwing_visit_discards_round:
  assumes "w_kv io GetPeers = None" "kvGetJson (kv_peers kv) = Some store" "obj_wf store"
    "sampleSeedIps (w_dns io) (seedHosts cfg) (dnsRounds cfg) n = Some (Inr seeds, n1)"
    "resolveExtraSeedIps (w_dns io) (extraSeedHosts cfg) n1 = (Inr extra, n2)"
    "healed = heal_store (crawl_roots (w_now_crawl io) (new_Set (seeds @ extra)) store)"
    "candidates cfg healed = before @ c # rest"
    "crawl_all None (w_peers io) cfg (w_now_crawl io) before healed n2 = Some (Inr st, n3)"
    "io_connect (w_peers io n3) = Some e"
  shows "runDiscoveryAndSnapshot io cfg kv n = Some (Inl e, kv, Suc n3)"
  using rejected_visit_aborts [OF assms(4-6,3,7-9)] assms(1,2)
  by (simp add: runDiscoveryAndSnapshot_def kv_then_def)

section \<open>Witnesses\<close>

theorem run_budget_witness:
  "\<exists>res kv' n'. runDiscoveryAndSnapshot sample_worker (loadConfig (\<lambda>_. None)) empty_kv 0 = Some (res, kv', n')
     \<and> n' \<le> 38"
proof -
  have "patient (w_peers sample_worker) (loadConfig (\<lambda>_. None))"
    by (simp add: patient_def sample_worker_def sample_io_def default_config jadd_jint safe_int_def)
  from run_budget [OF default_config(3) _ default_config(4) this default_config(5), of empty_kv 0]
  show ?thesis by (simp add: default_config)
qed

text \<open>A worker whose only candidate cannot be connected to.\<close>

definition throwing_worker :: worker_io where
  "throwing_worker = sample_worker\<lparr>w_peers := (\<lambda>_. sample_io\<lparr>io_connect := Some TypeError\<rparr>)\<rparr>"

theorem throwing_visit_discards_round_witness:
  "runDiscoveryAndSnapshot throwing_worker sample_config (empty_kv\<lparr>kv_peers := Holds sample_roots\<rparr>) 0
     = Some (Inl TypeError, empty_kv\<lparr>kv_peers := Holds sample_roots\<rparr>, 3)"
proof -
  let ?kv = "empty_kv\<lparr>kv_peers := Holds sample_roots\<rparr>"
  have w: "w_kv throwing_worker GetPeers = None" "w_dns throwing_worker = sample_dns"
    "w_now_crawl throwing_worker = 1000" "io_connect (w_peers throwing_worker 2) = Some TypeError"
    by (simp_all add: throwing_worker_def sample_worker_def)
  have h: "sample_roots = heal_store (crawl_roots 1000 (new_Set ([[65], [66]] @ [])) sample_roots)"
    by (simp add: new_Set_def set_add_def sample_crawl_roots sample_heal)
  have s: "sampleSeedIps sample_dns (seedHosts sample_config) (dnsRounds sample_config) 0 = Some (Inr [[65], [66]], 2)"
    using sample_seeds by (simp add: sample_config_def del: js_simps)
  have x: "resolveExtraSeedIps sample_dns (extraSeedHosts sample_config) 2 = (Inr [], 2)"
    by (simp add: sample_config_def resolveExtraSeedIps_def returnN_def)
  have c: "candidates sample_config sample_roots =
      [] @ mk_cand ([65], new_root 1000 [65]\<lparr>k_lastSeen := Some 1000\<rparr>) # []"
    by (simp add: sample_candidates)
  have "runDiscoveryAndSnapshot throwing_worker sample_config ?kv 0 = Some (Inl TypeError, ?kv, Suc 2)"
    by (rule throwing_visit_discards_round [OF w(1) _ sample_roots_wf s [folded w(2)] x [folded w(2)]
          h [folded w(3)] c _ w(4)]) simp_all
  then show ?thesis by simp
qed

end
